(* ===== verification/Consensus_Prelude.thy ===== *)
theory Consensus_Prelude
  imports Main "HOL-Library.Word" "HOL-Library.AList"
begin

text \<open>
  Shared vocabulary of the development: Rust's fixed-width integers and their checked, saturating
  and wrapping operations, \<^verbatim>\<open>Result\<close> as a sum type with its bind, \<^verbatim>\<open>Vec::get\<close> and
  \<^verbatim>\<open>HashMap\<close>, and the lemma collections that the component theories extend.

  Conventions. A \<^verbatim>\<open>u64\<close> is a \<open>64 word\<close>; an \<^verbatim>\<open>i64\<close> is a \<open>64 word\<close> read with
  \<^const>\<open>sint\<close>, so an \<^verbatim>\<open>as\<close> cast between the two is the identity. A \<^verbatim>\<open>usize\<close> that
  indexes a vector is a \<^typ>\<open>nat\<close>. A fallible function returns a sum whose left injection is the
  error. A fallible function that takes \<^verbatim>\<open>&mut self\<close> returns on its left injection the error
  together with the state at the point where the error was raised, because Rust keeps the
  mutations made before an early return.
\<close>

named_theorems result_simps \<open>evaluation of the result type and its bind\<close>
named_theorems word_to_int \<open>arithmetic on machine words as arithmetic on numbers\<close>

type_synonym u8 = "8 word"
type_synonym u32 = "32 word"
type_synonym u64 = "64 word"
type_synonym i64 = "64 word"
type_synonym usize = nat
type_synonym hash256 = "256 word"

section \<open>Results\<close>

type_synonym ('e, 's) outcome = "('e \<times> 's) + 's"

fun bind_r :: "'e + 'a \<Rightarrow> ('a \<Rightarrow> 'e + 'b) \<Rightarrow> 'e + 'b" where
  "bind_r (Inl e) f = Inl e"
| "bind_r (Inr x) f = f x"

fun ok_or :: "'a option \<Rightarrow> 'e \<Rightarrow> 'e + 'a" where
  "ok_or None e = Inl e"
| "ok_or (Some x) e = Inr x"

fun map_err :: "('e \<Rightarrow> 'f) \<Rightarrow> 'e + 'a \<Rightarrow> 'f + 'a" where
  "map_err f (Inl e) = Inl (f e)"
| "map_err f (Inr x) = Inr x"

text \<open>The error of a read-only call made by a mutating function, paired with the state so far.\<close>

definition with_state :: "'s \<Rightarrow> 'e + 'a \<Rightarrow> ('e \<times> 's) + 'a" where
  "with_state s = map_err (\<lambda>e. (e, s))"

lemma bind_r_eq_Inr [result_simps]:
  "bind_r m f = Inr y \<longleftrightarrow> (\<exists>x. m = Inr x \<and> f x = Inr y)"
  by (cases m) auto

lemma bind_r_eq_Inl [result_simps]:
  "bind_r m f = Inl e \<longleftrightarrow> m = Inl e \<or> (\<exists>x. m = Inr x \<and> f x = Inl e)"
  by (cases m) auto

lemma bind_r_cong [fundef_cong]:
  assumes "m = m'" and "\<And>x. m' = Inr x \<Longrightarrow> f x = f' x"
  shows "bind_r m f = bind_r m' f'"
  using assms by (cases m') auto

lemma bind_r_assoc: "bind_r (bind_r m f) g = bind_r m (\<lambda>x. bind_r (f x) g)"
  by (cases m) auto

lemma ok_or_eq_Inr [result_simps]: "ok_or m e = Inr x \<longleftrightarrow> m = Some x"
  by (cases m) auto

lemma ok_or_eq_Inl [result_simps]: "ok_or m e = Inl e' \<longleftrightarrow> m = None \<and> e' = e"
  by (cases m) auto

lemma map_err_eq_Inr [result_simps]: "map_err f m = Inr x \<longleftrightarrow> m = Inr x"
  by (cases m) auto

lemma with_state_eq_Inr [result_simps]: "with_state s m = Inr x \<longleftrightarrow> m = Inr x"
  by (simp add: with_state_def map_err_eq_Inr)

lemma with_state_simps [simp]:
  "with_state s (Inl e) = Inl (e, s)"
  "with_state s (Inr x) = Inr x"
  by (simp_all add: with_state_def)

section \<open>Vectors\<close>

definition nth_opt :: "'a list \<Rightarrow> nat \<Rightarrow> 'a option" where
  "nth_opt xs i = (if i < length xs then Some (xs ! i) else None)"

lemma nth_opt_eq_Some [simp]: "nth_opt xs i = Some x \<longleftrightarrow> i < length xs \<and> xs ! i = x"
  by (auto simp: nth_opt_def)

lemma nth_opt_eq_None [simp]: "nth_opt xs i = None \<longleftrightarrow> length xs \<le> i"
  by (auto simp: nth_opt_def)

lemma nth_opt_in_range: "i < length xs \<Longrightarrow> nth_opt xs i = Some (xs ! i)"
  by simp

text \<open>\<^verbatim>\<open>xs.get(i).copied().unwrap_or(d)\<close>\<close>

definition nth_or :: "'a list \<Rightarrow> nat \<Rightarrow> 'a \<Rightarrow> 'a" where
  "nth_or xs i d = (if i < length xs then xs ! i else d)"

lemma sum_list_update_int:
  fixes xs :: "int list"
  assumes "i < length xs"
  shows "sum_list (xs[i := v]) = sum_list xs - xs ! i + v"
  using assms
proof (induction xs arbitrary: i)
  case Nil
  then show ?case by simp
next
  case (Cons x xs)
  then show ?case by (cases i) auto
qed

section \<open>Hash maps\<close>

text \<open>
  \<^verbatim>\<open>HashMap<K, V>\<close> as an association list with distinct keys. Iteration order is not observable
  in the modelled code: maps are only looked up, counted, and rewritten value by value.
\<close>

type_synonym ('k, 'v) hashmap = "('k \<times> 'v) list"

definition hm_get :: "('k, 'v) hashmap \<Rightarrow> 'k \<Rightarrow> 'v option" where
  "hm_get m k = map_of m k"

definition hm_insert :: "('k, 'v) hashmap \<Rightarrow> 'k \<Rightarrow> 'v \<Rightarrow> ('k, 'v) hashmap" where
  "hm_insert m k v = AList.update k v m"

definition hm_remove :: "('k, 'v) hashmap \<Rightarrow> 'k \<Rightarrow> ('k, 'v) hashmap" where
  "hm_remove m k = AList.delete k m"

definition hm_contains_key :: "('k, 'v) hashmap \<Rightarrow> 'k \<Rightarrow> bool" where
  "hm_contains_key m k = (hm_get m k \<noteq> None)"

definition hm_len :: "('k, 'v) hashmap \<Rightarrow> nat" where
  "hm_len m = length m"

definition hm_ok :: "('k, 'v) hashmap \<Rightarrow> bool" where
  "hm_ok m = distinct (map fst m)"

text \<open>
  The contract of a finite map: what a lookup returns after each update, that a well-formed map
  stays well formed, and that its length counts its keys.
\<close>

locale finite_map =
  fixes emp :: 'm
    and ins :: "'m \<Rightarrow> 'k \<Rightarrow> 'v \<Rightarrow> 'm"
    and rem :: "'m \<Rightarrow> 'k \<Rightarrow> 'm"
    and get :: "'m \<Rightarrow> 'k \<Rightarrow> 'v option"
    and len :: "'m \<Rightarrow> nat"
    and ok :: "'m \<Rightarrow> bool"
  assumes get_emp: "get emp k = None"
    and get_ins: "get (ins m k v) k' = (if k' = k then Some v else get m k')"
    and get_rem: "ok m \<Longrightarrow> get (rem m k) k' = (if k' = k then None else get m k')"
    and ok_emp: "ok emp"
    and ok_ins: "ok m \<Longrightarrow> ok (ins m k v)"
    and ok_rem: "ok m \<Longrightarrow> ok (rem m k)"
    and finite_keys: "finite {k. get m k \<noteq> None}"
    and len_card: "ok m \<Longrightarrow> len m = card {k. get m k \<noteq> None}"
begin

lemma len_ins_fresh:
  assumes "ok m" and "get m k = None"
  shows "len (ins m k v) = Suc (len m)"
proof -
  have "{k'. get (ins m k v) k' \<noteq> None} = insert k {k'. get m k' \<noteq> None}"
    by (auto simp: get_ins)
  then show ?thesis
    using assms finite_keys [of m] by (simp add: len_card ok_ins)
qed

lemma get_fold_rem:
  assumes "ok m"
  shows "ok (fold (\<lambda>k m. rem m k) ks m) \<and>
    get (fold (\<lambda>k m. rem m k) ks m) k' = (if k' \<in> set ks then None else get m k')"
  using assms by (induction ks arbitrary: m) (auto simp: ok_rem get_rem)

lemma len_eq_card_image:
  assumes "ok m" and "\<And>k. get m k \<noteq> None \<longleftrightarrow> k \<in> key ` {..<n}"
  shows "len m = card (key ` {..<n})"
proof -
  have "{k. get m k \<noteq> None} = key ` {..<n}" using assms(2) by blast
  then show ?thesis using assms(1) by (simp add: len_card)
qed

end

lemma keys_hm_get: "{k. hm_get m k \<noteq> None} = fst ` set m"
  by (simp add: hm_get_def map_of_eq_None_iff)

interpretation hm: finite_map "[]" hm_insert hm_remove hm_get hm_len hm_ok
proof (unfold_locales, goal_cases)
  case (1 k)
  show ?case by (simp add: hm_get_def)
next
  case (2 m k v k')
  show ?case by (simp add: hm_get_def hm_insert_def update_conv')
next
  case (3 m k k')
  then show ?case by (simp add: hm_get_def hm_remove_def delete_conv')
next
  case 4
  show ?case by (simp add: hm_ok_def)
next
  case (5 m k v)
  then show ?case by (simp add: hm_ok_def hm_insert_def distinct_update)
next
  case (6 m k)
  then show ?case by (simp add: hm_ok_def hm_remove_def distinct_delete)
next
  case (7 m)
  show ?case by (simp only: keys_hm_get) simp
next
  case (8 m)
  then have "card (set (map fst m)) = length (map fst m)"
    unfolding hm_ok_def by (rule distinct_card)
  then show ?case by (simp only: keys_hm_get hm_len_def set_map length_map)
qed

section \<open>Unsigned 64-bit arithmetic\<close>

definition u64_max :: u64 where
  "u64_max = 0xFFFFFFFFFFFFFFFF"

definition checked_add :: "u64 \<Rightarrow> u64 \<Rightarrow> u64 option" where
  "checked_add a b = (if uint a + uint b < 2 ^ 64 then Some (a + b) else None)"

definition checked_sub :: "u64 \<Rightarrow> u64 \<Rightarrow> u64 option" where
  "checked_sub a b = (if b \<le> a then Some (a - b) else None)"

definition checked_mul :: "u64 \<Rightarrow> u64 \<Rightarrow> u64 option" where
  "checked_mul a b = (if uint a * uint b < 2 ^ 64 then Some (a * b) else None)"

definition checked_div :: "u64 \<Rightarrow> u64 \<Rightarrow> u64 option" where
  "checked_div a b = (if b = 0 then None else Some (a div b))"

definition checked_rem :: "u64 \<Rightarrow> u64 \<Rightarrow> u64 option" where
  "checked_rem a b = (if b = 0 then None else Some (a mod b))"

definition saturating_add :: "u64 \<Rightarrow> u64 \<Rightarrow> u64" where
  "saturating_add a b = (case checked_add a b of Some c \<Rightarrow> c | None \<Rightarrow> u64_max)"

definition saturating_sub :: "u64 \<Rightarrow> u64 \<Rightarrow> u64" where
  "saturating_sub a b = (case checked_sub a b of Some c \<Rightarrow> c | None \<Rightarrow> 0)"

definition saturating_mul :: "u64 \<Rightarrow> u64 \<Rightarrow> u64" where
  "saturating_mul a b = (case checked_mul a b of Some c \<Rightarrow> c | None \<Rightarrow> u64_max)"

lemma unat_u64_less: "unat (a :: u64) < 2 ^ 64"
  using unsigned_less [of a, where 'a = nat] by simp

lemma unat_u64_max [simp]: "unat u64_max = 2 ^ 64 - 1"
  by (simp add: u64_max_def)

lemma checked_add_unat: "checked_add a b = (if unat a + unat b < 2 ^ 64 then Some (a + b) else None)"
proof -
  have "uint a + uint b < 2 ^ 64 \<longleftrightarrow> int (unat a + unat b) < int (2 ^ 64)" by simp
  then show ?thesis by (simp only: checked_add_def of_nat_less_iff)
qed

lemma checked_mul_unat: "checked_mul a b = (if unat a * unat b < 2 ^ 64 then Some (a * b) else None)"
proof -
  have "uint a * uint b < 2 ^ 64 \<longleftrightarrow> int (unat a * unat b) < int (2 ^ 64)" by simp
  then show ?thesis by (simp only: checked_mul_def of_nat_less_iff)
qed

lemma checked_add_eq_Some [word_to_int]:
  "checked_add a b = Some c \<longleftrightarrow> unat c = unat a + unat b"
proof -
  have "unat (a + b) = unat a + unat b" if "unat a + unat b < 2 ^ 64"
    using that by (simp add: unat_word_ariths)
  moreover have "unat c < 2 ^ 64" by (rule unat_u64_less)
  ultimately show ?thesis
    by (auto simp: checked_add_unat word_unat_eq_iff)
qed

lemma checked_sub_eq_Some [word_to_int]:
  "checked_sub a b = Some c \<longleftrightarrow> unat a = unat b + unat c"
proof -
  have "unat (a - b) = unat a - unat b" if "b \<le> a"
    using that by (rule unat_sub)
  then show ?thesis
    by (auto simp: checked_sub_def word_unat_eq_iff word_le_nat_alt)
qed

lemma checked_mul_eq_Some [word_to_int]:
  "checked_mul a b = Some c \<longleftrightarrow> unat c = unat a * unat b"
proof -
  have "unat (a * b) = unat a * unat b" if "unat a * unat b < 2 ^ 64"
    using that by (simp add: unat_word_ariths)
  moreover have "unat c < 2 ^ 64" by (rule unat_u64_less)
  ultimately show ?thesis
    by (auto simp: checked_mul_unat word_unat_eq_iff)
qed

lemma checked_div_eq_Some [word_to_int]:
  "checked_div a b = Some c \<longleftrightarrow> b \<noteq> 0 \<and> unat c = unat a div unat b"
  by (auto simp: checked_div_def word_unat_eq_iff unat_div_distrib)

lemma checked_add_eq_None: "checked_add a b = None \<longleftrightarrow> 2 ^ 64 \<le> unat a + unat b"
  by (simp only: checked_add_unat split: if_splits) auto

lemma checked_mul_eq_None: "checked_mul a b = None \<longleftrightarrow> 2 ^ 64 \<le> unat a * unat b"
  by (simp only: checked_mul_unat split: if_splits) auto

lemma unat_saturating_add [word_to_int]:
  "unat (saturating_add a b) = min (unat a + unat b) (2 ^ 64 - 1)"
proof (cases "checked_add a b")
  case None
  then have "2 ^ 64 - 1 \<le> unat a + unat b" by (simp add: checked_add_eq_None)
  with None show ?thesis by (simp add: saturating_add_def)
next
  case (Some c)
  then have "unat c = unat a + unat b" by (simp only: checked_add_eq_Some)
  moreover have "unat c \<le> 2 ^ 64 - 1" using unat_u64_less [of c] by linarith
  ultimately show ?thesis using Some by (simp add: saturating_add_def)
qed

lemma unat_saturating_sub [word_to_int]:
  "unat (saturating_sub a b) = unat a - unat b"
proof (cases "b \<le> a")
  case True
  then show ?thesis by (simp add: saturating_sub_def checked_sub_def unat_sub)
next
  case False
  then show ?thesis by (simp add: saturating_sub_def checked_sub_def word_le_nat_alt)
qed

lemma unat_saturating_mul [word_to_int]:
  "unat (saturating_mul a b) = min (unat a * unat b) (2 ^ 64 - 1)"
proof (cases "checked_mul a b")
  case None
  then have "2 ^ 64 - 1 \<le> unat a * unat b" by (simp add: checked_mul_eq_None)
  with None show ?thesis by (simp add: saturating_mul_def)
next
  case (Some c)
  then have "unat c = unat a * unat b" by (simp only: checked_mul_eq_Some)
  moreover have "unat c \<le> 2 ^ 64 - 1" using unat_u64_less [of c] by linarith
  ultimately show ?thesis using Some by (simp add: saturating_mul_def)
qed

section \<open>Signed 64-bit arithmetic\<close>

definition in_i64 :: "int \<Rightarrow> bool" where
  "in_i64 r \<longleftrightarrow> - (2 ^ 63) \<le> r \<and> r < 2 ^ 63"

definition checked_add_i64 :: "i64 \<Rightarrow> i64 \<Rightarrow> i64 option" where
  "checked_add_i64 a b = (if in_i64 (sint a + sint b) then Some (a + b) else None)"

definition checked_sub_i64 :: "i64 \<Rightarrow> i64 \<Rightarrow> i64 option" where
  "checked_sub_i64 a b = (if in_i64 (sint a - sint b) then Some (a - b) else None)"

definition unsigned_abs :: "i64 \<Rightarrow> u64" where
  "unsigned_abs a = (if sint a < 0 then - a else a)"

lemma in_i64_sint: "in_i64 (sint (a :: i64))"
  using sint_lt [of a] sint_ge [of a] by (simp add: in_i64_def)

lemma sint_of_int_i64 [word_to_int]: "in_i64 r \<Longrightarrow> sint (word_of_int r :: i64) = r"
  by (simp add: in_i64_def sint_sbintrunc' signed_take_bit_int_eq_self)

lemma word_eq_of_int_iff: "(w :: i64) = word_of_int r \<Longrightarrow> in_i64 r \<Longrightarrow> sint w = r"
  by (simp add: sint_of_int_i64)

lemma checked_sub_i64_of_int:
  assumes "in_i64 a" and "in_i64 b" and "in_i64 (a - b)"
  shows "checked_sub_i64 (word_of_int a) (word_of_int b) = Some (word_of_int (a - b))"
  using assms by (simp add: checked_sub_i64_def sint_of_int_i64)

lemma checked_add_i64_of_int:
  assumes "in_i64 a" and "in_i64 b" and "in_i64 (a + b)"
  shows "checked_add_i64 (word_of_int a) (word_of_int b) = Some (word_of_int (a + b))"
  using assms by (simp add: checked_add_i64_def sint_of_int_i64)

lemma of_int_uint_u64: "word_of_int (uint (w :: u64)) = w"
  by simp

lemma checked_add_of_int:
  assumes "0 \<le> d" and "uint w + d < 2 ^ 64"
  shows "checked_add w (word_of_int d) = Some (word_of_int (uint w + d))"
proof -
  have "d < 2 ^ 64" using assms uint_ge_0 [of w] by linarith
  then have d: "uint (word_of_int d :: u64) = d"
    using assms by (intro uint_word_of_int_eq [THEN trans] take_bit_int_eq_self) auto
  have "int (unat w + unat (word_of_int d :: u64)) < 2 ^ 64"
    using assms d by (simp add: uint_nat [symmetric])
  then have "unat w + unat (word_of_int d :: u64) < 2 ^ 64"
    by (simp only: of_nat_less_iff [where 'a = int, symmetric] of_nat_power of_nat_numeral)
  then show ?thesis
    by (simp add: checked_add_unat)
qed

lemma checked_sub_of_int:
  assumes "0 \<le> d" and "d \<le> uint w"
  shows "checked_sub w (word_of_int d) = Some (word_of_int (uint w - d))"
proof -
  have "d < 2 ^ 64" using assms uint_lt2p [of w] by simp
  then have d: "uint (word_of_int d :: u64) = d"
    using assms by (intro uint_word_of_int_eq [THEN trans] take_bit_int_eq_self) auto
  then have "word_of_int d \<le> w" using assms by (simp add: word_le_def)
  then show ?thesis by (simp add: checked_sub_def)
qed

end
