(* ===== verification/Core_Types.thy ===== *)
theory Core_Types
  imports Consensus_Prelude
begin

text \<open>
  The primitives of \<^verbatim>\<open>consensus/types\<close> that fork choice and the state transition share: the
  three \<^verbatim>\<open>EthSpec\<close> presets, slots and epochs with their saturating and checked arithmetic
  (\<^verbatim>\<open>slot_epoch.rs\<close>, \<^verbatim>\<open>slot_epoch_macros.rs\<close>), relative epochs, checkpoints and shuffling
  identifiers, and the fork schedule (\<^verbatim>\<open>fork_name.rs\<close> and the schedule functions of
  \<^verbatim>\<open>chain_spec.rs\<close>). A Rust newtype over \<^verbatim>\<open>u64\<close> is a type synonym here.
\<close>

type_synonym slot = u64
type_synonym epoch = u64
type_synonym exec_block_hash = hash256
type_synonym builder_index = u64

section \<open>Presets\<close>

datatype eth_spec = MainnetEthSpec | MinimalEthSpec | GnosisEthSpec

fun slots_per_epoch :: "eth_spec \<Rightarrow> u64" where
  "slots_per_epoch MainnetEthSpec = 32"
| "slots_per_epoch MinimalEthSpec = 8"
| "slots_per_epoch GnosisEthSpec = 16"

lemma slots_per_epoch_cases:
  "slots_per_epoch E = 32 \<or> slots_per_epoch E = 8 \<or> slots_per_epoch E = 16"
  by (cases E) auto

lemma slots_per_epoch_pos [simp]: "0 < unat (slots_per_epoch E)"
  by (cases E) auto

lemma slots_per_epoch_nonzero [simp]: "slots_per_epoch E \<noteq> 0"
  by (cases E) auto

section \<open>Checked arithmetic on slots and epochs\<close>

datatype arith_error = Overflow | DivisionByZero

text \<open>
  The checked operations on \<^verbatim>\<open>u64\<close> come from the crate \<^verbatim>\<open>safe_arith\<close>, which is not part of the
  repository: they are parameters of the definitions that call them. What the code relies on is
  their documented behaviour, \<open>safe_arith_laws\<close>: the result of the operation, or an error when it
  does not fit or divides by zero.
\<close>

record safe_arith =
  sa_add :: "u64 \<Rightarrow> u64 \<Rightarrow> arith_error + u64"
  sa_sub :: "u64 \<Rightarrow> u64 \<Rightarrow> arith_error + u64"
  sa_mul :: "u64 \<Rightarrow> u64 \<Rightarrow> arith_error + u64"
  sa_div :: "u64 \<Rightarrow> u64 \<Rightarrow> arith_error + u64"
  sa_rem :: "u64 \<Rightarrow> u64 \<Rightarrow> arith_error + u64"

definition safe_arith_laws :: "safe_arith \<Rightarrow> bool" where
  "safe_arith_laws A \<longleftrightarrow>
     (\<forall>a b. sa_add A a b = ok_or (checked_add a b) Overflow)
     \<and> (\<forall>a b. sa_sub A a b = ok_or (checked_sub a b) Overflow)
     \<and> (\<forall>a b. sa_mul A a b = ok_or (checked_mul a b) Overflow)
     \<and> (\<forall>a b. sa_div A a b = ok_or (checked_div a b) DivisionByZero)
     \<and> (\<forall>a b. sa_rem A a b = ok_or (checked_rem a b) DivisionByZero)"

text \<open>An instance that satisfies the laws.\<close>

definition checked_arith :: safe_arith where
  "checked_arith = \<lparr>
     sa_add = (\<lambda>a b. ok_or (checked_add a b) Overflow),
     sa_sub = (\<lambda>a b. ok_or (checked_sub a b) Overflow),
     sa_mul = (\<lambda>a b. ok_or (checked_mul a b) Overflow),
     sa_div = (\<lambda>a b. ok_or (checked_div a b) DivisionByZero),
     sa_rem = (\<lambda>a b. ok_or (checked_rem a b) DivisionByZero)\<rparr>"

lemma checked_arith_laws [simp]: "safe_arith_laws checked_arith"
  by (simp add: safe_arith_laws_def checked_arith_def)

lemma safe_arith_eqs [result_simps]:
  assumes "safe_arith_laws A"
  shows "sa_add A a b = ok_or (checked_add a b) Overflow"
    "sa_sub A a b = ok_or (checked_sub a b) Overflow"
    "sa_mul A a b = ok_or (checked_mul a b) Overflow"
    "sa_div A a b = ok_or (checked_div a b) DivisionByZero"
    "sa_rem A a b = ok_or (checked_rem a b) DivisionByZero"
  using assms by (simp_all add: safe_arith_laws_def)

text \<open>The same operations on \<^verbatim>\<open>Slot\<close> and \<^verbatim>\<open>Epoch\<close>, which the repository implements itself.\<close>

definition safe_add :: "u64 \<Rightarrow> u64 \<Rightarrow> arith_error + u64" where
  "safe_add a b = ok_or (checked_add a b) Overflow"

definition safe_sub :: "u64 \<Rightarrow> u64 \<Rightarrow> arith_error + u64" where
  "safe_sub a b = ok_or (checked_sub a b) Overflow"

definition safe_mul :: "u64 \<Rightarrow> u64 \<Rightarrow> arith_error + u64" where
  "safe_mul a b = ok_or (checked_mul a b) Overflow"

definition safe_div :: "u64 \<Rightarrow> u64 \<Rightarrow> arith_error + u64" where
  "safe_div a b = ok_or (checked_div a b) DivisionByZero"

definition safe_rem :: "u64 \<Rightarrow> u64 \<Rightarrow> arith_error + u64" where
  "safe_rem a b = ok_or (checked_rem a b) DivisionByZero"

section \<open>Slots and epochs\<close>

text \<open>
  \<^verbatim>\<open>Slot::epoch\<close> divides and panics on a zero divisor. Its argument is always the preset's
  constant, which is positive, so the division below is the whole function.
\<close>

definition slot_epoch :: "eth_spec \<Rightarrow> slot \<Rightarrow> epoch" where
  "slot_epoch E s = s div slots_per_epoch E"

definition start_slot :: "eth_spec \<Rightarrow> epoch \<Rightarrow> slot" where
  "start_slot E e = saturating_mul e (slots_per_epoch E)"

definition end_slot :: "eth_spec \<Rightarrow> epoch \<Rightarrow> slot" where
  "end_slot E e = saturating_add (saturating_mul e (slots_per_epoch E))
     (saturating_sub (slots_per_epoch E) 1)"

definition epoch_position :: "eth_spec \<Rightarrow> epoch \<Rightarrow> slot \<Rightarrow> usize option" where
  "epoch_position E e s =
     (let start = start_slot E e; stop = end_slot E e
      in if start \<le> s \<and> s \<le> stop
         then (if unat start \<le> unat s then Some (unat s - unat start) else None)
         else None)"

definition range_inclusive_rev :: "epoch \<Rightarrow> epoch \<Rightarrow> epoch list" where
  "range_inclusive_rev start stop = rev (map of_nat [unat stop ..< Suc (unat start)])"

text \<open>The iterator \<^verbatim>\<open>SlotIter\<close>: its state is the iteration counter.\<close>

definition slot_iter_next :: "eth_spec \<Rightarrow> epoch \<Rightarrow> u64 \<Rightarrow> u64 \<times> slot option" where
  "slot_iter_next E e current =
     (if slots_per_epoch E \<le> current then (current, None)
      else case checked_add current 1 of
             None \<Rightarrow> (current, None)
           | Some next \<Rightarrow>
               (next, (case safe_add (start_slot E e) current of Inr s \<Rightarrow> Some s | Inl _ \<Rightarrow> None)))"

fun slot_iter_take :: "nat \<Rightarrow> eth_spec \<Rightarrow> epoch \<Rightarrow> u64 \<Rightarrow> slot list" where
  "slot_iter_take 0 E e current = []"
| "slot_iter_take (Suc n) E e current =
     (case slot_iter_next E e current of
        (next, Some s) \<Rightarrow> s # slot_iter_take n E e next
      | (next, None) \<Rightarrow> [])"

definition slot_iter :: "eth_spec \<Rightarrow> epoch \<Rightarrow> slot list" where
  "slot_iter E e = slot_iter_take (Suc (unat (slots_per_epoch E))) E e 0"

section \<open>Relative epochs\<close>

datatype relative_epoch = Previous | Current | Next

datatype relative_epoch_error =
    EpochTooLow epoch epoch
  | EpochTooHigh epoch epoch
  | RelativeArithError arith_error

fun into_epoch :: "relative_epoch \<Rightarrow> epoch \<Rightarrow> epoch" where
  "into_epoch Current base = base"
| "into_epoch Previous base = saturating_sub base 1"
| "into_epoch Next base = saturating_add base 1"

definition from_epoch :: "epoch \<Rightarrow> epoch \<Rightarrow> relative_epoch_error + relative_epoch" where
  "from_epoch base other =
     (if other = base then Inr Current
      else bind_r (map_err RelativeArithError (safe_add other 1)) (\<lambda>other1.
        if other1 = base then Inr Previous
        else bind_r (map_err RelativeArithError (safe_add base 1)) (\<lambda>base1.
          if other = base1 then Inr Next
          else if other < base then Inl (EpochTooLow base other)
          else Inl (EpochTooHigh base other))))"

definition relative_from_slot ::
    "eth_spec \<Rightarrow> slot \<Rightarrow> slot \<Rightarrow> relative_epoch_error + relative_epoch" where
  "relative_from_slot E base other = from_epoch (slot_epoch E base) (slot_epoch E other)"

section \<open>Checkpoints and shuffling identifiers\<close>

record checkpoint =
  cp_epoch :: epoch
  cp_root :: hash256

record attestation_shuffling_id =
  shuffling_epoch :: epoch
  shuffling_decision_block :: hash256

section \<open>The fork schedule\<close>

datatype fork_name =
  Base | Altair | Bellatrix | Capella | Deneb | Electra | Fulu | Gloas | Heze

fun fork_ordinal :: "fork_name \<Rightarrow> nat" where
  "fork_ordinal Base = 0"
| "fork_ordinal Altair = 1"
| "fork_ordinal Bellatrix = 2"
| "fork_ordinal Capella = 3"
| "fork_ordinal Deneb = 4"
| "fork_ordinal Electra = 5"
| "fork_ordinal Fulu = 6"
| "fork_ordinal Gloas = 7"
| "fork_ordinal Heze = 8"

lemma fork_ordinal_inj: "fork_ordinal f = fork_ordinal g \<Longrightarrow> f = g"
  by (cases f; cases g) auto

text \<open>The derived \<^verbatim>\<open>PartialOrd, Ord\<close> compare the position of the variants.\<close>

instantiation fork_name :: linorder
begin

definition less_eq_fork_name :: "fork_name \<Rightarrow> fork_name \<Rightarrow> bool" where
  "less_eq_fork_name f g \<longleftrightarrow> fork_ordinal f \<le> fork_ordinal g"

definition less_fork_name :: "fork_name \<Rightarrow> fork_name \<Rightarrow> bool" where
  "less_fork_name f g \<longleftrightarrow> fork_ordinal f < fork_ordinal g"

instance
  by standard (auto simp: less_eq_fork_name_def less_fork_name_def dest: fork_ordinal_inj)

end

lemmas fork_order_simps = less_eq_fork_name_def less_fork_name_def

definition fork_list_all :: "fork_name list" where
  "fork_list_all = [Base, Altair, Bellatrix, Capella, Deneb, Electra, Fulu, Gloas, Heze]"

fun previous_fork :: "fork_name \<Rightarrow> fork_name option" where
  "previous_fork Base = None"
| "previous_fork Altair = Some Base"
| "previous_fork Bellatrix = Some Altair"
| "previous_fork Capella = Some Bellatrix"
| "previous_fork Deneb = Some Capella"
| "previous_fork Electra = Some Deneb"
| "previous_fork Fulu = Some Electra"
| "previous_fork Gloas = Some Fulu"
| "previous_fork Heze = Some Gloas"

fun next_fork :: "fork_name \<Rightarrow> fork_name option" where
  "next_fork Base = Some Altair"
| "next_fork Altair = Some Bellatrix"
| "next_fork Bellatrix = Some Capella"
| "next_fork Capella = Some Deneb"
| "next_fork Deneb = Some Electra"
| "next_fork Electra = Some Fulu"
| "next_fork Fulu = Some Gloas"
| "next_fork Gloas = Some Heze"
| "next_fork Heze = None"

definition fulu_enabled :: "fork_name \<Rightarrow> bool" where
  "fulu_enabled f \<longleftrightarrow> Fulu \<le> f"

definition gloas_enabled :: "fork_name \<Rightarrow> bool" where
  "gloas_enabled f \<longleftrightarrow> Gloas \<le> f"

text \<open>
  The part of \<^verbatim>\<open>ChainSpec\<close> that the modelled code reads: the fork epochs and the fork choice
  parameters.
\<close>

record chain_spec =
  altair_fork_epoch :: "epoch option"
  bellatrix_fork_epoch :: "epoch option"
  capella_fork_epoch :: "epoch option"
  deneb_fork_epoch :: "epoch option"
  electra_fork_epoch :: "epoch option"
  fulu_fork_epoch :: "epoch option"
  gloas_fork_epoch :: "epoch option"
  heze_fork_epoch :: "epoch option"
  proposer_score_boost :: "u64 option"
  reorg_head_weight_threshold :: "u64 option"
  ptc_size :: u64

text \<open>The \<^verbatim>\<open>for\<close> loop with an early return in \<^verbatim>\<open>fork_name_at_epoch\<close>.\<close>

fun first_active_fork :: "(epoch option \<times> fork_name) list \<Rightarrow> epoch \<Rightarrow> fork_name" where
  "first_active_fork [] e = Base"
| "first_active_fork ((fe, name) # forks) e =
     (case fe of
        Some f \<Rightarrow> if f \<le> e then name else first_active_fork forks e
      | None \<Rightarrow> first_active_fork forks e)"

definition fork_name_at_epoch :: "chain_spec \<Rightarrow> epoch \<Rightarrow> fork_name" where
  "fork_name_at_epoch spec e =
     first_active_fork
       [(heze_fork_epoch spec, Heze), (gloas_fork_epoch spec, Gloas),
        (fulu_fork_epoch spec, Fulu), (electra_fork_epoch spec, Electra),
        (deneb_fork_epoch spec, Deneb), (capella_fork_epoch spec, Capella),
        (bellatrix_fork_epoch spec, Bellatrix), (altair_fork_epoch spec, Altair)] e"

definition fork_name_at_slot :: "eth_spec \<Rightarrow> chain_spec \<Rightarrow> slot \<Rightarrow> fork_name" where
  "fork_name_at_slot E spec s = fork_name_at_epoch spec (slot_epoch E s)"

fun fork_epoch :: "chain_spec \<Rightarrow> fork_name \<Rightarrow> epoch option" where
  "fork_epoch spec Base = Some 0"
| "fork_epoch spec Altair = altair_fork_epoch spec"
| "fork_epoch spec Bellatrix = bellatrix_fork_epoch spec"
| "fork_epoch spec Capella = capella_fork_epoch spec"
| "fork_epoch spec Deneb = deneb_fork_epoch spec"
| "fork_epoch spec Electra = electra_fork_epoch spec"
| "fork_epoch spec Fulu = fulu_fork_epoch spec"
| "fork_epoch spec Gloas = gloas_fork_epoch spec"
| "fork_epoch spec Heze = heze_fork_epoch spec"

definition list_all_fork_epochs :: "chain_spec \<Rightarrow> (fork_name \<times> epoch option) list" where
  "list_all_fork_epochs spec = map (\<lambda>f. (f, fork_epoch spec f)) fork_list_all"

fun make_genesis_spec :: "fork_name \<Rightarrow> chain_spec \<Rightarrow> chain_spec" where
  "make_genesis_spec Base spec = spec\<lparr>
     altair_fork_epoch := None, bellatrix_fork_epoch := None, capella_fork_epoch := None,
     deneb_fork_epoch := None, electra_fork_epoch := None, fulu_fork_epoch := None,
     gloas_fork_epoch := None, heze_fork_epoch := None\<rparr>"
| "make_genesis_spec Altair spec = spec\<lparr>
     altair_fork_epoch := Some 0, bellatrix_fork_epoch := None, capella_fork_epoch := None,
     deneb_fork_epoch := None, electra_fork_epoch := None, fulu_fork_epoch := None,
     gloas_fork_epoch := None, heze_fork_epoch := None\<rparr>"
| "make_genesis_spec Bellatrix spec = spec\<lparr>
     altair_fork_epoch := Some 0, bellatrix_fork_epoch := Some 0, capella_fork_epoch := None,
     deneb_fork_epoch := None, electra_fork_epoch := None, fulu_fork_epoch := None,
     gloas_fork_epoch := None, heze_fork_epoch := None\<rparr>"
| "make_genesis_spec Capella spec = spec\<lparr>
     altair_fork_epoch := Some 0, bellatrix_fork_epoch := Some 0, capella_fork_epoch := Some 0,
     deneb_fork_epoch := None, electra_fork_epoch := None, fulu_fork_epoch := None,
     gloas_fork_epoch := None, heze_fork_epoch := None\<rparr>"
| "make_genesis_spec Deneb spec = spec\<lparr>
     altair_fork_epoch := Some 0, bellatrix_fork_epoch := Some 0, capella_fork_epoch := Some 0,
     deneb_fork_epoch := Some 0, electra_fork_epoch := None, fulu_fork_epoch := None,
     gloas_fork_epoch := None, heze_fork_epoch := None\<rparr>"
| "make_genesis_spec Electra spec = spec\<lparr>
     altair_fork_epoch := Some 0, bellatrix_fork_epoch := Some 0, capella_fork_epoch := Some 0,
     deneb_fork_epoch := Some 0, electra_fork_epoch := Some 0, fulu_fork_epoch := None,
     gloas_fork_epoch := None, heze_fork_epoch := None\<rparr>"
| "make_genesis_spec Fulu spec = spec\<lparr>
     altair_fork_epoch := Some 0, bellatrix_fork_epoch := Some 0, capella_fork_epoch := Some 0,
     deneb_fork_epoch := Some 0, electra_fork_epoch := Some 0, fulu_fork_epoch := Some 0,
     gloas_fork_epoch := None, heze_fork_epoch := None\<rparr>"
| "make_genesis_spec Gloas spec = spec\<lparr>
     altair_fork_epoch := Some 0, bellatrix_fork_epoch := Some 0, capella_fork_epoch := Some 0,
     deneb_fork_epoch := Some 0, electra_fork_epoch := Some 0, fulu_fork_epoch := Some 0,
     gloas_fork_epoch := Some 0, heze_fork_epoch := None\<rparr>"
| "make_genesis_spec Heze spec = spec\<lparr>
     altair_fork_epoch := Some 0, bellatrix_fork_epoch := Some 0, capella_fork_epoch := Some 0,
     deneb_fork_epoch := Some 0, electra_fork_epoch := Some 0, fulu_fork_epoch := Some 0,
     gloas_fork_epoch := Some 0, heze_fork_epoch := Some 0\<rparr>"

end
