(* ===== verification/Justification.thy ===== *)
theory Justification
  imports Core_Types
begin

text \<open>
  Justification and finalization at the end of an epoch:
  \<^verbatim>\<open>weigh_justification_and_finalization.rs\<close>, \<^verbatim>\<open>justification_and_finalization_state.rs\<close> and
  \<^verbatim>\<open>altair/justification_and_finalization.rs\<close> of \<^verbatim>\<open>consensus/state_processing\<close>, with the accessors of
  \<^verbatim>\<open>types/src/beacon_state.rs\<close> they use. Of the beacon state the fields that this code reads and writes
  are modelled; the balances come from caches that other parts fill, so they are fields here.

  The bit vector is the type \<^verbatim>\<open>BitVector\<close> of an external crate: its operations are a parameter, what the
  code relies on is \<open>bit_vector_laws\<close>.
\<close>

section \<open>Bit vectors\<close>

record ('b, 'be) bit_vector =
  bv_shift_up :: "'b \<Rightarrow> nat \<Rightarrow> 'be + 'b"
  bv_set :: "'b \<Rightarrow> nat \<Rightarrow> bool \<Rightarrow> 'be + 'b"
  bv_get :: "'b \<Rightarrow> nat \<Rightarrow> 'be + bool"

text \<open>For vectors of length \<open>n\<close>: reading, writing and shifting by one succeed below the length; a write changes the
  one bit, a shift moves every bit up by one and clears the lowest.\<close>

definition bit_vector_laws :: "('b, 'be) bit_vector \<Rightarrow> nat \<Rightarrow> bool" where
  "bit_vector_laws B n \<longleftrightarrow>
     (\<forall>b i. i < n \<longrightarrow> (\<exists>v. bv_get B b i = Inr v))
     \<and> (\<forall>b i v. i < n \<longrightarrow> (\<exists>b'. bv_set B b i v = Inr b'
           \<and> (\<forall>j < n. bv_get B b' j = (if j = i then Inr v else bv_get B b j))))
     \<and> (\<forall>b. \<exists>b'. bv_shift_up B b 1 = Inr b' \<and> bv_get B b' 0 = Inr False
           \<and> (\<forall>j. Suc j < n \<longrightarrow> bv_get B b' (Suc j) = bv_get B b j))"

section \<open>The beacon state\<close>

datatype beacon_state_error =
    SlotOutOfBounds
  | BlockRootsOutOfBounds usize
  | BeaconStateArithError arith_error
  | ProgressiveBalancesCacheNotInitialized
  | TotalActiveBalanceCacheUninitialized

datatype 'be epoch_processing_error =
    BeaconStateError beacon_state_error
  | BitfieldError 'be
  | EpochArithError arith_error
  | InvalidJustificationBit 'be

record 'b beacon_state =
  bs_slot :: slot
  bs_block_roots :: "hash256 list"
  bs_previous_justified_checkpoint :: checkpoint
  bs_current_justified_checkpoint :: checkpoint
  bs_finalized_checkpoint :: checkpoint
  bs_justification_bits :: 'b
  bs_previous_epoch_target_attesting_balance :: "beacon_state_error + u64"
  bs_current_epoch_target_attesting_balance :: "beacon_state_error + u64"
  bs_total_active_balance :: "beacon_state_error + u64"

definition current_epoch :: "eth_spec \<Rightarrow> 'b beacon_state \<Rightarrow> epoch" where
  "current_epoch E state = slot_epoch E (bs_slot state)"

definition previous_epoch :: "eth_spec \<Rightarrow> 'b beacon_state \<Rightarrow> epoch" where
  "previous_epoch E state =
     (case safe_sub (current_epoch E state) 1 of
        Inr prev_epoch \<Rightarrow> prev_epoch
      | Inl _ \<Rightarrow> current_epoch E state)"

definition next_epoch :: "eth_spec \<Rightarrow> 'b beacon_state \<Rightarrow> beacon_state_error + epoch" where
  "next_epoch E state = map_err BeaconStateArithError (safe_add (current_epoch E state) 1)"

definition get_latest_block_roots_index :: "safe_arith \<Rightarrow> 'b beacon_state \<Rightarrow> slot \<Rightarrow> beacon_state_error + usize" where
  "get_latest_block_roots_index A state slot =
     (if slot < bs_slot state
      then bind_r (map_err BeaconStateArithError (safe_add slot (of_nat (length (bs_block_roots state))))) (\<lambda>limit.
             if bs_slot state \<le> limit
             then bind_r (map_err BeaconStateArithError (sa_rem A slot (of_nat (length (bs_block_roots state)))))
                    (\<lambda>i. Inr (unat i))
             else Inl SlotOutOfBounds)
      else Inl SlotOutOfBounds)"

definition get_block_root :: "safe_arith \<Rightarrow> 'b beacon_state \<Rightarrow> slot \<Rightarrow> beacon_state_error + hash256" where
  "get_block_root A state slot =
     bind_r (get_latest_block_roots_index A state slot) (\<lambda>i.
     ok_or (nth_opt (bs_block_roots state) i) (BlockRootsOutOfBounds i))"

definition get_block_root_at_epoch :: "safe_arith \<Rightarrow> eth_spec \<Rightarrow> 'b beacon_state \<Rightarrow> epoch \<Rightarrow> beacon_state_error + hash256" where
  "get_block_root_at_epoch A E state epoch = get_block_root A state (start_slot E epoch)"

definition set_block_root :: "safe_arith \<Rightarrow> 'b beacon_state \<Rightarrow> slot \<Rightarrow> hash256 \<Rightarrow> beacon_state_error + 'b beacon_state" where
  "set_block_root A state slot block_root =
     bind_r (get_latest_block_roots_index A state slot) (\<lambda>i.
     if i < length (bs_block_roots state)
     then Inr (state\<lparr>bs_block_roots := (bs_block_roots state)[i := block_root]\<rparr>)
     else Inl (BlockRootsOutOfBounds i))"

section \<open>JustificationAndFinalizationState\<close>

record 'b jf_state =
  jf_previous_epoch :: epoch
  jf_previous_epoch_target_root :: "beacon_state_error + hash256"
  jf_current_epoch :: epoch
  jf_current_epoch_target_root :: "beacon_state_error + hash256"
  jf_previous_justified_checkpoint :: checkpoint
  jf_current_justified_checkpoint :: checkpoint
  jf_finalized_checkpoint :: checkpoint
  jf_justification_bits :: 'b

definition jf_new :: "safe_arith \<Rightarrow> eth_spec \<Rightarrow> 'b beacon_state \<Rightarrow> 'b jf_state" where
  "jf_new A E state = \<lparr>
     jf_previous_epoch = previous_epoch E state,
     jf_previous_epoch_target_root = get_block_root_at_epoch A E state (previous_epoch E state),
     jf_current_epoch = current_epoch E state,
     jf_current_epoch_target_root = get_block_root_at_epoch A E state (current_epoch E state),
     jf_previous_justified_checkpoint = bs_previous_justified_checkpoint state,
     jf_current_justified_checkpoint = bs_current_justified_checkpoint state,
     jf_finalized_checkpoint = bs_finalized_checkpoint state,
     jf_justification_bits = bs_justification_bits state\<rparr>"

definition apply_changes_to_state :: "'b jf_state \<Rightarrow> 'b beacon_state \<Rightarrow> 'b beacon_state" where
  "apply_changes_to_state jf state = state\<lparr>
     bs_previous_justified_checkpoint := jf_previous_justified_checkpoint jf,
     bs_current_justified_checkpoint := jf_current_justified_checkpoint jf,
     bs_finalized_checkpoint := jf_finalized_checkpoint jf,
     bs_justification_bits := jf_justification_bits jf\<rparr>"

definition jf_get_block_root_at_epoch :: "'b jf_state \<Rightarrow> epoch \<Rightarrow> beacon_state_error + hash256" where
  "jf_get_block_root_at_epoch jf epoch =
     (if epoch = jf_previous_epoch jf then jf_previous_epoch_target_root jf
      else if epoch = jf_current_epoch jf then jf_current_epoch_target_root jf
      else Inl SlotOutOfBounds)"

section \<open>Weighing\<close>

fun all_bits_set :: "('b, 'be) bit_vector \<Rightarrow> 'b \<Rightarrow> nat list \<Rightarrow> 'be epoch_processing_error + bool" where
  "all_bits_set B bits [] = Inr True"
| "all_bits_set B bits (i # is) =
     bind_r (map_err InvalidJustificationBit (bv_get B bits i)) (\<lambda>v.
     if \<not> v then Inr False else all_bits_set B bits is)"

text \<open>One justification: when the target balance reaches two thirds, the checkpoint of \<open>epoch\<close> becomes the
  current justified one and its bit is set.\<close>

definition justify :: "safe_arith \<Rightarrow> ('b, 'be) bit_vector \<Rightarrow> u64 \<Rightarrow> u64 \<Rightarrow> epoch \<Rightarrow> nat \<Rightarrow> 'b jf_state
    \<Rightarrow> 'be epoch_processing_error + 'b jf_state" where
  "justify A B target_balance total_active_balance epoch i state =
     bind_r (map_err EpochArithError (sa_mul A target_balance 3)) (\<lambda>lhs.
     bind_r (map_err EpochArithError (sa_mul A total_active_balance 2)) (\<lambda>rhs.
     if rhs \<le> lhs then
       bind_r (map_err BeaconStateError (jf_get_block_root_at_epoch state epoch)) (\<lambda>root.
       bind_r (map_err BitfieldError (bv_set B (jf_justification_bits state) i True)) (\<lambda>bits.
       Inr (state\<lparr>jf_current_justified_checkpoint := \<lparr>cp_epoch = epoch, cp_root = root\<rparr>,
                  jf_justification_bits := bits\<rparr>)))
     else Inr state))"

text \<open>One finalization rule: when the bits are set and \<open>old\<close> is the given number of epochs back, it becomes final.
  The epoch is only compared when the bits are set.\<close>

definition finalize_if :: "('b, 'be) bit_vector \<Rightarrow> 'b \<Rightarrow> nat list \<Rightarrow> checkpoint \<Rightarrow> u64 \<Rightarrow> epoch \<Rightarrow> 'b jf_state
    \<Rightarrow> 'be epoch_processing_error + 'b jf_state" where
  "finalize_if B bits idxs old distance cur_epoch state =
     bind_r (all_bits_set B bits idxs) (\<lambda>all.
     if all then
       bind_r (map_err EpochArithError (safe_add (cp_epoch old) distance)) (\<lambda>e.
       Inr (if e = cur_epoch then state\<lparr>jf_finalized_checkpoint := old\<rparr> else state))
     else Inr state)"

definition weigh_justification_and_finalization ::
    "safe_arith \<Rightarrow> ('b, 'be) bit_vector \<Rightarrow> 'b jf_state \<Rightarrow> u64 \<Rightarrow> u64 \<Rightarrow> u64
     \<Rightarrow> 'be epoch_processing_error + 'b jf_state" where
  "weigh_justification_and_finalization A B state total_active_balance previous_target_balance
       current_target_balance =
     (let prev_epoch = jf_previous_epoch state;
          cur_epoch = jf_current_epoch state;
          old_previous = jf_previous_justified_checkpoint state;
          old_current = jf_current_justified_checkpoint state
      in bind_r (map_err BitfieldError (bv_shift_up B (jf_justification_bits state) 1)) (\<lambda>shifted.
         bind_r (justify A B previous_target_balance total_active_balance prev_epoch 1
           (state\<lparr>jf_previous_justified_checkpoint := old_current, jf_justification_bits := shifted\<rparr>)) (\<lambda>s1.
         bind_r (justify A B current_target_balance total_active_balance cur_epoch 0 s1) (\<lambda>s2.
         let bits = jf_justification_bits s2
         in bind_r (finalize_if B bits [1 ..< 4] old_previous 3 cur_epoch s2) (\<lambda>s3.
            bind_r (finalize_if B bits [1 ..< 3] old_previous 2 cur_epoch s3) (\<lambda>s4.
            bind_r (finalize_if B bits [0 ..< 3] old_current 2 cur_epoch s4) (\<lambda>s5.
            finalize_if B bits [0 ..< 2] old_current 1 cur_epoch s5)))))))"

definition genesis_epoch :: epoch where
  "genesis_epoch = 0"

definition process_justification_and_finalization ::
    "safe_arith \<Rightarrow> ('b, 'be) bit_vector \<Rightarrow> eth_spec \<Rightarrow> 'b beacon_state
     \<Rightarrow> 'be epoch_processing_error + 'b jf_state" where
  "process_justification_and_finalization A B E state =
     (let jf = jf_new A E state
      in bind_r (map_err EpochArithError (safe_add genesis_epoch 1)) (\<lambda>first.
         if current_epoch E state \<le> first then Inr jf
         else
           bind_r (map_err BeaconStateError (bs_previous_epoch_target_attesting_balance state)) (\<lambda>previous_target_balance.
           bind_r (map_err BeaconStateError (bs_current_epoch_target_attesting_balance state)) (\<lambda>current_target_balance.
           bind_r (map_err BeaconStateError (bs_total_active_balance state)) (\<lambda>total_active_balance.
           weigh_justification_and_finalization A B jf total_active_balance previous_target_balance
             current_target_balance)))))"

text \<open>The first step of \<^verbatim>\<open>process_epoch\<close>\<close>

definition process_epoch_justification ::
    "safe_arith \<Rightarrow> ('b, 'be) bit_vector \<Rightarrow> eth_spec \<Rightarrow> 'b beacon_state
     \<Rightarrow> 'be epoch_processing_error + 'b beacon_state" where
  "process_epoch_justification A B E state =
     bind_r (process_justification_and_finalization A B E state) (\<lambda>jf. Inr (apply_changes_to_state jf state))"

end
