(* ===== verification/Finality.thy ===== *)
theory Finality
  imports Justification
begin

text \<open>
  Finality: what the bits and checkpoints of the beacon state mean along a chain of epochs, and that only
  checkpoints which Casper's rule allows become final.
\<close>

unbundle bit_operations_syntax

section \<open>Bits\<close>

text \<open>A concrete bit vector of length 4.\<close>

definition word_bits :: "(4 word, unit) bit_vector" where
  "word_bits = \<lparr>
     bv_shift_up = (\<lambda>w n. if n \<le> 4 then Inr (push_bit n w) else Inl ()),
     bv_set = (\<lambda>w i v. if i < 4 then Inr (if v then set_bit i w else unset_bit i w) else Inl ()),
     bv_get = (\<lambda>w i. if i < 4 then Inr (bit w i) else Inl ())\<rparr>"

lemma word_bits_laws: "bit_vector_laws word_bits 4"
  by (auto simp: bit_vector_laws_def word_bits_def bit_set_bit_iff bit_unset_bit_iff bit_double_iff
      mult.commute [of _ "2 :: 4 word"])

definition is_set :: "('b, 'be) bit_vector \<Rightarrow> 'b \<Rightarrow> nat \<Rightarrow> bool" where
  "is_set B b i \<longleftrightarrow> bv_get B b i = Inr True"

lemma bv_getE:
  assumes "bit_vector_laws B n" and "i < n"
  shows "bv_get B b i = Inr (is_set B b i)"
proof -
  obtain v where "bv_get B b i = Inr v" using assms unfolding bit_vector_laws_def by blast
  then show ?thesis by (cases v) (simp_all add: is_set_def)
qed

lemma bv_setE:
  assumes "bit_vector_laws B n" and "i < n"
  obtains b' where "bv_set B b i v = Inr b'" "\<And>j. j < n \<Longrightarrow> is_set B b' j \<longleftrightarrow> (if j = i then v else is_set B b j)"
proof -
  obtain b' where b': "bv_set B b i v = Inr b'" "\<forall>j < n. bv_get B b' j = (if j = i then Inr v else bv_get B b j)"
    using assms unfolding bit_vector_laws_def by blast
  then show ?thesis by (intro that) (auto simp: is_set_def)
qed

lemma bv_shiftE:
  assumes "bit_vector_laws B n"
  obtains b' where "bv_shift_up B b 1 = Inr b'" "\<not> is_set B b' 0" "\<And>j. Suc j < n \<Longrightarrow> is_set B b' (Suc j) \<longleftrightarrow> is_set B b j"
proof -
  obtain b' where b': "bv_shift_up B b 1 = Inr b'" "bv_get B b' 0 = Inr False" "\<forall>j. Suc j < n \<longrightarrow> bv_get B b' (Suc j) = bv_get B b j"
    using assms unfolding bit_vector_laws_def by blast
  then show ?thesis by (intro that) (auto simp: is_set_def)
qed

lemma all_bits_set_eq:
  assumes "bit_vector_laws B n" and "\<forall>i \<in> set is. i < n"
  shows "all_bits_set B b is = Inr (\<forall>i \<in> set is. is_set B b i)"
  using assms(2) by (induction "is") (auto simp: bv_getE [OF assms(1)])

section \<open>One epoch\<close>

abbreviation two_thirds :: "u64 \<Rightarrow> u64 \<Rightarrow> bool" where
  "two_thirds part tot \<equiv> 2 * unat tot \<le> 3 * unat part"

lemma justify_ok:
  assumes "safe_arith_laws A" and "bit_vector_laws B 4" and "i < 4"
    and ok: "justify A B part tot e i s = Inr s'"
  obtains "\<not> two_thirds part tot" "s' = s"
  | root bits where "two_thirds part tot" "jf_get_block_root_at_epoch s e = Inr root"
      "s' = s\<lparr>jf_current_justified_checkpoint := \<lparr>cp_epoch = e, cp_root = root\<rparr>, jf_justification_bits := bits\<rparr>"
      "\<And>j. j < 4 \<Longrightarrow> is_set B bits j \<longleftrightarrow> j = i \<or> is_set B (jf_justification_bits s) j"
proof -
  obtain l r where l: "checked_mul part 3 = Some l" and r: "checked_mul tot 2 = Some r"
    and rest: "(if r \<le> l then
       bind_r (map_err BeaconStateError (jf_get_block_root_at_epoch s e)) (\<lambda>root.
       bind_r (map_err BitfieldError (bv_set B (jf_justification_bits s) i True)) (\<lambda>bits.
       Inr (s\<lparr>jf_current_justified_checkpoint := \<lparr>cp_epoch = e, cp_root = root\<rparr>, jf_justification_bits := bits\<rparr>)))
     else Inr s) = Inr s'"
    using ok by (auto simp: justify_def safe_arith_eqs [OF assms(1)] result_simps)
  have le: "r \<le> l \<longleftrightarrow> two_thirds part tot"
    using l r by (simp add: word_le_nat_alt checked_mul_eq_Some mult.commute)
  show ?thesis
  proof (cases "r \<le> l")
    case True
    obtain b where b: "bv_set B (jf_justification_bits s) i True = Inr b"
      "\<And>j. j < 4 \<Longrightarrow> is_set B b j \<longleftrightarrow> (if j = i then True else is_set B (jf_justification_bits s) j)"
      by (rule bv_setE [OF assms(2,3), where b = "jf_justification_bits s" and v = True]) blast
    then show ?thesis using True rest le that(2) by (auto simp: result_simps)
  next
    case False
    then show ?thesis using rest le that(1) by simp
  qed
qed

lemma justify_result:
  assumes "safe_arith_laws A" and "bit_vector_laws B 4" and "i < 4"
    and ok: "justify A B part tot e i s = Inr s'"
  obtains root where "two_thirds part tot \<Longrightarrow> jf_get_block_root_at_epoch s e = Inr root"
    "s' = s\<lparr>jf_current_justified_checkpoint :=
        (if two_thirds part tot then \<lparr>cp_epoch = e, cp_root = root\<rparr> else jf_current_justified_checkpoint s),
      jf_justification_bits := jf_justification_bits s'\<rparr>"
    "\<And>j. j < 4 \<Longrightarrow> is_set B (jf_justification_bits s') j
      \<longleftrightarrow> (j = i \<and> two_thirds part tot) \<or> is_set B (jf_justification_bits s) j"
  by (rule justify_ok [OF assms]) auto

lemma finalize_if_ok:
  assumes "bit_vector_laws B 4" and "\<forall>i \<in> set is. i < 4"
    and "finalize_if B bits is old d e s = Inr s'"
  shows "s' = (if (\<forall>i \<in> set is. is_set B bits i) \<and> unat (cp_epoch old) + unat d = unat e
               then s\<lparr>jf_finalized_checkpoint := old\<rparr> else s)"
proof (cases "\<forall>i \<in> set is. is_set B bits i")
  case True
  then obtain x where "checked_add (cp_epoch old) d = Some x" "s' = (if x = e then s\<lparr>jf_finalized_checkpoint := old\<rparr> else s)"
    using assms(3) by (auto simp: finalize_if_def all_bits_set_eq [OF assms(1,2)] safe_add_def result_simps)
  then show ?thesis using True by (simp add: checked_add_eq_Some word_unat_eq_iff)
next
  case False
  then show ?thesis using assms(3) by (auto simp: finalize_if_def all_bits_set_eq [OF assms(1,2)] split: if_splits)
qed

text \<open>What one epoch does, as the specification states it: \<open>P\<close> and \<open>C\<close> say whether the previous and the current
  epoch have two thirds of the stake, \<open>rp\<close> and \<open>rc\<close> are their block roots.\<close>

definition weighed :: "('b, 'be) bit_vector \<Rightarrow> bool \<Rightarrow> bool \<Rightarrow> hash256 \<Rightarrow> hash256 \<Rightarrow> 'b jf_state \<Rightarrow> 'b jf_state \<Rightarrow> bool" where
  "weighed B P C rp rc s s' \<longleftrightarrow>
     (let e = unat (jf_current_epoch s); pj = jf_previous_justified_checkpoint s;
          cj = jf_current_justified_checkpoint s; bit = is_set B (jf_justification_bits s')
      in (\<forall>j < 4. bit j \<longleftrightarrow> (j = 0 \<and> C) \<or> (j = 1 \<and> P) \<or> (0 < j \<and> is_set B (jf_justification_bits s) (j - 1)))
       \<and> jf_previous_justified_checkpoint s' = cj
       \<and> jf_current_justified_checkpoint s' =
           (if C then \<lparr>cp_epoch = jf_current_epoch s, cp_root = rc\<rparr>
            else if P then \<lparr>cp_epoch = jf_previous_epoch s, cp_root = rp\<rparr> else cj)
       \<and> jf_finalized_checkpoint s' =
           (if bit 0 \<and> bit 1 \<and> unat (cp_epoch cj) + 1 = e then cj
            else if bit 0 \<and> bit 1 \<and> bit 2 \<and> unat (cp_epoch cj) + 2 = e then cj
            else if bit 1 \<and> bit 2 \<and> unat (cp_epoch pj) + 2 = e then pj
            else if bit 1 \<and> bit 2 \<and> bit 3 \<and> unat (cp_epoch pj) + 3 = e then pj
            else jf_finalized_checkpoint s))"

lemma bit_ranges: "set [1 ..< 4] = {1, 2, 3}" "set [1 ..< 3] = {1, 2}" "set [0 ..< 3] = {0, 1, 2}" "set [0 ..< 2] = {0, 1}"
  by auto

text \<open>The four rules in a row: the last one that applies decides.\<close>

lemma finalize_rules:
  fixes bits :: 'b and B :: "('b, 'be) bit_vector"
  defines "set_at \<equiv> is_set B bits"
  assumes B: "bit_vector_laws B 4"
    and rules: "finalize_if B bits [1 ..< 4] pj 3 e s2 = Inr s3" "finalize_if B bits [1 ..< 3] pj 2 e s3 = Inr s4"
      "finalize_if B bits [0 ..< 3] cj 2 e s4 = Inr s5" "finalize_if B bits [0 ..< 2] cj 1 e s5 = Inr s'"
  shows "jf_finalized_checkpoint s' =
    (if set_at 0 \<and> set_at 1 \<and> unat (cp_epoch cj) + 1 = unat e then cj
     else if set_at 0 \<and> set_at 1 \<and> set_at 2 \<and> unat (cp_epoch cj) + 2 = unat e then cj
     else if set_at 1 \<and> set_at 2 \<and> unat (cp_epoch pj) + 2 = unat e then pj
     else if set_at 1 \<and> set_at 2 \<and> set_at 3 \<and> unat (cp_epoch pj) + 3 = unat e then pj
     else jf_finalized_checkpoint s2)"
    "jf_justification_bits s' = jf_justification_bits s2"
    "jf_previous_justified_checkpoint s' = jf_previous_justified_checkpoint s2"
    "jf_current_justified_checkpoint s' = jf_current_justified_checkpoint s2"
proof -
  note fin = finalize_if_ok [OF B _ rules(1), unfolded bit_ranges] finalize_if_ok [OF B _ rules(2), unfolded bit_ranges]
    finalize_if_ok [OF B _ rules(3), unfolded bit_ranges] finalize_if_ok [OF B _ rules(4), unfolded bit_ranges]
  show "jf_finalized_checkpoint s' =
    (if set_at 0 \<and> set_at 1 \<and> unat (cp_epoch cj) + 1 = unat e then cj
     else if set_at 0 \<and> set_at 1 \<and> set_at 2 \<and> unat (cp_epoch cj) + 2 = unat e then cj
     else if set_at 1 \<and> set_at 2 \<and> unat (cp_epoch pj) + 2 = unat e then pj
     else if set_at 1 \<and> set_at 2 \<and> set_at 3 \<and> unat (cp_epoch pj) + 3 = unat e then pj
     else jf_finalized_checkpoint s2)"
    by (simp add: fin set_at_def)
  show "jf_justification_bits s' = jf_justification_bits s2"
    "jf_previous_justified_checkpoint s' = jf_previous_justified_checkpoint s2"
    "jf_current_justified_checkpoint s' = jf_current_justified_checkpoint s2"
    by (simp_all add: fin split: if_splits)
qed

lemma weigh_ok:
  assumes A: "safe_arith_laws A" and B: "bit_vector_laws B 4"
    and ok: "weigh_justification_and_finalization A B s tot prv cur = Inr s'"
  obtains rp rc where "weighed B (two_thirds prv tot) (two_thirds cur tot) rp rc s s'"
    "two_thirds prv tot \<Longrightarrow> jf_get_block_root_at_epoch s (jf_previous_epoch s) = Inr rp"
    "two_thirds cur tot \<Longrightarrow> jf_get_block_root_at_epoch s (jf_current_epoch s) = Inr rc"
proof -
  obtain b0 where b0: "bv_shift_up B (jf_justification_bits s) 1 = Inr b0" "\<not> is_set B b0 0"
    "\<And>j. Suc j < 4 \<Longrightarrow> is_set B b0 (Suc j) \<longleftrightarrow> is_set B (jf_justification_bits s) j"
    by (rule bv_shiftE [OF B]) blast
  let ?s0 = "s\<lparr>jf_previous_justified_checkpoint := jf_current_justified_checkpoint s, jf_justification_bits := b0\<rparr>"
  let ?e = "jf_current_epoch s" and ?pj = "jf_previous_justified_checkpoint s" and ?cj = "jf_current_justified_checkpoint s"
  obtain s1 s2 s3 s4 s5 where s1: "justify A B prv tot (jf_previous_epoch s) 1 ?s0 = Inr s1"
    and s2: "justify A B cur tot ?e 0 s1 = Inr s2"
    and s3: "finalize_if B (jf_justification_bits s2) [1 ..< 4] ?pj 3 ?e s2 = Inr s3"
    and s4: "finalize_if B (jf_justification_bits s2) [1 ..< 3] ?pj 2 ?e s3 = Inr s4"
    and s5: "finalize_if B (jf_justification_bits s2) [0 ..< 3] ?cj 2 ?e s4 = Inr s5"
    and s6: "finalize_if B (jf_justification_bits s2) [0 ..< 2] ?cj 1 ?e s5 = Inr s'"
    using ok b0(1) by (auto simp: weigh_justification_and_finalization_def Let_def result_simps)
  note fin = finalize_rules [OF B s3 s4 s5 s6]
  obtain rp where rp: "two_thirds prv tot \<Longrightarrow> jf_get_block_root_at_epoch ?s0 (jf_previous_epoch s) = Inr rp"
    "s1 = ?s0\<lparr>jf_current_justified_checkpoint :=
        (if two_thirds prv tot then \<lparr>cp_epoch = jf_previous_epoch s, cp_root = rp\<rparr> else jf_current_justified_checkpoint ?s0),
      jf_justification_bits := jf_justification_bits s1\<rparr>"
    "\<And>j. j < 4 \<Longrightarrow> is_set B (jf_justification_bits s1) j \<longleftrightarrow> (j = 1 \<and> two_thirds prv tot) \<or> is_set B (jf_justification_bits ?s0) j"
    by (rule justify_result [OF A B _ s1]) simp_all
  obtain rc where rc: "two_thirds cur tot \<Longrightarrow> jf_get_block_root_at_epoch s1 ?e = Inr rc"
    "s2 = s1\<lparr>jf_current_justified_checkpoint :=
        (if two_thirds cur tot then \<lparr>cp_epoch = ?e, cp_root = rc\<rparr> else jf_current_justified_checkpoint s1),
      jf_justification_bits := jf_justification_bits s2\<rparr>"
    "\<And>j. j < 4 \<Longrightarrow> is_set B (jf_justification_bits s2) j \<longleftrightarrow> (j = 0 \<and> two_thirds cur tot) \<or> is_set B (jf_justification_bits s1) j"
    by (rule justify_result [OF A B _ s2]) simp_all
  show ?thesis
  proof (rule that)
    show "two_thirds prv tot \<Longrightarrow> jf_get_block_root_at_epoch s (jf_previous_epoch s) = Inr rp"
      using rp(1) by (simp add: jf_get_block_root_at_epoch_def)
    have "jf_get_block_root_at_epoch s1 ?e = jf_get_block_root_at_epoch s ?e"
      by (subst rp(2)) (simp add: jf_get_block_root_at_epoch_def)
    then show "two_thirds cur tot \<Longrightarrow> jf_get_block_root_at_epoch s ?e = Inr rc" using rc(1) by simp
    have bits: "is_set B (jf_justification_bits s2) j \<longleftrightarrow> (j = 0 \<and> two_thirds cur tot) \<or> (j = 1 \<and> two_thirds prv tot)
        \<or> (0 < j \<and> is_set B (jf_justification_bits s) (j - 1))" if "j < 4" for j
      using rp(3) [OF that] rc(3) [OF that] b0(2,3) that by (cases j) auto
    have c2: "jf_previous_justified_checkpoint s2 = ?cj" "jf_current_justified_checkpoint s2 =
        (if two_thirds cur tot then \<lparr>cp_epoch = ?e, cp_root = rc\<rparr>
         else if two_thirds prv tot then \<lparr>cp_epoch = jf_previous_epoch s, cp_root = rp\<rparr> else ?cj)"
      "jf_finalized_checkpoint s2 = jf_finalized_checkpoint s"
      using arg_cong [OF rc(2), of jf_previous_justified_checkpoint] arg_cong [OF rp(2), of jf_previous_justified_checkpoint]
        arg_cong [OF rc(2), of jf_current_justified_checkpoint] arg_cong [OF rp(2), of jf_current_justified_checkpoint]
        arg_cong [OF rc(2), of jf_finalized_checkpoint] arg_cong [OF rp(2), of jf_finalized_checkpoint] by simp_all
    show "weighed B (two_thirds prv tot) (two_thirds cur tot) rp rc s s'"
      unfolding weighed_def Let_def fin c2 by (intro conjI refl allI impI bits)
  qed
qed

section \<open>Chains of epochs\<close>

text \<open>A link from a source to a target checkpoint that two thirds of the stake voted for. Votes for the previous
  epoch name the previous justified checkpoint as their source, votes for the current epoch the current
  one.\<close>

type_synonym link = "checkpoint \<times> checkpoint"

definition new_links :: "safe_arith \<Rightarrow> eth_spec \<Rightarrow> 'b beacon_state \<Rightarrow> link set" where
  "new_links A E st = (if unat (current_epoch E st) \<le> 1 then {} else
     {(bs_previous_justified_checkpoint st, \<lparr>cp_epoch = previous_epoch E st, cp_root = r\<rparr>) | r p t.
        bs_previous_epoch_target_attesting_balance st = Inr p \<and> bs_total_active_balance st = Inr t
        \<and> two_thirds p t \<and> get_block_root_at_epoch A E st (previous_epoch E st) = Inr r}
     \<union> {(bs_current_justified_checkpoint st, \<lparr>cp_epoch = current_epoch E st, cp_root = r\<rparr>) | r c t.
        bs_current_epoch_target_attesting_balance st = Inr c \<and> bs_total_active_balance st = Inr t
        \<and> two_thirds c t \<and> get_block_root_at_epoch A E st (current_epoch E st) = Inr r})"

definition genesis_checkpoint :: checkpoint where
  "genesis_checkpoint = \<lparr>cp_epoch = 0, cp_root = 0\<rparr>"

text \<open>Between two epoch transitions the slot, the block roots and the balances change, the rest stays.\<close>

definition same_finality :: "'b beacon_state \<Rightarrow> 'b beacon_state \<Rightarrow> bool" where
  "same_finality st st' \<longleftrightarrow>
     bs_previous_justified_checkpoint st' = bs_previous_justified_checkpoint st
     \<and> bs_current_justified_checkpoint st' = bs_current_justified_checkpoint st
     \<and> bs_finalized_checkpoint st' = bs_finalized_checkpoint st
     \<and> bs_justification_bits st' = bs_justification_bits st"

inductive chain :: "safe_arith \<Rightarrow> ('b, 'be) bit_vector \<Rightarrow> eth_spec \<Rightarrow> 'b beacon_state \<Rightarrow> link set \<Rightarrow> bool"
  for A B E where
  genesis: "current_epoch E st = 0 \<Longrightarrow> bs_previous_justified_checkpoint st = genesis_checkpoint
    \<Longrightarrow> bs_current_justified_checkpoint st = genesis_checkpoint \<Longrightarrow> bs_finalized_checkpoint st = genesis_checkpoint
    \<Longrightarrow> \<forall>i < 4. \<not> is_set B (bs_justification_bits st) i \<Longrightarrow> chain A B E st {}"
| epoch: "chain A B E st L \<Longrightarrow> process_epoch_justification A B E st = Inr st1 \<Longrightarrow> same_finality st1 st'
    \<Longrightarrow> unat (current_epoch E st') = Suc (unat (current_epoch E st)) \<Longrightarrow> chain A B E st' (L \<union> new_links A E st)"

text \<open>An epoch is justified when a link ends in it. A checkpoint is final by the rule of Casper when a link leads
  from it to a checkpoint at most two epochs later and the epochs in between are justified.\<close>

definition justified_in :: "link set \<Rightarrow> nat \<Rightarrow> bool" where
  "justified_in L e \<longleftrightarrow> (\<exists>l \<in> L. unat (cp_epoch (snd l)) = e)"

definition casper_final :: "link set \<Rightarrow> checkpoint \<Rightarrow> bool" where
  "casper_final L c \<longleftrightarrow> (c = genesis_checkpoint \<or> c \<in> snd ` L)
     \<and> (\<exists>t. (c, t) \<in> L \<and> unat (cp_epoch c) < unat (cp_epoch t) \<and> unat (cp_epoch t) \<le> unat (cp_epoch c) + 2
            \<and> (\<forall>k. unat (cp_epoch c) < k \<longrightarrow> k < unat (cp_epoch t) \<longrightarrow> justified_in L k))"

definition ffg_ok :: "('b, 'be) bit_vector \<Rightarrow> nat \<Rightarrow> 'b \<Rightarrow> checkpoint \<Rightarrow> checkpoint \<Rightarrow> checkpoint \<Rightarrow> link set \<Rightarrow> bool" where
  "ffg_ok B e bits fin pj cj L \<longleftrightarrow>
     unat (cp_epoch fin) \<le> unat (cp_epoch pj) \<and> unat (cp_epoch pj) \<le> unat (cp_epoch cj) \<and> unat (cp_epoch cj) \<le> e - 1
     \<and> (\<forall>i < 4. is_set B bits i \<longrightarrow> i < e \<and> justified_in L (e - 1 - i))
     \<and> (is_set B bits 0 \<longrightarrow> (\<exists>t. (pj, t) \<in> L \<and> unat (cp_epoch t) = e - 1))
     \<and> (cj = genesis_checkpoint \<or> cj \<in> snd ` L) \<and> (pj = genesis_checkpoint \<or> pj \<in> snd ` L)
     \<and> (fin = genesis_checkpoint \<or> casper_final L fin) \<and> (e \<le> 2 \<longrightarrow> (\<forall>i < 4. \<not> is_set B bits i))"

lemma justified_mono: "justified_in L e \<Longrightarrow> L \<subseteq> L' \<Longrightarrow> justified_in L' e"
  by (auto simp: justified_in_def)

lemma casper_final_mono: "casper_final L c \<Longrightarrow> L \<subseteq> L' \<Longrightarrow> casper_final L' c"
  unfolding casper_final_def by (blast intro: justified_mono)

lemma casper_finalI:
  assumes "c = genesis_checkpoint \<or> c \<in> snd ` L" and "(c, t) \<in> L"
    and "unat (cp_epoch t) = unat (cp_epoch c) + 1
      \<or> unat (cp_epoch t) = unat (cp_epoch c) + 2 \<and> justified_in L (unat (cp_epoch c) + 1)"
  shows "casper_final L c"
proof -
  have "justified_in L k" if "unat (cp_epoch c) < k" "k < unat (cp_epoch t)" for k
  proof -
    have "k = unat (cp_epoch c) + 1" using that assms(3) by linarith
    then show ?thesis using that(2) assms(3) by auto
  qed
  then show ?thesis unfolding casper_final_def using assms by (intro conjI exI [of _ t]) auto
qed

lemma ffg_okD:
  assumes "ffg_ok B e bits fin pj cj L"
  shows "unat (cp_epoch fin) \<le> unat (cp_epoch pj)" "unat (cp_epoch pj) \<le> unat (cp_epoch cj)" "unat (cp_epoch cj) \<le> e - 1"
    "i < 4 \<Longrightarrow> is_set B bits i \<Longrightarrow> i < e" "i < 4 \<Longrightarrow> is_set B bits i \<Longrightarrow> justified_in L (e - 1 - i)"
    "is_set B bits 0 \<Longrightarrow> \<exists>t. (pj, t) \<in> L \<and> unat (cp_epoch t) = e - 1"
    "cj = genesis_checkpoint \<or> cj \<in> snd ` L" "pj = genesis_checkpoint \<or> pj \<in> snd ` L"
    "fin = genesis_checkpoint \<or> casper_final L fin" "e \<le> 2 \<Longrightarrow> i < 4 \<Longrightarrow> \<not> is_set B bits i"
  using assms by (simp_all only: ffg_ok_def simp_thms)

lemma if_chain:
  "x = (if a then c else if b then c else if d then p else if f then p else y)
    \<Longrightarrow> x = y \<or> x = c \<and> (a \<or> b) \<or> x = p \<and> (d \<or> f)"
  by (simp split: if_split_asm)

lemma weighed_finalE:
  assumes "weighed B P C rp rc s s'" and "unat (jf_current_epoch s) = e"
  obtains "jf_finalized_checkpoint s' = jf_finalized_checkpoint s"
  | "jf_finalized_checkpoint s' = jf_current_justified_checkpoint s"
      "is_set B (jf_justification_bits s') 0" "is_set B (jf_justification_bits s') 1"
      "unat (cp_epoch (jf_current_justified_checkpoint s)) + 1 = e \<or> unat (cp_epoch (jf_current_justified_checkpoint s)) + 2 = e"
  | "jf_finalized_checkpoint s' = jf_previous_justified_checkpoint s"
      "is_set B (jf_justification_bits s') 1" "is_set B (jf_justification_bits s') 2"
      "unat (cp_epoch (jf_previous_justified_checkpoint s)) + 2 = e \<or> unat (cp_epoch (jf_previous_justified_checkpoint s)) + 3 = e"
proof -
  let ?cj = "jf_current_justified_checkpoint s" and ?pj = "jf_previous_justified_checkpoint s"
    and ?bit = "is_set B (jf_justification_bits s')"
  have "jf_finalized_checkpoint s' =
      (if ?bit 0 \<and> ?bit 1 \<and> unat (cp_epoch ?cj) + 1 = e then ?cj
       else if ?bit 0 \<and> ?bit 1 \<and> ?bit 2 \<and> unat (cp_epoch ?cj) + 2 = e then ?cj
       else if ?bit 1 \<and> ?bit 2 \<and> unat (cp_epoch ?pj) + 2 = e then ?pj
       else if ?bit 1 \<and> ?bit 2 \<and> ?bit 3 \<and> unat (cp_epoch ?pj) + 3 = e then ?pj
       else jf_finalized_checkpoint s)"
    using assms(1) unfolding weighed_def Let_def assms(2) by (elim conjE)
  from if_chain [OF this] show ?thesis using that by blast
qed

lemma justified_link: "(c, t) \<in> L \<Longrightarrow> unat (cp_epoch t) = e \<Longrightarrow> justified_in L e"
  by (force simp: justified_in_def)

text \<open>The assumptions of one epoch: the state before is sound, and the new links are recorded.\<close>

definition ffg_epoch :: "('b, 'be) bit_vector \<Rightarrow> nat \<Rightarrow> bool \<Rightarrow> bool \<Rightarrow> hash256 \<Rightarrow> hash256 \<Rightarrow> 'b jf_state \<Rightarrow> 'b jf_state
    \<Rightarrow> link set \<Rightarrow> link set \<Rightarrow> bool" where
  "ffg_epoch B e P C rp rc s s' L L' \<longleftrightarrow>
     ffg_ok B e (jf_justification_bits s) (jf_finalized_checkpoint s) (jf_previous_justified_checkpoint s)
       (jf_current_justified_checkpoint s) L
     \<and> 2 \<le> e \<and> unat (jf_current_epoch s) = e \<and> unat (jf_previous_epoch s) = e - 1
     \<and> weighed B P C rp rc s s' \<and> L \<subseteq> L'
     \<and> (P \<longrightarrow> (jf_previous_justified_checkpoint s, \<lparr>cp_epoch = jf_previous_epoch s, cp_root = rp\<rparr>) \<in> L')
     \<and> (C \<longrightarrow> (jf_current_justified_checkpoint s, \<lparr>cp_epoch = jf_current_epoch s, cp_root = rc\<rparr>) \<in> L')"

lemma ffg_epoch_bits:
  fixes s' :: "'b jf_state"
  assumes "ffg_epoch B e P C rp rc s s' L L'" and j: "j < 4" "is_set B (jf_justification_bits s') j"
  shows "j < Suc e \<and> justified_in L' (e - j)"
    and "j = 0 \<Longrightarrow> \<exists>t. (jf_current_justified_checkpoint s, t) \<in> L' \<and> unat (cp_epoch t) = e"
    and "j = 1 \<Longrightarrow> \<exists>t. (jf_previous_justified_checkpoint s, t) \<in> L' \<and> unat (cp_epoch t) = e - 1"
proof -
  note ok = assms(1) [unfolded ffg_epoch_def, THEN conjunct1]
  have e: "2 \<le> e" "unat (jf_current_epoch s) = e" "unat (jf_previous_epoch s) = e - 1" and L: "L \<subseteq> L'"
    and P: "P \<Longrightarrow> (jf_previous_justified_checkpoint s, \<lparr>cp_epoch = jf_previous_epoch s, cp_root = rp\<rparr>) \<in> L'"
    and C: "C \<Longrightarrow> (jf_current_justified_checkpoint s, \<lparr>cp_epoch = jf_current_epoch s, cp_root = rc\<rparr>) \<in> L'"
    using assms(1) by (simp_all add: ffg_epoch_def)
  have bit: "(j = 0 \<and> C) \<or> (j = 1 \<and> P) \<or> (0 < j \<and> is_set B (jf_justification_bits s) (j - 1))"
    using assms unfolding ffg_epoch_def weighed_def Let_def by blast
  show now: "\<exists>t. (jf_current_justified_checkpoint s, t) \<in> L' \<and> unat (cp_epoch t) = e" if "j = 0"
    using bit that C e by force
  show before: "\<exists>t. (jf_previous_justified_checkpoint s, t) \<in> L' \<and> unat (cp_epoch t) = e - 1" if "j = 1"
    using bit that P e ffg_okD(6) [OF ok] L by force
  show "j < Suc e \<and> justified_in L' (e - j)"
  proof (cases "j \<le> 1")
    case True
    then have "j = 0 \<or> j = 1" by linarith
    then show ?thesis using now before e justified_link by (auto 0 3)
  next
    case False
    then have "is_set B (jf_justification_bits s) (j - 1)" using bit by simp
    then have "j - 1 < e" "justified_in L (e - 1 - (j - 1))"
      using ffg_okD(4,5) [OF ok, of "j - 1"] j(1) by simp_all
    then show ?thesis using False justified_mono [OF _ L] by simp
  qed
qed

lemma ffg_epoch_final:
  fixes s' :: "'b jf_state"
  assumes ep: "ffg_epoch B e P C rp rc s s' L L'"
  shows "unat (cp_epoch (jf_finalized_checkpoint s')) \<le> unat (cp_epoch (jf_current_justified_checkpoint s))
    \<and> (jf_finalized_checkpoint s' = genesis_checkpoint \<or> casper_final L' (jf_finalized_checkpoint s'))"
proof -
  let ?pj = "jf_previous_justified_checkpoint s" and ?cj = "jf_current_justified_checkpoint s"
  note ok = ep [unfolded ffg_epoch_def, THEN conjunct1]
  have L: "L \<subseteq> L'" and w: "weighed B P C rp rc s s'" "unat (jf_current_epoch s) = e" using ep by (simp_all add: ffg_epoch_def)
  have src: "?cj = genesis_checkpoint \<or> ?cj \<in> snd ` L'" "?pj = genesis_checkpoint \<or> ?pj \<in> snd ` L'"
    using ffg_okD(7,8) [OF ok] image_mono [OF L, of snd] by blast+
  show ?thesis
  proof (rule weighed_finalE [OF w], goal_cases)
    case 1
    then show ?thesis using ffg_okD(1,2,9) [OF ok] casper_final_mono [OF _ L] by auto
  next
    case 2
    obtain t where "(?cj, t) \<in> L'" "unat (cp_epoch t) = e" using ffg_epoch_bits(2) [OF ep _ 2(2)] by auto
    moreover have "justified_in L' (e - 1)" using ffg_epoch_bits(1) [OF ep _ 2(3)] by simp
    then have "unat (cp_epoch ?cj) + 1 = e \<or> unat (cp_epoch ?cj) + 2 = e \<and> justified_in L' (unat (cp_epoch ?cj) + 1)"
      using 2(4) by auto
    ultimately have "casper_final L' ?cj" by (intro casper_finalI [OF src(1), of t]) auto
    then show ?thesis using 2 by simp
  next
    case 3
    obtain t where t: "(?pj, t) \<in> L'" "unat (cp_epoch t) = e - 1" using ffg_epoch_bits(3) [OF ep _ 3(2)] by auto
    have "justified_in L' (e - 2)" using ffg_epoch_bits(1) [OF ep _ 3(3)] by simp
    moreover have "e - 2 = unat (cp_epoch ?pj) + 1" if "unat (cp_epoch ?pj) + 3 = e" using that by linarith
    ultimately have "casper_final L' ?pj"
      using t 3(4) by (intro casper_finalI [OF src(2), of t]) auto
    then show ?thesis using 3 ffg_okD(2) [OF ok] by simp
  qed
qed

lemma ffg_ok_step:
  fixes s' :: "'b jf_state"
  assumes ep: "ffg_epoch B e P C rp rc s s' L L'"
  shows "ffg_ok B (Suc e) (jf_justification_bits s') (jf_finalized_checkpoint s') (jf_previous_justified_checkpoint s')
      (jf_current_justified_checkpoint s') L'"
proof -
  let ?cj = "jf_current_justified_checkpoint s"
  note ok = ep [unfolded ffg_epoch_def, THEN conjunct1]
  have e: "2 \<le> e" "unat (jf_current_epoch s) = e" "unat (jf_previous_epoch s) = e - 1" and L: "L \<subseteq> L'"
    and w: "weighed B P C rp rc s s'"
    and P: "P \<Longrightarrow> (jf_previous_justified_checkpoint s, \<lparr>cp_epoch = jf_previous_epoch s, cp_root = rp\<rparr>) \<in> L'"
    and C: "C \<Longrightarrow> (?cj, \<lparr>cp_epoch = jf_current_epoch s, cp_root = rc\<rparr>) \<in> L'"
    using ep by (simp_all add: ffg_epoch_def)
  have src: "?cj = genesis_checkpoint \<or> ?cj \<in> snd ` L'" using ffg_okD(7) [OF ok] image_mono [OF L, of snd] by blast
  have pj': "jf_previous_justified_checkpoint s' = ?cj" and cj': "jf_current_justified_checkpoint s' =
      (if C then \<lparr>cp_epoch = jf_current_epoch s, cp_root = rc\<rparr>
       else if P then \<lparr>cp_epoch = jf_previous_epoch s, cp_root = rp\<rparr> else ?cj)"
    using w unfolding weighed_def Let_def by blast+
  have cj: "jf_current_justified_checkpoint s' = genesis_checkpoint \<or> jf_current_justified_checkpoint s' \<in> snd ` L'"
    using src C P by (force simp: cj')
  have "unat (cp_epoch ?cj) \<le> unat (cp_epoch (jf_current_justified_checkpoint s'))"
    "unat (cp_epoch (jf_current_justified_checkpoint s')) \<le> e"
    using ffg_okD(3) [OF ok] e by (auto simp: cj')
  then show ?thesis unfolding ffg_ok_def pj'
    using ffg_epoch_final [OF ep] ffg_epoch_bits(1) [OF ep] ffg_epoch_bits(2) [OF ep, of 0] cj src e(1) by simp
qed

lemma epochs_of_state:
  "unat (previous_epoch E st) = unat (current_epoch E st) - 1" "unat (current_epoch E st) \<le> 2 ^ 61"
proof -
  show "unat (previous_epoch E st) = unat (current_epoch E st) - 1"
  proof (cases "1 \<le> current_epoch E st")
    case True
    then show ?thesis by (simp add: previous_epoch_def safe_sub_def checked_sub_def unat_sub)
  next
    case False
    then show ?thesis by (simp add: previous_epoch_def safe_sub_def checked_sub_def word_le_nat_alt)
  qed
  have "unat (bs_slot st) div unat (slots_per_epoch E) \<le> unat (bs_slot st) div 8"
    by (cases E) (auto intro: div_le_mono2)
  then show "unat (current_epoch E st) \<le> 2 ^ 61"
    using unat_u64_less [of "bs_slot st"] by (simp add: current_epoch_def slot_epoch_def unat_div)
qed

lemma ffg_ok_idle:
  assumes "ffg_ok B e bits fin pj cj L" and "e \<le> 1"
  shows "ffg_ok B (Suc e) bits fin pj cj L"
  using assms ffg_okD(10) [OF assms(1)] unfolding ffg_ok_def by auto

lemma process_epochE:
  assumes A: "safe_arith_laws A" and B: "bit_vector_laws B 4"
    and st1: "process_epoch_justification A B E st = Inr st1"
  obtains "unat (current_epoch E st) \<le> 1" "st1 = apply_changes_to_state (jf_new A E st) st"
  | jf p c t rp rc where "2 \<le> unat (current_epoch E st)" "st1 = apply_changes_to_state jf st"
      "bs_previous_epoch_target_attesting_balance st = Inr p" "bs_current_epoch_target_attesting_balance st = Inr c"
      "bs_total_active_balance st = Inr t" "weighed B (two_thirds p t) (two_thirds c t) rp rc (jf_new A E st) jf"
      "two_thirds p t \<Longrightarrow> get_block_root_at_epoch A E st (previous_epoch E st) = Inr rp"
      "two_thirds c t \<Longrightarrow> get_block_root_at_epoch A E st (current_epoch E st) = Inr rc"
proof -
  let ?jf = "jf_new A E st"
  obtain jf where jf: "process_justification_and_finalization A B E st = Inr jf" "st1 = apply_changes_to_state jf st"
    using st1 by (auto simp: process_epoch_justification_def result_simps)
  have one: "safe_add genesis_epoch 1 = Inr 1" by (simp add: genesis_epoch_def safe_add_def checked_add_def)
  show ?thesis
  proof (cases "unat (current_epoch E st) \<le> 1")
    case True
    then have "jf = ?jf" using jf(1) one by (simp add: process_justification_and_finalization_def word_le_nat_alt)
    then show ?thesis using True jf(2) that(1) by simp
  next
    case False
    then have big: "\<not> current_epoch E st \<le> 1" by (simp add: word_le_nat_alt)
    obtain p c t where bal: "bs_previous_epoch_target_attesting_balance st = Inr p"
      "bs_current_epoch_target_attesting_balance st = Inr c" "bs_total_active_balance st = Inr t"
      and w: "weigh_justification_and_finalization A B ?jf t p c = Inr jf"
      using jf(1) big one by (auto simp: process_justification_and_finalization_def Let_def result_simps)
    have ne: "current_epoch E st \<noteq> previous_epoch E st" using epochs_of_state(1) [of E st] False by auto
    show ?thesis
      using that(2) [OF _ jf(2) bal] False ne
      by (rule_tac weigh_ok [OF A B w]) (auto simp: jf_get_block_root_at_epoch_def jf_new_def)
  qed
qed

lemma process_epoch_ffg:
  fixes st :: "'b beacon_state"
  assumes A: "safe_arith_laws A" and B: "bit_vector_laws B 4"
    and ok: "ffg_ok B (unat (current_epoch E st)) (bs_justification_bits st) (bs_finalized_checkpoint st)
      (bs_previous_justified_checkpoint st) (bs_current_justified_checkpoint st) L"
    and st1: "process_epoch_justification A B E st = Inr st1"
  shows "ffg_ok B (Suc (unat (current_epoch E st))) (bs_justification_bits st1) (bs_finalized_checkpoint st1)
      (bs_previous_justified_checkpoint st1) (bs_current_justified_checkpoint st1) (L \<union> new_links A E st)"
proof (rule process_epochE [OF A B st1], goal_cases)
  case 1
  then show ?case using ffg_ok_idle [OF ok 1(1)] by (simp add: apply_changes_to_state_def jf_new_def new_links_def)
next
  case (2 jf p c t rp rc)
  have "ffg_epoch B (unat (current_epoch E st)) (two_thirds p t) (two_thirds c t) rp rc (jf_new A E st) jf L (L \<union> new_links A E st)"
    using ok 2 epochs_of_state(1) [of E st] by (auto simp: ffg_epoch_def jf_new_def new_links_def)
  from ffg_ok_step [OF this] show ?case using 2(2) by (simp add: apply_changes_to_state_def)
qed

lemma chain_ffg:
  assumes "safe_arith_laws A" and "bit_vector_laws B 4" and "chain A B E st L"
  shows "ffg_ok B (unat (current_epoch E st)) (bs_justification_bits st) (bs_finalized_checkpoint st)
      (bs_previous_justified_checkpoint st) (bs_current_justified_checkpoint st) L"
  using assms(3)
proof (induction rule: chain.induct)
  case (genesis st)
  then show ?case by (simp add: ffg_ok_def genesis_checkpoint_def)
next
  case (epoch st L st1 st')
  then show ?case using process_epoch_ffg [OF assms(1,2) epoch.IH epoch.hyps(2)] by (simp add: same_finality_def)
qed

end
