(* ===== verification/Finality_Properties.thy ===== *)
theory Finality_Properties
  imports Finality
begin

text \<open>
  The properties of justification and finalization along a chain of epochs, with a sample chain of the
  minimal preset on which every epoch has two thirds of the stake.
\<close>

section \<open>A sample chain\<close>

definition sample_beacon_state :: "4 word beacon_state" where
  "sample_beacon_state = \<lparr>
     bs_slot = 7, bs_block_roots = replicate 64 9,
     bs_previous_justified_checkpoint = genesis_checkpoint, bs_current_justified_checkpoint = genesis_checkpoint,
     bs_finalized_checkpoint = genesis_checkpoint, bs_justification_bits = 0,
     bs_previous_epoch_target_attesting_balance = Inr 2, bs_current_epoch_target_attesting_balance = Inr 2,
     bs_total_active_balance = Inr 3\<rparr>"

fun sample_epochs :: "nat \<Rightarrow> 4 word beacon_state" where
  "sample_epochs 0 = sample_beacon_state"
| "sample_epochs (Suc n) =
     (case process_epoch_justification checked_arith word_bits MinimalEthSpec (sample_epochs n) of
        Inr st \<Rightarrow> st\<lparr>bs_slot := bs_slot st + 8\<rparr>
      | Inl _ \<Rightarrow> sample_epochs n)"

lemma sample_chain_step:
  assumes "\<exists>L. chain checked_arith word_bits MinimalEthSpec (sample_epochs n) L"
    and "\<not> isl (process_epoch_justification checked_arith word_bits MinimalEthSpec (sample_epochs n))"
    and "unat (current_epoch MinimalEthSpec (sample_epochs (Suc n)))
      = Suc (unat (current_epoch MinimalEthSpec (sample_epochs n)))"
  shows "\<exists>L. chain checked_arith word_bits MinimalEthSpec (sample_epochs (Suc n)) L"
proof -
  obtain L where L: "chain checked_arith word_bits MinimalEthSpec (sample_epochs n) L" using assms(1) by blast
  obtain st where st: "process_epoch_justification checked_arith word_bits MinimalEthSpec (sample_epochs n) = Inr st"
    using assms(2) by (cases "process_epoch_justification checked_arith word_bits MinimalEthSpec (sample_epochs n)") auto
  have "same_finality st (sample_epochs (Suc n))" by (simp add: st same_finality_def)
  from chain.epoch [OF L st this assms(3)] show ?thesis by blast
qed

lemma sample_chain: "\<exists>L. chain checked_arith word_bits MinimalEthSpec (sample_epochs 4) L"
proof -
  have "chain checked_arith word_bits MinimalEthSpec (sample_epochs 0) {}"
    by (rule chain.genesis) (simp_all add: sample_beacon_state_def current_epoch_def slot_epoch_def is_set_def word_bits_def)
  then have c0: "\<exists>L. chain checked_arith word_bits MinimalEthSpec (sample_epochs 0) L" by blast
  have c1: "\<exists>L. chain checked_arith word_bits MinimalEthSpec (sample_epochs (Suc 0)) L"
    by (rule sample_chain_step [OF c0]) code_simp+
  have c2: "\<exists>L. chain checked_arith word_bits MinimalEthSpec (sample_epochs (Suc (Suc 0))) L"
    by (rule sample_chain_step [OF c1]) code_simp+
  have c3: "\<exists>L. chain checked_arith word_bits MinimalEthSpec (sample_epochs (Suc (Suc (Suc 0)))) L"
    by (rule sample_chain_step [OF c2]) code_simp+
  have "\<exists>L. chain checked_arith word_bits MinimalEthSpec (sample_epochs (Suc (Suc (Suc (Suc 0))))) L"
    by (rule sample_chain_step [OF c3]) code_simp+
  then show ?thesis by (simp only: numeral_Bit0 numeral_One One_nat_def add_Suc add_Suc_right add_0_left add_0_right)
qed

section \<open>Weighing succeeds\<close>




section \<open>Properties\<close>

text \<open>C5. Along every chain of epochs from genesis, the finalized checkpoint is not after the previous justified
  one, that one not after the current justified one, and that one before the current epoch. Both justified
  checkpoints are genesis or the target of a link with two thirds of the stake. The finalized checkpoint
  is genesis or final by the rule of Casper: such a link leads from it to a checkpoint at most two
  epochs later, and every epoch in between is justified.\<close>

theorem finality_follows_casper:
  assumes "safe_arith_laws A" and "bit_vector_laws B 4" and "chain A B E st L"
  shows "unat (cp_epoch (bs_finalized_checkpoint st)) \<le> unat (cp_epoch (bs_previous_justified_checkpoint st))
    \<and> unat (cp_epoch (bs_previous_justified_checkpoint st)) \<le> unat (cp_epoch (bs_current_justified_checkpoint st))
    \<and> unat (cp_epoch (bs_current_justified_checkpoint st)) \<le> unat (current_epoch E st) - 1
    \<and> (bs_current_justified_checkpoint st = genesis_checkpoint \<or> bs_current_justified_checkpoint st \<in> snd ` L)
    \<and> (bs_previous_justified_checkpoint st = genesis_checkpoint \<or> bs_previous_justified_checkpoint st \<in> snd ` L)
    \<and> (bs_finalized_checkpoint st = genesis_checkpoint \<or> casper_final L (bs_finalized_checkpoint st))"
  using ffg_okD(1-3,7-9) [OF chain_ffg [OF assms]] by simp

theorem finality_follows_casper_witness:
  "\<exists>L. chain checked_arith word_bits MinimalEthSpec (sample_epochs 4) L
    \<and> unat (cp_epoch (bs_finalized_checkpoint (sample_epochs 4))) = 2
    \<and> casper_final L (bs_finalized_checkpoint (sample_epochs 4))"
proof -
  obtain L where L: "chain checked_arith word_bits MinimalEthSpec (sample_epochs 4) L" using sample_chain by blast
  have e: "unat (cp_epoch (bs_finalized_checkpoint (sample_epochs 4))) = 2" by code_simp
  then have "bs_finalized_checkpoint (sample_epochs 4) \<noteq> genesis_checkpoint" by (auto simp: genesis_checkpoint_def)
  then show ?thesis using finality_follows_casper [OF checked_arith_laws word_bits_laws L] L e by blast
qed

text \<open>C19. An epoch transition never takes back finality or justification: the epochs of the finalized, the previous
  justified and the current justified checkpoint never decrease.\<close>

theorem checkpoints_never_go_back:
  assumes "safe_arith_laws A" and "bit_vector_laws B 4" and "chain A B E st L"
    and "process_epoch_justification A B E st = Inr st1"
  shows "unat (cp_epoch (bs_finalized_checkpoint st)) \<le> unat (cp_epoch (bs_finalized_checkpoint st1))
    \<and> unat (cp_epoch (bs_previous_justified_checkpoint st)) \<le> unat (cp_epoch (bs_previous_justified_checkpoint st1))
    \<and> unat (cp_epoch (bs_current_justified_checkpoint st)) \<le> unat (cp_epoch (bs_current_justified_checkpoint st1))"
proof -
  note ok = chain_ffg [OF assms(1-3)]
  note old = ffg_okD(1-3) [OF ok] epochs_of_state(1) [of E st]
  show ?thesis
  proof (rule process_epochE [OF assms(1,2,4)], goal_cases)
    case 1
    then show ?case by (simp add: apply_changes_to_state_def jf_new_def)
  next
    case (2 jf p c t rp rc)
    have pj: "jf_previous_justified_checkpoint jf = bs_current_justified_checkpoint st"
      and cj: "jf_current_justified_checkpoint jf =
        (if two_thirds c t then \<lparr>cp_epoch = current_epoch E st, cp_root = rc\<rparr>
         else if two_thirds p t then \<lparr>cp_epoch = previous_epoch E st, cp_root = rp\<rparr> else bs_current_justified_checkpoint st)"
      using 2(6) unfolding weighed_def Let_def by (simp_all add: jf_new_def)
    have "jf_finalized_checkpoint jf \<in> {bs_finalized_checkpoint st, bs_previous_justified_checkpoint st,
        bs_current_justified_checkpoint st}"
      by (rule weighed_finalE [OF 2(6) refl]) (simp_all add: jf_new_def)
    then show ?case using 2(2) pj cj old by (auto simp: apply_changes_to_state_def)
  qed
qed

theorem checkpoints_never_go_back_witness:
  "\<exists>st1. process_epoch_justification checked_arith word_bits MinimalEthSpec (sample_epochs 4) = Inr st1
    \<and> 2 \<le> unat (cp_epoch (bs_finalized_checkpoint st1))"
proof -
  obtain L where L: "chain checked_arith word_bits MinimalEthSpec (sample_epochs 4) L" using sample_chain by blast
  have "\<not> isl (process_epoch_justification checked_arith word_bits MinimalEthSpec (sample_epochs 4))" by code_simp
  then obtain st1 where st1: "process_epoch_justification checked_arith word_bits MinimalEthSpec (sample_epochs 4) = Inr st1"
    by (cases "process_epoch_justification checked_arith word_bits MinimalEthSpec (sample_epochs 4)") auto
  have "unat (cp_epoch (bs_finalized_checkpoint (sample_epochs 4))) = 2" by code_simp
  then show ?thesis using checkpoints_never_go_back [OF checked_arith_laws word_bits_laws L st1] st1 by auto
qed



end
