(* ===== verification/Slot_Properties.thy ===== *)
theory Slot_Properties
  imports Core_Types
begin

text \<open>
  Slots and epochs: the iterator over an epoch ends after its slots, relative epochs, and the fork
  schedule.
\<close>

section \<open>The slots of an epoch\<close>

lemma unat_end_slot:
  "unat (end_slot E e) = min (2 ^ 64 - 1) (unat (start_slot E e) + (unat (slots_per_epoch E) - 1))"
  by (simp add: end_slot_def start_slot_def unat_saturating_add unat_saturating_sub min.commute)

lemma slot_iter_take_eq:
  assumes "k \<le> unat (slots_per_epoch E)" and "unat (slots_per_epoch E) - k < n"
  shows "slot_iter_take n E e (of_nat k)
    = map of_nat [unat (start_slot E e) + k ..< Suc (unat (end_slot E e))]"
  using assms
proof (induction n arbitrary: k)
  case (Suc n)
  let ?S = "unat (start_slot E e)" and ?P = "unat (slots_per_epoch E)"
  have P: "?P \<le> 32" by (cases E) auto
  have k: "unat (of_nat k :: u64) = k" using Suc.prems P by (simp add: unsigned_of_nat take_bit_nat_eq_self)
  have next_k: "of_nat k + 1 = (of_nat (Suc k) :: u64)" by (simp add: add.commute)
  show ?case
  proof (cases "k = ?P")
    case True
    then have "slots_per_epoch E \<le> of_nat k" by simp
    then show ?thesis using True slots_per_epoch_pos [of E] by (auto simp: slot_iter_next_def unat_end_slot simp del: slots_per_epoch_pos)
  next
    case False
    then have nle: "\<not> slots_per_epoch E \<le> of_nat k" using Suc.prems k by (simp add: word_le_nat_alt)
    have ca: "checked_add (of_nat k) 1 = Some (of_nat (Suc k) :: u64)"
      using k Suc.prems P by (simp add: checked_add_unat next_k)
    show ?thesis
    proof (cases "?S + k < 2 ^ 64")
      case True
      then have s: "safe_add (start_slot E e) (of_nat k) = Inr (of_nat (?S + k))"
        using k by (simp add: safe_add_def checked_add_unat)
      have le: "?S + k < Suc (unat (end_slot E e))" using True False Suc.prems by (simp add: unat_end_slot)
      have "slot_iter_take n E e (of_nat (Suc k)) = map of_nat [?S + Suc k ..< Suc (unat (end_slot E e))]"
        using Suc.prems False by (intro Suc.IH) simp_all
      then show ?thesis using nle ca s upt_conv_Cons [OF le] by (simp add: slot_iter_next_def del: of_nat_Suc of_nat_add)
    next
      case ov: False
      then have s: "safe_add (start_slot E e) (of_nat k) = Inl Overflow"
        using k by (simp add: safe_add_def checked_add_unat)
      then show ?thesis using nle ca ov by (simp add: slot_iter_next_def unat_end_slot)
    qed
  qed
qed simp

lemma slot_iter_eq:
  "slot_iter E e = map of_nat [unat (start_slot E e) ..< Suc (unat (end_slot E e))]"
  using slot_iter_take_eq [of 0 E "Suc (unat (slots_per_epoch E))" e] by (simp add: slot_iter_def del: slot_iter_take.simps)

text \<open>C33. The iterator over the slots of an epoch ends: asking it more often than the epoch has slots gives nothing
  new. It yields the slots from the first to the last of the epoch, in order, none beyond the end of the
  numbers when the epoch is so large that its first slot saturates, and each at its position.\<close>

theorem slot_iter_terminates:
  assumes "unat (slots_per_epoch E) < n"
  shows "slot_iter_take n E e 0 = slot_iter E e
    \<and> map unat (slot_iter E e) = [unat (start_slot E e) ..< Suc (unat (end_slot E e))]
    \<and> length (slot_iter E e) \<le> unat (slots_per_epoch E)
    \<and> (\<forall>i < length (slot_iter E e). epoch_position E e (slot_iter E e ! i) = Some i)"
proof (intro conjI allI impI)
  show "slot_iter_take n E e 0 = slot_iter E e"
    using slot_iter_take_eq [of 0 E n e] assms by (simp add: slot_iter_eq)
  have small: "i < Suc (unat (end_slot E e)) \<Longrightarrow> unat (of_nat i :: u64) = i" for i
    by (simp add: unat_end_slot unsigned_of_nat take_bit_nat_eq_self)
  then show "map unat (slot_iter E e) = [unat (start_slot E e) ..< Suc (unat (end_slot E e))]"
    unfolding slot_iter_eq map_map by (intro map_idI) (auto simp del: upt_Suc)
  show "length (slot_iter E e) \<le> unat (slots_per_epoch E)"
    using slots_per_epoch_pos [of E] unfolding slot_iter_eq unat_end_slot length_map length_upt by linarith
  fix i assume "i < length (slot_iter E e)"
  then have i: "unat (start_slot E e) + i < Suc (unat (end_slot E e))" by (simp add: slot_iter_eq del: upt_Suc)
  then have "slot_iter E e ! i = of_nat (unat (start_slot E e) + i)"
    by (simp add: slot_iter_eq del: upt_Suc of_nat_add)
  then show "epoch_position E e (slot_iter E e ! i) = Some i"
    using small [OF i] i by (simp add: epoch_position_def word_le_nat_alt del: of_nat_add)
qed

theorem slot_iter_terminates_witness:
  "slot_iter_take 40 MinimalEthSpec 576460752303423489 0 = slot_iter MinimalEthSpec 576460752303423489"
  by (rule slot_iter_terminates [THEN conjunct1]) simp

section \<open>Relative epochs\<close>

text \<open>C35. A relative epoch that was resolved against a base converts resolved to itself, when the neighbours of
  the base are epochs and the base is not the last but one; and every conversion that succeeds resolves to
  the epoch it was given.\<close>

theorem relative_epoch_round_trip:
  assumes "0 < base" and "unat base < 2 ^ 64 - 2"
  shows "from_epoch base (into_epoch r base) = Inr r
    \<and> (\<forall>other r'. from_epoch base other = Inr r' \<longrightarrow> into_epoch r' base = other)"
proof -
  note u = word_unat_eq_iff unat_saturating_add unat_saturating_sub
  have eq: "checked_add a 1 = Some c \<longleftrightarrow> unat c = Suc (unat a)" for a c
    by (simp add: checked_add_eq_Some)
  have ok: "map_err RelativeArithError (safe_add a 1) = Inr c \<longleftrightarrow> unat c = Suc (unat a)" for a c
    by (cases "checked_add a 1") (auto simp: safe_add_def simp flip: eq)
  have p: "unat base \<noteq> 0" using assms(1) by (simp add: word_less_nat_alt)
  have resolved: "into_epoch r' base = other" if "from_epoch base other = Inr r'" for other r'
    using that p unat_u64_less [of other]
    by (auto simp: from_epoch_def ok u bind_r_eq_Inr split: if_splits)
  show ?thesis
  proof (cases r)
    case Current
    then show ?thesis using resolved by (simp add: from_epoch_def)
  next
    case Previous
    obtain c where "checked_add (saturating_sub base 1) 1 = Some c" "c = base"
      using p by (auto simp: eq u)
    moreover have "saturating_sub base 1 \<noteq> base" using p by (simp add: u)
    ultimately show ?thesis using Previous resolved by (simp add: from_epoch_def safe_add_def)
  next
    case Next
    have n: "unat (saturating_add base 1) = Suc (unat base)" using assms(2) by (simp add: u)
    then obtain c where c: "checked_add (saturating_add base 1) 1 = Some c"
      using assms(2) by (cases "checked_add (saturating_add base 1) 1") (auto simp: checked_add_eq_None)
    have b: "checked_add base 1 = Some (saturating_add base 1)" using n by (simp add: eq)
    have "unat c = Suc (Suc (unat base))" using c n by (simp add: eq)
    then have "c \<noteq> base" "saturating_add base 1 \<noteq> base" using n by (auto simp: word_unat_eq_iff)
    then show ?thesis using Next resolved b c by (simp add: from_epoch_def safe_add_def)
  qed
qed

theorem relative_epoch_round_trip_witness:
  "from_epoch 7 (into_epoch Next 7) = Inr Next \<and> from_epoch 7 6 = Inr Previous \<and> into_epoch Previous 7 = 6"
proof -
  have h: "(0 :: epoch) < 7" "unat (7 :: epoch) < 2 ^ 64 - 2" by simp_all
  have p: "from_epoch 7 6 = Inr Previous" by code_simp
  show ?thesis using relative_epoch_round_trip [OF h, of Next] p by blast
qed

text \<open>The last epoch is not recognised as the next one of its predecessor: the test for the previous epoch,
  which comes first, overflows.\<close>

theorem last_epoch_is_not_next:
  "into_epoch Next (u64_max - 1) = u64_max"
  "from_epoch (u64_max - 1) u64_max = Inl (RelativeArithError Overflow)"
  by code_simp+

section \<open>The fork schedule\<close>

lemma first_active_fork_active:
  "first_active_fork fs e = Base \<or> (\<exists>fe. (Some fe, first_active_fork fs e) \<in> set fs \<and> fe \<le> e)"
  by (induction fs e rule: first_active_fork.induct) (auto split: option.splits)

lemma first_active_fork_latest:
  "sorted_wrt (\<ge>) (map snd fs) \<Longrightarrow> (Some fe, f) \<in> set fs \<Longrightarrow> fe \<le> e \<Longrightarrow> f \<le> first_active_fork fs e"
  by (induction fs e rule: first_active_fork.induct) (auto split: option.splits)

definition schedule :: "chain_spec \<Rightarrow> (epoch option \<times> fork_name) list" where
  "schedule spec = map (\<lambda>f. (fork_epoch spec f, f)) [Heze, Gloas, Fulu, Electra, Deneb, Capella, Bellatrix, Altair]"

lemma fork_name_at_epoch_schedule: "fork_name_at_epoch spec e = first_active_fork (schedule spec) e"
  by (simp add: fork_name_at_epoch_def schedule_def)

lemma schedule_descending: "sorted_wrt (\<ge>) (map snd (schedule spec))"
  by (simp add: schedule_def fork_order_simps)

lemma in_schedule: "(Some fe, f) \<in> set (schedule spec) \<longleftrightarrow> f \<noteq> Base \<and> fork_epoch spec f = Some fe"
  by (cases f) (auto simp: schedule_def)

lemma Base_least: "Base \<le> f"
  by (simp add: fork_order_simps)

text \<open>C34. The fork at an epoch is the latest one whose activation epoch is set and reached, whatever the
  order of the activation epochs; so it never goes resolved as epochs pass, and a network that starts in a
  fork is in that fork at every epoch.\<close>

theorem fork_name_at_epoch_is_latest:
  "fork_name_at_epoch spec e = Max {f. \<exists>fe. fork_epoch spec f = Some fe \<and> fe \<le> e}
    \<and> fork_name_at_epoch (make_genesis_spec f spec) e = f"
proof (rule conjI)
  have fin: "finite {f. \<exists>fe. fork_epoch spec f = Some fe \<and> fe \<le> e}"
    by (rule finite_subset [of _ "set fork_list_all"]) (auto simp: fork_list_all_def intro: fork_name.exhaust)
  show "fork_name_at_epoch spec e = Max {f. \<exists>fe. fork_epoch spec f = Some fe \<and> fe \<le> e}"
  proof (rule Max_eqI [symmetric, OF fin])
    show "fork_name_at_epoch spec e \<in> {f. \<exists>fe. fork_epoch spec f = Some fe \<and> fe \<le> e}"
      using first_active_fork_active [of "schedule spec" e] by (auto simp: fork_name_at_epoch_schedule in_schedule)
    show "f \<le> fork_name_at_epoch spec e" if "f \<in> {f. \<exists>fe. fork_epoch spec f = Some fe \<and> fe \<le> e}" for f
    proof (cases "f = Base")
      case False
      then show ?thesis using that first_active_fork_latest [OF schedule_descending]
        by (auto simp: fork_name_at_epoch_schedule in_schedule)
    qed (simp add: Base_least)
  qed
  show "fork_name_at_epoch (make_genesis_spec f spec) e = f"
    by (cases f) (simp_all add: fork_name_at_epoch_def)
qed

end
