(* ===== verification/Proto_Node.thy ===== *)
theory Proto_Node
  imports Core_Types
begin

text \<open>
  The data of the \<^verbatim>\<open>proto_array\<close> crate: execution statuses, proto nodes, the array itself, the
  block handed to fork choice, justified balances and the crate's error type
  (\<^verbatim>\<open>proto_array.rs\<close>, \<^verbatim>\<open>proto_array_fork_choice.rs\<close>, \<^verbatim>\<open>justified_balances.rs\<close>,
  \<^verbatim>\<open>error.rs\<close>). Record fields keep the source's names behind a one-letter prefix (\<open>n_\<close> for
  \<^verbatim>\<open>ProtoNode\<close>, \<open>b_\<close> for \<^verbatim>\<open>Block\<close>, \<open>pa_\<close> for \<^verbatim>\<open>ProtoArray\<close>).
\<close>

section \<open>Execution status\<close>

datatype execution_status =
    Valid exec_block_hash
  | Invalid exec_block_hash
  | Optimistic exec_block_hash
  | Irrelevant bool

fun is_execution_enabled :: "execution_status \<Rightarrow> bool" where
  "is_execution_enabled (Irrelevant _) = False"
| "is_execution_enabled _ = True"

definition irrelevant :: execution_status where
  "irrelevant = Irrelevant False"

fun status_block_hash :: "execution_status \<Rightarrow> exec_block_hash option" where
  "status_block_hash (Valid h) = Some h"
| "status_block_hash (Invalid h) = Some h"
| "status_block_hash (Optimistic h) = Some h"
| "status_block_hash (Irrelevant _) = None"

fun is_valid_or_irrelevant :: "execution_status \<Rightarrow> bool" where
  "is_valid_or_irrelevant (Valid _) = True"
| "is_valid_or_irrelevant (Irrelevant _) = True"
| "is_valid_or_irrelevant _ = False"

fun is_valid_and_post_bellatrix :: "execution_status \<Rightarrow> bool" where
  "is_valid_and_post_bellatrix (Valid _) = True"
| "is_valid_and_post_bellatrix _ = False"

fun is_strictly_optimistic :: "execution_status \<Rightarrow> bool" where
  "is_strictly_optimistic (Optimistic _) = True"
| "is_strictly_optimistic _ = False"

fun is_optimistic_or_invalid :: "execution_status \<Rightarrow> bool" where
  "is_optimistic_or_invalid (Optimistic _) = True"
| "is_optimistic_or_invalid (Invalid _) = True"
| "is_optimistic_or_invalid _ = False"

fun is_invalid :: "execution_status \<Rightarrow> bool" where
  "is_invalid (Invalid _) = True"
| "is_invalid _ = False"

fun is_irrelevant :: "execution_status \<Rightarrow> bool" where
  "is_irrelevant (Irrelevant _) = True"
| "is_irrelevant _ = False"

section \<open>Nodes and blocks\<close>

record proto_node =
  n_slot :: slot
  n_state_root :: hash256
  n_target_root :: hash256
  n_current_epoch_shuffling_id :: attestation_shuffling_id
  n_next_epoch_shuffling_id :: attestation_shuffling_id
  n_root :: hash256
  n_parent :: "usize option"
  n_justified_checkpoint :: checkpoint
  n_finalized_checkpoint :: checkpoint
  n_weight :: u64
  n_best_child :: "usize option"
  n_best_descendant :: "usize option"
  n_execution_status :: execution_status
  n_unrealized_justified_checkpoint :: "checkpoint option"
  n_unrealized_finalized_checkpoint :: "checkpoint option"
  n_builder_index :: "builder_index option"
  n_payload_revealed :: bool
  n_ptc_weight :: u64
  n_ptc_blob_data_available_weight :: u64
  n_payload_data_available :: bool
  n_bid_block_hash :: "exec_block_hash option"
  n_bid_parent_block_hash :: "exec_block_hash option"
  n_proposer_index :: u64
  n_ptc_timely :: bool
  n_envelope_received :: bool
  n_inclusion_list_satisfied :: bool

record block =
  b_slot :: slot
  b_root :: hash256
  b_parent_root :: "hash256 option"
  b_state_root :: hash256
  b_target_root :: hash256
  b_current_epoch_shuffling_id :: attestation_shuffling_id
  b_next_epoch_shuffling_id :: attestation_shuffling_id
  b_justified_checkpoint :: checkpoint
  b_finalized_checkpoint :: checkpoint
  b_execution_status :: execution_status
  b_unrealized_justified_checkpoint :: "checkpoint option"
  b_unrealized_finalized_checkpoint :: "checkpoint option"
  b_builder_index :: "builder_index option"
  b_payload_revealed :: bool
  b_ptc_weight :: u64
  b_ptc_blob_data_available_weight :: u64
  b_payload_data_available :: bool
  b_bid_block_hash :: "exec_block_hash option"
  b_bid_parent_block_hash :: "exec_block_hash option"
  b_proposer_index :: u64
  b_ptc_timely :: bool
  b_envelope_received :: bool
  b_inclusion_list_satisfied :: bool

text \<open>
  \<^verbatim>\<open>Block::proposer_shuffling_root_for_child_block\<close>. The sum \<^verbatim>\<open>block_epoch + 1\<close> is the
  saturating addition of \<^verbatim>\<open>Epoch\<close>.
\<close>

definition proposer_shuffling_root_for_child_block ::
    "block \<Rightarrow> epoch \<Rightarrow> chain_spec \<Rightarrow> hash256" where
  "proposer_shuffling_root_for_child_block b child_block_epoch spec =
     (let block_epoch = shuffling_epoch (b_current_epoch_shuffling_id b)
      in if fulu_enabled (fork_name_at_epoch spec (saturating_sub child_block_epoch 1)) then
           if child_block_epoch = block_epoch
           then shuffling_decision_block (b_current_epoch_shuffling_id b)
           else if child_block_epoch = saturating_add block_epoch 1
           then shuffling_decision_block (b_next_epoch_shuffling_id b)
           else b_root b
         else if block_epoch = child_block_epoch
         then shuffling_decision_block (b_next_epoch_shuffling_id b)
         else b_root b)"

section \<open>The array\<close>

record proposer_boost =
  pb_root :: hash256
  pb_score :: u64

definition proposer_boost_default :: proposer_boost where
  "proposer_boost_default = \<lparr>pb_root = 0, pb_score = 0\<rparr>"

record proto_array =
  pa_prune_threshold :: usize
  pa_justified_checkpoint :: checkpoint
  pa_finalized_checkpoint :: checkpoint
  pa_nodes :: "proto_node list"
  pa_indices :: "(hash256, usize) hashmap"
  pa_previous_proposer_boost :: proposer_boost

section \<open>Invalidation operations\<close>

datatype invalidation_operation =
    InvalidateOne hash256
  | InvalidateMany hash256 bool exec_block_hash

fun op_block_root :: "invalidation_operation \<Rightarrow> hash256" where
  "op_block_root (InvalidateOne r) = r"
| "op_block_root (InvalidateMany r _ _) = r"

fun op_latest_valid_ancestor :: "invalidation_operation \<Rightarrow> exec_block_hash option" where
  "op_latest_valid_ancestor (InvalidateOne _) = None"
| "op_latest_valid_ancestor (InvalidateMany _ _ h) = Some h"

fun op_invalidate_block_root :: "invalidation_operation \<Rightarrow> bool" where
  "op_invalidate_block_root (InvalidateOne _) = True"
| "op_invalidate_block_root (InvalidateMany _ always _) = always"

section \<open>Errors\<close>

record invalid_best_node_info =
  ib_current_slot :: slot
  ib_start_root :: hash256
  ib_justified_checkpoint :: checkpoint
  ib_finalized_checkpoint :: checkpoint
  ib_head_root :: hash256
  ib_head_justified_checkpoint :: checkpoint
  ib_head_finalized_checkpoint :: checkpoint

datatype proto_error =
    FinalizedNodeUnknown hash256
  | JustifiedNodeUnknown hash256
  | NodeUnknown hash256
  | InvalidNodeIndex usize
  | InvalidParentIndex usize
  | InvalidBestChildIndex usize
  | InvalidJustifiedIndex usize
  | InvalidBestDescendant usize
  | InvalidParentDelta usize
  | InvalidNodeDelta usize
  | DeltaOverflow usize
  | ProposerBoostOverflow usize
  | ReOrgThresholdOverflow
  | IndexOverflow string
  | InvalidExecutionDeltaOverflow usize
  | InvalidDeltaLen usize usize
  | RevertedFinalizedEpoch epoch epoch
  | InvalidBestNode invalid_best_node_info
  | InvalidAncestorOfValidPayload hash256 exec_block_hash
  | ValidExecutionStatusBecameInvalid hash256 exec_block_hash
  | InvalidJustifiedCheckpointExecutionStatus hash256
  | IrrelevantDescendant hash256
  | ParentExecutionStatusIsInvalid hash256 hash256
  | InvalidEpochOffset u64
  | Arith arith_error

section \<open>Justified balances\<close>

record justified_balances =
  effective_balances :: "u64 list"
  total_effective_balance :: u64
  num_active_validators :: u64

definition justified_balances_default :: justified_balances where
  "justified_balances_default =
     \<lparr>effective_balances = [], total_effective_balance = 0, num_active_validators = 0\<rparr>"

text \<open>The accumulating loop of \<^verbatim>\<open>from_effective_balances\<close>.\<close>

fun sum_effective_balances :: "safe_arith \<Rightarrow> u64 list \<Rightarrow> u64 \<Rightarrow> u64 \<Rightarrow> arith_error + u64 \<times> u64" where
  "sum_effective_balances A [] tot active = Inr (tot, active)"
| "sum_effective_balances A (b # bs) tot active =
     (if b \<noteq> 0 then
        bind_r (sa_add A tot b) (\<lambda>tot'.
        bind_r (sa_add A active 1) (\<lambda>active'.
        sum_effective_balances A bs tot' active'))
      else sum_effective_balances A bs tot active)"

definition from_effective_balances :: "safe_arith \<Rightarrow> u64 list \<Rightarrow> arith_error + justified_balances" where
  "from_effective_balances A bs =
     bind_r (sum_effective_balances A bs 0 0) (\<lambda>(tot, active).
       Inr \<lparr>effective_balances = bs, total_effective_balance = tot,
            num_active_validators = active\<rparr>)"

end
