(* ===== verification/Proto_Array.thy ===== *)
theory Proto_Array
  imports Proto_Node
begin

text \<open>
  The operations of \<^verbatim>\<open>ProtoArray\<close> (\<^verbatim>\<open>consensus/proto_array/src/proto_array.rs\<close>), in the order in
  which they call each other. \<^verbatim>\<open>E\<close> is the preset. Loops over a range are recursions on the
  range; loops that follow parent links take the number of nodes as fuel, which is enough when
  every parent precedes its child (shown in the theory on the tree invariant).
\<close>

section \<open>Following parent links\<close>

text \<open>\<^verbatim>\<open>Iter::next\<close> run to exhaustion from a start index.\<close>

fun iter_from :: "nat \<Rightarrow> proto_node list \<Rightarrow> usize option \<Rightarrow> proto_node list" where
  "iter_from 0 ns next_node_index = []"
| "iter_from (Suc fuel) ns None = []"
| "iter_from (Suc fuel) ns (Some i) =
     (case nth_opt ns i of
        None \<Rightarrow> []
      | Some node \<Rightarrow> node # iter_from fuel ns (n_parent node))"

definition iter_nodes :: "proto_array \<Rightarrow> hash256 \<Rightarrow> proto_node list" where
  "iter_nodes pa block_root =
     iter_from (length (pa_nodes pa)) (pa_nodes pa) (hm_get (pa_indices pa) block_root)"

definition iter_block_roots :: "proto_array \<Rightarrow> hash256 \<Rightarrow> (hash256 \<times> slot) list" where
  "iter_block_roots pa block_root = map (\<lambda>n. (n_root n, n_slot n)) (iter_nodes pa block_root)"

definition get_node :: "proto_array \<Rightarrow> hash256 \<Rightarrow> proto_node option" where
  "get_node pa root = Option.bind (hm_get (pa_indices pa) root) (nth_opt (pa_nodes pa))"

definition is_descendant :: "proto_array \<Rightarrow> hash256 \<Rightarrow> hash256 \<Rightarrow> bool" where
  "is_descendant pa ancestor_root descendant_root =
     (case get_node pa ancestor_root of
        None \<Rightarrow> False
      | Some ancestor \<Rightarrow>
          (case find (\<lambda>(_, s). s = n_slot ancestor)
                  (takeWhile (\<lambda>(_, s). n_slot ancestor \<le> s)
                     (iter_block_roots pa descendant_root)) of
             None \<Rightarrow> False
           | Some (root, _) \<Rightarrow> root = ancestor_root))"

text \<open>The loop at the end of \<^verbatim>\<open>is_finalized_checkpoint_or_descendant\<close>.\<close>

fun finalized_walk :: "nat \<Rightarrow> proto_array \<Rightarrow> slot \<Rightarrow> proto_node \<Rightarrow> bool option" where
  "finalized_walk 0 pa finalized_slot node = None"
| "finalized_walk (Suc fuel) pa finalized_slot node =
     (if n_slot node \<le> finalized_slot
      then Some (n_root node = cp_root (pa_finalized_checkpoint pa))
      else case Option.bind (n_parent node) (nth_opt (pa_nodes pa)) of
             Some parent \<Rightarrow> finalized_walk fuel pa finalized_slot parent
           | None \<Rightarrow> Some False)"

definition is_finalized_checkpoint_or_descendant ::
    "eth_spec \<Rightarrow> proto_array \<Rightarrow> hash256 \<Rightarrow> bool" where
  "is_finalized_checkpoint_or_descendant E pa root =
     (let finalized = pa_finalized_checkpoint pa;
          finalized_slot = start_slot E (cp_epoch finalized)
      in case get_node pa root of
           None \<Rightarrow> False
         | Some node \<Rightarrow>
             if n_finalized_checkpoint node = finalized
               \<or> n_justified_checkpoint node = finalized
               \<or> n_unrealized_finalized_checkpoint node = Some finalized
               \<or> n_unrealized_justified_checkpoint node = Some finalized
             then True
             else finalized_walk (length (pa_nodes pa)) pa finalized_slot node = Some True)"

section \<open>Viability\<close>

definition BUILDER_INDEX_SELF_BUILD :: builder_index where
  "BUILDER_INDEX_SELF_BUILD = u64_max"

definition node_is_viable_for_head ::
    "eth_spec \<Rightarrow> proto_array \<Rightarrow> proto_node \<Rightarrow> slot \<Rightarrow> bool" where
  "node_is_viable_for_head E pa node current_slot =
     (if is_invalid (n_execution_status node) then False
      else if (case n_builder_index node of
                 Some b \<Rightarrow> b \<noteq> BUILDER_INDEX_SELF_BUILD \<and> \<not> n_payload_revealed node
               | None \<Rightarrow> False)
      then False
      else
        let current_epoch = slot_epoch E current_slot;
            node_epoch = slot_epoch E (n_slot node);
            voting_source =
              (if node_epoch < current_epoch
               then (case n_unrealized_justified_checkpoint node of
                       Some cp \<Rightarrow> cp
                     | None \<Rightarrow> n_justified_checkpoint node)
               else n_justified_checkpoint node);
            correct_justified =
              (cp_epoch (pa_justified_checkpoint pa) = 0
               \<or> cp_epoch voting_source = cp_epoch (pa_justified_checkpoint pa)
               \<or> current_epoch \<le> saturating_add (cp_epoch voting_source) 2);
            correct_finalized =
              (cp_epoch (pa_finalized_checkpoint pa) = 0
               \<or> is_finalized_checkpoint_or_descendant E pa (n_root node))
        in correct_justified \<and> correct_finalized)"

definition node_leads_to_viable_head ::
    "eth_spec \<Rightarrow> proto_array \<Rightarrow> proto_node \<Rightarrow> slot \<Rightarrow> proto_error + bool" where
  "node_leads_to_viable_head E pa node current_slot =
     bind_r (case n_best_descendant node of
               Some d \<Rightarrow>
                 bind_r (ok_or (nth_opt (pa_nodes pa) d) (InvalidBestDescendant d))
                   (\<lambda>best_descendant. Inr (node_is_viable_for_head E pa best_descendant current_slot))
             | None \<Rightarrow> Inr False)
       (\<lambda>best_descendant_is_viable_for_head.
          Inr (best_descendant_is_viable_for_head
               \<or> node_is_viable_for_head E pa node current_slot))"

section \<open>Best child and best descendant\<close>

definition set_node :: "proto_array \<Rightarrow> usize \<Rightarrow> proto_node \<Rightarrow> proto_array" where
  "set_node pa i node = pa\<lparr>pa_nodes := (pa_nodes pa)[i := node]\<rparr>"

text \<open>
  The choice made by \<^verbatim>\<open>maybe_update_best_child_and_descendant\<close>: the new values of the parent's
  two links.
\<close>

definition choose_best ::
    "eth_spec \<Rightarrow> proto_array \<Rightarrow> proto_node \<Rightarrow> usize \<Rightarrow> proto_node \<Rightarrow> slot
     \<Rightarrow> proto_error + usize option \<times> usize option" where
  "choose_best E pa parent child_index child current_slot =
     bind_r (node_leads_to_viable_head E pa child current_slot) (\<lambda>child_leads.
     let change_to_none = (None, None);
         change_to_child =
           (Some child_index,
            (case n_best_descendant child of None \<Rightarrow> Some child_index | Some d \<Rightarrow> Some d));
         no_change = (n_best_child parent, n_best_descendant parent)
     in case n_best_child parent of
          Some best_child_index \<Rightarrow>
            if best_child_index = child_index \<and> \<not> child_leads then Inr change_to_none
            else if best_child_index = child_index then Inr change_to_child
            else
              bind_r (ok_or (nth_opt (pa_nodes pa) best_child_index)
                        (InvalidBestDescendant best_child_index)) (\<lambda>best_child.
              bind_r (node_leads_to_viable_head E pa best_child current_slot)
                (\<lambda>best_child_leads.
                if child_leads \<and> \<not> best_child_leads then Inr change_to_child
                else if \<not> child_leads \<and> best_child_leads then Inr no_change
                else if n_weight child = n_weight best_child then
                  (if n_root best_child \<le> n_root child then Inr change_to_child
                   else Inr no_change)
                else
                  (if n_weight best_child < n_weight child then Inr change_to_child
                   else Inr no_change)))
        | None \<Rightarrow> if child_leads then Inr change_to_child else Inr no_change)"

definition maybe_update_best_child_and_descendant ::
    "eth_spec \<Rightarrow> proto_array \<Rightarrow> usize \<Rightarrow> usize \<Rightarrow> slot
     \<Rightarrow> (proto_error, proto_array) outcome" where
  "maybe_update_best_child_and_descendant E pa parent_index child_index current_slot =
     bind_r (with_state pa (ok_or (nth_opt (pa_nodes pa) child_index)
                              (InvalidNodeIndex child_index))) (\<lambda>child.
     bind_r (with_state pa (ok_or (nth_opt (pa_nodes pa) parent_index)
                              (InvalidNodeIndex parent_index))) (\<lambda>parent.
     bind_r (with_state pa (choose_best E pa parent child_index child current_slot))
       (\<lambda>(new_best_child, new_best_descendant).
         Inr (set_node pa parent_index
                (parent\<lparr>n_best_child := new_best_child,
                        n_best_descendant := new_best_descendant\<rparr>)))))"

text \<open>The second loop of \<^verbatim>\<open>apply_score_changes\<close>, from the last index down to the first.\<close>

fun update_best_loop ::
    "eth_spec \<Rightarrow> slot \<Rightarrow> nat \<Rightarrow> proto_array \<Rightarrow> (proto_error, proto_array) outcome" where
  "update_best_loop E current_slot 0 pa = Inr pa"
| "update_best_loop E current_slot (Suc node_index) pa =
     (case nth_opt (pa_nodes pa) node_index of
        None \<Rightarrow> Inl (InvalidNodeIndex node_index, pa)
      | Some node \<Rightarrow>
          bind_r (case n_parent node of
                    Some parent_index \<Rightarrow>
                      maybe_update_best_child_and_descendant E pa parent_index node_index
                        current_slot
                  | None \<Rightarrow> Inr pa)
            (update_best_loop E current_slot node_index))"

section \<open>Weights\<close>

definition calculate_committee_fraction ::
    "eth_spec \<Rightarrow> justified_balances \<Rightarrow> u64 \<Rightarrow> u64 option" where
  "calculate_committee_fraction E balances score_boost =
     Option.bind (checked_div (total_effective_balance balances) (slots_per_epoch E))
       (\<lambda>committee_weight.
          Option.bind (checked_mul committee_weight score_boost)
            (\<lambda>product. checked_div product 100))"

text \<open>
  The delta of one node: its pending delta (or minus its weight, if its payload is invalid), less
  the boost it had, plus the boost it gets. The second component is \<^verbatim>\<open>proposer_score\<close>.
\<close>

definition boosted_delta ::
    "eth_spec \<Rightarrow> chain_spec \<Rightarrow> justified_balances \<Rightarrow> hash256 \<Rightarrow> proposer_boost \<Rightarrow> usize
     \<Rightarrow> proto_node \<Rightarrow> i64 list \<Rightarrow> u64 \<Rightarrow> proto_error + i64 \<times> u64" where
  "boosted_delta E spec balances boost_root prev i node deltas proposer_score =
     (let invalid = is_invalid (n_execution_status node)
      in bind_r (if invalid
                 then ok_or (checked_sub_i64 0 (n_weight node)) (InvalidExecutionDeltaOverflow i)
                 else ok_or (nth_opt deltas i) (InvalidNodeDelta i)) (\<lambda>d0.
         bind_r (if pb_root prev \<noteq> 0 \<and> pb_root prev = n_root node \<and> \<not> invalid
                 then ok_or (checked_sub_i64 d0 (pb_score prev)) (DeltaOverflow i)
                 else Inr d0) (\<lambda>d1.
         case proposer_score_boost spec of
           Some pct \<Rightarrow>
             if boost_root \<noteq> 0 \<and> boost_root = n_root node \<and> \<not> invalid then
               bind_r (ok_or (calculate_committee_fraction E balances pct)
                         (ProposerBoostOverflow i)) (\<lambda>score.
               bind_r (ok_or (checked_add_i64 d1 score) (DeltaOverflow i)) (\<lambda>d2.
               Inr (d2, score)))
             else Inr (d1, proposer_score)
         | None \<Rightarrow> Inr (d1, proposer_score))))"

definition apply_delta :: "usize \<Rightarrow> proto_node \<Rightarrow> i64 \<Rightarrow> proto_error + u64" where
  "apply_delta i node node_delta =
     (if is_invalid (n_execution_status node) then Inr 0
      else if sint node_delta < 0
      then ok_or (checked_sub (n_weight node) (unsigned_abs node_delta)) (DeltaOverflow i)
      else ok_or (checked_add (n_weight node) node_delta) (DeltaOverflow i))"

text \<open>
  One iteration of the first loop. The addition to the parent's delta is unchecked in the source:
  it wraps in the release profile.
\<close>

definition apply_weight_step ::
    "eth_spec \<Rightarrow> chain_spec \<Rightarrow> justified_balances \<Rightarrow> hash256 \<Rightarrow> usize
     \<Rightarrow> proto_array \<times> i64 list \<times> u64
     \<Rightarrow> (proto_error \<times> proto_array) + proto_array \<times> i64 list \<times> u64" where
  "apply_weight_step E spec balances boost_root i s =
     (case s of (pa, deltas, proposer_score) \<Rightarrow>
      case nth_opt (pa_nodes pa) i of
        None \<Rightarrow> Inl (InvalidNodeIndex i, pa)
      | Some node \<Rightarrow>
          if n_root node = 0 then Inr (pa, deltas, proposer_score)
          else
            bind_r (with_state pa (boosted_delta E spec balances boost_root
                      (pa_previous_proposer_boost pa) i node deltas proposer_score))
              (\<lambda>(node_delta, score).
            bind_r (with_state pa (apply_delta i node node_delta)) (\<lambda>w.
            let pa' = set_node pa i (node\<lparr>n_weight := w\<rparr>)
            in case n_parent node of
                 None \<Rightarrow> Inr (pa', deltas, score)
               | Some p \<Rightarrow>
                   (case nth_opt deltas p of
                      None \<Rightarrow> Inl (InvalidParentDelta p, pa')
                    | Some parent_delta \<Rightarrow>
                        Inr (pa', deltas[p := parent_delta + node_delta], score)))))"

fun apply_weight_loop ::
    "eth_spec \<Rightarrow> chain_spec \<Rightarrow> justified_balances \<Rightarrow> hash256 \<Rightarrow> nat
     \<Rightarrow> proto_array \<times> i64 list \<times> u64
     \<Rightarrow> (proto_error \<times> proto_array) + proto_array \<times> i64 list \<times> u64" where
  "apply_weight_loop E spec balances boost_root 0 s = Inr s"
| "apply_weight_loop E spec balances boost_root (Suc i) s =
     bind_r (apply_weight_step E spec balances boost_root i s)
       (apply_weight_loop E spec balances boost_root i)"

definition apply_score_changes ::
    "eth_spec \<Rightarrow> proto_array \<Rightarrow> i64 list \<Rightarrow> checkpoint \<Rightarrow> checkpoint \<Rightarrow> justified_balances
     \<Rightarrow> hash256 \<Rightarrow> slot \<Rightarrow> chain_spec \<Rightarrow> (proto_error, proto_array) outcome" where
  "apply_score_changes E pa deltas justified_checkpoint finalized_checkpoint
       new_justified_balances proposer_boost_root current_slot spec =
     (if length deltas \<noteq> hm_len (pa_indices pa)
      then Inl (InvalidDeltaLen (length deltas) (hm_len (pa_indices pa)), pa)
      else
        let pa1 = (if justified_checkpoint \<noteq> pa_justified_checkpoint pa
                     \<or> finalized_checkpoint \<noteq> pa_finalized_checkpoint pa
                   then pa\<lparr>pa_justified_checkpoint := justified_checkpoint,
                           pa_finalized_checkpoint := finalized_checkpoint\<rparr>
                   else pa)
        in bind_r (apply_weight_loop E spec new_justified_balances proposer_boost_root
                     (length (pa_nodes pa1)) (pa1, deltas, 0)) (\<lambda>(pa2, _, proposer_score).
           let pa3 = pa2\<lparr>pa_previous_proposer_boost :=
                       \<lparr>pb_root = proposer_boost_root, pb_score = proposer_score\<rparr>\<rparr>
           in update_best_loop E current_slot (length (pa_nodes pa3)) pa3))"

section \<open>Payload validation\<close>

abbreviation optimistic_count :: "proto_array \<Rightarrow> nat" where
  "optimistic_count pa \<equiv>
     length (filter (\<lambda>n. is_strictly_optimistic (n_execution_status n)) (pa_nodes pa))"

lemma length_filter_update_less:
  assumes "i < length xs" and "P (xs ! i)" and "\<not> P y"
  shows "length (filter P (xs[i := y])) < length (filter P xs)"
  using assms
proof (induction xs arbitrary: i)
  case Nil
  then show ?case by simp
next
  case (Cons x xs)
  then show ?case by (cases i) auto
qed

text \<open>
  The loop stops at the first node that is already valid or irrelevant; each further iteration
  turns one optimistic node valid, so it ends on every array.
\<close>

function propagate_execution_payload_validation_by_index ::
    "proto_array \<Rightarrow> usize \<Rightarrow> (proto_error, proto_array) outcome" where
  "propagate_execution_payload_validation_by_index pa index =
     (case nth_opt (pa_nodes pa) index of
        None \<Rightarrow> Inl (InvalidNodeIndex index, pa)
      | Some node \<Rightarrow>
          (case n_execution_status node of
             Valid _ \<Rightarrow> Inr pa
           | Irrelevant _ \<Rightarrow> Inr pa
           | Optimistic h \<Rightarrow>
               (let pa' = set_node pa index (node\<lparr>n_execution_status := Valid h\<rparr>)
                in case n_parent node of
                     Some parent_index \<Rightarrow>
                       propagate_execution_payload_validation_by_index pa' parent_index
                   | None \<Rightarrow> Inr pa')
           | Invalid h \<Rightarrow> Inl (InvalidAncestorOfValidPayload (n_root node) h, pa)))"
  by pat_completeness auto
termination
  by (relation "measure (\<lambda>(pa, _). optimistic_count pa)")
    (auto simp: set_node_def intro!: length_filter_update_less)

definition propagate_execution_payload_validation ::
    "proto_array \<Rightarrow> hash256 \<Rightarrow> (proto_error, proto_array) outcome" where
  "propagate_execution_payload_validation pa block_root =
     bind_r (with_state pa (ok_or (hm_get (pa_indices pa) block_root) (NodeUnknown block_root)))
       (propagate_execution_payload_validation_by_index pa)"

section \<open>Payload invalidation\<close>

definition execution_block_hash_to_beacon_block_root ::
    "proto_array \<Rightarrow> exec_block_hash \<Rightarrow> hash256 option" where
  "execution_block_hash_to_beacon_block_root pa h =
     map_option n_root
       (find (\<lambda>n. status_block_hash (n_execution_status n) = Some h) (rev (pa_nodes pa)))"

text \<open>
  One pass through the body of the backwards loop: the new state, and the index to continue with
  (\<^const>\<open>None\<close> for \<^verbatim>\<open>break\<close>).
\<close>

definition invalidate_ancestor_step ::
    "invalidation_operation \<Rightarrow> hash256 \<Rightarrow> bool \<Rightarrow> usize \<Rightarrow> proto_array \<times> usize set
     \<Rightarrow> (proto_error \<times> proto_array) + (proto_array \<times> usize set) \<times> usize option" where
  "invalidate_ancestor_step iop head_block_root lva_is_descendant index s =
     (case s of (pa, invalidated) \<Rightarrow>
      case nth_opt (pa_nodes pa) index of
        None \<Rightarrow> Inl (InvalidNodeIndex index, pa)
      | Some node \<Rightarrow>
          (case status_block_hash (n_execution_status node) of
             None \<Rightarrow> Inr ((pa, invalidated), None)
           | Some hash \<Rightarrow>
               if \<not> lva_is_descendant \<and> n_root node \<noteq> head_block_root
               then Inr ((pa, invalidated), None)
               else if op_latest_valid_ancestor iop = Some hash
               then
                 let node1 = (case n_best_child node of
                                Some c \<Rightarrow> if c \<in> invalidated then node\<lparr>n_best_child := None\<rparr> else node
                              | None \<Rightarrow> node);
                     node2 = (case n_best_descendant node1 of
                                Some d \<Rightarrow>
                                  if d \<in> invalidated then node1\<lparr>n_best_descendant := None\<rparr>
                                  else node1
                              | None \<Rightarrow> node1)
                 in Inr ((set_node pa index node2, invalidated), None)
               else
                 bind_r
                   (if n_root node \<noteq> head_block_root \<or> op_invalidate_block_root iop
                      \<or> lva_is_descendant
                    then
                      (case n_execution_status node of
                         Valid h \<Rightarrow>
                           Inl (ValidExecutionStatusBecameInvalid (n_root node) h, pa)
                       | Optimistic h \<Rightarrow>
                           Inr (set_node pa index
                                  (node\<lparr>n_execution_status := Invalid h,
                                        n_best_child := None,
                                        n_best_descendant := None\<rparr>),
                                insert index invalidated)
                       | _ \<Rightarrow> Inr (pa, invalidated))
                    else Inr (pa, invalidated))
                   (\<lambda>s'. Inr (s', n_parent node))))"

fun invalidate_ancestors ::
    "nat \<Rightarrow> invalidation_operation \<Rightarrow> hash256 \<Rightarrow> bool \<Rightarrow> usize \<Rightarrow> proto_array \<times> usize set
     \<Rightarrow> (proto_error \<times> proto_array) + proto_array \<times> usize set" where
  "invalidate_ancestors 0 iop head_block_root lva_is_descendant index s = Inr s"
| "invalidate_ancestors (Suc fuel) iop head_block_root lva_is_descendant index s =
     bind_r (invalidate_ancestor_step iop head_block_root lva_is_descendant index s)
       (\<lambda>(s', next). case next of
          None \<Rightarrow> Inr s'
        | Some parent_index \<Rightarrow>
            invalidate_ancestors fuel iop head_block_root lva_is_descendant parent_index s')"

text \<open>One iteration of the forwards loop over the potential descendants.\<close>

definition invalidate_descendant_step ::
    "usize \<Rightarrow> proto_array \<times> usize set
     \<Rightarrow> (proto_error \<times> proto_array) + proto_array \<times> usize set" where
  "invalidate_descendant_step index s =
     (case s of (pa, invalidated) \<Rightarrow>
      case nth_opt (pa_nodes pa) index of
        None \<Rightarrow> Inl (InvalidNodeIndex index, pa)
      | Some node \<Rightarrow>
          if (case n_parent node of Some p \<Rightarrow> p \<in> invalidated | None \<Rightarrow> False)
          then
            (case n_execution_status node of
               Valid h \<Rightarrow> Inl (ValidExecutionStatusBecameInvalid (n_root node) h, pa)
             | Optimistic h \<Rightarrow>
                 Inr (set_node pa index (node\<lparr>n_execution_status := Invalid h\<rparr>),
                      insert index invalidated)
             | Invalid h \<Rightarrow>
                 Inr (set_node pa index (node\<lparr>n_execution_status := Invalid h\<rparr>),
                      insert index invalidated)
             | Irrelevant _ \<Rightarrow> Inl (IrrelevantDescendant (n_root node), pa))
          else Inr (pa, invalidated))"

fun invalidate_descendants ::
    "usize list \<Rightarrow> proto_array \<times> usize set
     \<Rightarrow> (proto_error \<times> proto_array) + proto_array \<times> usize set" where
  "invalidate_descendants [] s = Inr s"
| "invalidate_descendants (i # is) s =
     bind_r (invalidate_descendant_step i s) (invalidate_descendants is)"

definition propagate_execution_payload_invalidation ::
    "eth_spec \<Rightarrow> proto_array \<Rightarrow> invalidation_operation
     \<Rightarrow> (proto_error, proto_array) outcome" where
  "propagate_execution_payload_invalidation E pa iop =
     (let head_block_root = op_block_root iop
      in bind_r (with_state pa (ok_or (hm_get (pa_indices pa) head_block_root)
                                  (NodeUnknown head_block_root))) (\<lambda>index.
         let lva_root = Option.bind (op_latest_valid_ancestor iop)
                          (execution_block_hash_to_beacon_block_root pa);
             lva_is_descendant =
               (case lva_root of
                  None \<Rightarrow> False
                | Some r \<Rightarrow> is_descendant pa r head_block_root
                            \<and> is_finalized_checkpoint_or_descendant E pa r)
         in bind_r (invalidate_ancestors (length (pa_nodes pa)) iop head_block_root
                      lva_is_descendant index (pa, {})) (\<lambda>(pa1, invalidated).
            let starting_block_root =
                  (case lva_root of
                     Some r \<Rightarrow> if lva_is_descendant then r else head_block_root
                   | None \<Rightarrow> head_block_root)
            in bind_r (with_state pa1 (ok_or (hm_get (pa_indices pa1) starting_block_root)
                                         (NodeUnknown starting_block_root))) (\<lambda>start.
               bind_r (invalidate_descendants [start + 1 ..< length (pa_nodes pa1)]
                         (pa1, invalidated)) (\<lambda>(pa2, _). Inr pa2)))))"

section \<open>Registering a block\<close>

definition node_of_block :: "proto_array \<Rightarrow> block \<Rightarrow> proto_node" where
  "node_of_block pa b = \<lparr>
     n_slot = b_slot b,
     n_state_root = b_state_root b,
     n_target_root = b_target_root b,
     n_current_epoch_shuffling_id = b_current_epoch_shuffling_id b,
     n_next_epoch_shuffling_id = b_next_epoch_shuffling_id b,
     n_root = b_root b,
     n_parent = Option.bind (b_parent_root b) (hm_get (pa_indices pa)),
     n_justified_checkpoint = b_justified_checkpoint b,
     n_finalized_checkpoint = b_finalized_checkpoint b,
     n_weight = 0,
     n_best_child = None,
     n_best_descendant = None,
     n_execution_status = b_execution_status b,
     n_unrealized_justified_checkpoint = b_unrealized_justified_checkpoint b,
     n_unrealized_finalized_checkpoint = b_unrealized_finalized_checkpoint b,
     n_builder_index = b_builder_index b,
     n_payload_revealed = b_payload_revealed b,
     n_ptc_weight = b_ptc_weight b,
     n_ptc_blob_data_available_weight = b_ptc_blob_data_available_weight b,
     n_payload_data_available = b_payload_data_available b,
     n_bid_block_hash = b_bid_block_hash b,
     n_bid_parent_block_hash = b_bid_parent_block_hash b,
     n_proposer_index = b_proposer_index b,
     n_ptc_timely = b_ptc_timely b,
     n_envelope_received = b_envelope_received b,
     n_inclusion_list_satisfied = b_inclusion_list_satisfied b\<rparr>"

definition on_block ::
    "eth_spec \<Rightarrow> proto_array \<Rightarrow> block \<Rightarrow> slot \<Rightarrow> (proto_error, proto_array) outcome" where
  "on_block E pa b current_slot =
     (if hm_contains_key (pa_indices pa) (b_root b) then Inr pa
      else
        let node_index = length (pa_nodes pa);
            node = node_of_block pa b
        in bind_r (case n_parent node of
                     None \<Rightarrow> Inr ()
                   | Some parent_index \<Rightarrow>
                       (case nth_opt (pa_nodes pa) parent_index of
                          None \<Rightarrow> Inl (InvalidNodeIndex parent_index, pa)
                        | Some parent \<Rightarrow>
                            if is_invalid (n_execution_status parent)
                            then Inl (ParentExecutionStatusIsInvalid (b_root b) (n_root parent), pa)
                            else Inr ())) (\<lambda>_.
           let pa1 = pa\<lparr>pa_indices := hm_insert (pa_indices pa) (n_root node) node_index,
                        pa_nodes := pa_nodes pa @ [node]\<rparr>
           in case n_parent node of
                None \<Rightarrow> Inr pa1
              | Some parent_index \<Rightarrow>
                  bind_r (maybe_update_best_child_and_descendant E pa1 parent_index node_index
                            current_slot) (\<lambda>pa2.
                  if is_valid_and_post_bellatrix (b_execution_status b)
                  then propagate_execution_payload_validation_by_index pa2 parent_index
                  else Inr pa2)))"

section \<open>The head\<close>

definition find_head ::
    "eth_spec \<Rightarrow> proto_array \<Rightarrow> hash256 \<Rightarrow> slot \<Rightarrow> proto_error + hash256" where
  "find_head E pa justified_root current_slot =
     bind_r (ok_or (hm_get (pa_indices pa) justified_root) (JustifiedNodeUnknown justified_root))
       (\<lambda>justified_index.
     bind_r (ok_or (nth_opt (pa_nodes pa) justified_index) (InvalidJustifiedIndex justified_index))
       (\<lambda>justified_node.
     if is_invalid (n_execution_status justified_node)
     then Inl (InvalidJustifiedCheckpointExecutionStatus justified_root)
     else
       let best_descendant_index =
             (case n_best_descendant justified_node of
                Some d \<Rightarrow> d | None \<Rightarrow> justified_index)
       in bind_r (ok_or (nth_opt (pa_nodes pa) best_descendant_index)
                    (InvalidBestDescendant best_descendant_index)) (\<lambda>best_node.
          if \<not> node_is_viable_for_head E pa best_node current_slot
          then Inl (InvalidBestNode \<lparr>
                 ib_current_slot = current_slot,
                 ib_start_root = justified_root,
                 ib_justified_checkpoint = pa_justified_checkpoint pa,
                 ib_finalized_checkpoint = pa_finalized_checkpoint pa,
                 ib_head_root = n_root best_node,
                 ib_head_justified_checkpoint = n_justified_checkpoint best_node,
                 ib_head_finalized_checkpoint = n_finalized_checkpoint best_node\<rparr>)
          else Inr (n_root best_node))))"

definition heads_descended_from_finalization :: "eth_spec \<Rightarrow> proto_array \<Rightarrow> proto_node list" where
  "heads_descended_from_finalization E pa =
     filter (\<lambda>n. n_best_child n = None
                 \<and> is_finalized_checkpoint_or_descendant E pa (n_root n)) (pa_nodes pa)"

section \<open>Pruning\<close>

text \<open>The loop that drops the index entries of the pruned nodes.\<close>

fun prune_indices :: "usize list \<Rightarrow> proto_array \<Rightarrow> (proto_error, proto_array) outcome" where
  "prune_indices [] pa = Inr pa"
| "prune_indices (i # is) pa =
     (case nth_opt (pa_nodes pa) i of
        None \<Rightarrow> Inl (InvalidNodeIndex i, pa)
      | Some node \<Rightarrow>
          prune_indices is (pa\<lparr>pa_indices := hm_remove (pa_indices pa) (n_root node)\<rparr>))"

fun shift_indices ::
    "usize \<Rightarrow> (hash256, usize) hashmap
     \<Rightarrow> (proto_error, (hash256, usize) hashmap) outcome" where
  "shift_indices finalized_index [] = Inr []"
| "shift_indices finalized_index ((r, i) # m) =
     (if finalized_index \<le> i then
        (case shift_indices finalized_index m of
           Inr m' \<Rightarrow> Inr ((r, i - finalized_index) # m')
         | Inl (e, m') \<Rightarrow> Inl (e, (r, i - finalized_index) # m'))
      else Inl (IndexOverflow ''indices'', (r, i) # m))"

definition shift_parent :: "usize \<Rightarrow> proto_node \<Rightarrow> proto_node" where
  "shift_parent finalized_index node =
     (case n_parent node of
        Some p \<Rightarrow> node\<lparr>n_parent := (if finalized_index \<le> p then Some (p - finalized_index)
                                  else None)\<rparr>
      | None \<Rightarrow> node)"

definition shift_node :: "usize \<Rightarrow> proto_node \<Rightarrow> (proto_error, proto_node) outcome" where
  "shift_node finalized_index node =
     (let node1 = shift_parent finalized_index node
      in bind_r (case n_best_child node1 of
                   Some c \<Rightarrow>
                     if finalized_index \<le> c
                     then Inr (node1\<lparr>n_best_child := Some (c - finalized_index)\<rparr>)
                     else Inl (IndexOverflow ''best_child'', node1)
                 | None \<Rightarrow> Inr node1) (\<lambda>node2.
         case n_best_descendant node2 of
           Some d \<Rightarrow>
             if finalized_index \<le> d
             then Inr (node2\<lparr>n_best_descendant := Some (d - finalized_index)\<rparr>)
             else Inl (IndexOverflow ''best_descendant'', node2)
         | None \<Rightarrow> Inr node2))"

fun shift_nodes ::
    "usize \<Rightarrow> proto_node list \<Rightarrow> (proto_error, proto_node list) outcome" where
  "shift_nodes finalized_index [] = Inr []"
| "shift_nodes finalized_index (n # ns) =
     (case shift_node finalized_index n of
        Inl (e, n') \<Rightarrow> Inl (e, n' # ns)
      | Inr n' \<Rightarrow>
          (case shift_nodes finalized_index ns of
             Inr ns' \<Rightarrow> Inr (n' # ns')
           | Inl (e, ns') \<Rightarrow> Inl (e, n' # ns')))"

definition maybe_prune :: "proto_array \<Rightarrow> hash256 \<Rightarrow> (proto_error, proto_array) outcome" where
  "maybe_prune pa finalized_root =
     bind_r (with_state pa (ok_or (hm_get (pa_indices pa) finalized_root)
                              (FinalizedNodeUnknown finalized_root))) (\<lambda>finalized_index.
     if finalized_index < pa_prune_threshold pa then Inr pa
     else
       bind_r (prune_indices [0 ..< finalized_index] pa) (\<lambda>pa1.
       let pa2 = pa1\<lparr>pa_nodes := drop finalized_index (pa_nodes pa1)\<rparr>
       in case shift_indices finalized_index (pa_indices pa2) of
            Inl (e, m) \<Rightarrow> Inl (e, pa2\<lparr>pa_indices := m\<rparr>)
          | Inr m \<Rightarrow>
              (let pa3 = pa2\<lparr>pa_indices := m\<rparr>
               in case shift_nodes finalized_index (pa_nodes pa3) of
                    Inl (e, ns) \<Rightarrow> Inl (e, pa3\<lparr>pa_nodes := ns\<rparr>)
                  | Inr ns \<Rightarrow> Inr (pa3\<lparr>pa_nodes := ns\<rparr>))))"

end
