(* ===== verification/Vote_Tracker.thy ===== *)
theory Vote_Tracker
  imports Proto_Node
begin

text \<open>
  Latest messages and the deltas computed from them
  (\<^verbatim>\<open>consensus/proto_array/src/proto_array_fork_choice.rs\<close>): \<^verbatim>\<open>VoteTracker\<close>,
  \<^verbatim>\<open>ElasticList\<close>, \<^verbatim>\<open>compute_deltas\<close> and \<^verbatim>\<open>apply_vote_updates\<close>. A \<^verbatim>\<open>BTreeSet<u64>\<close> is the
  ascending list of its elements.
\<close>

record vote_tracker =
  vt_current_root :: hash256
  vt_next_root :: hash256
  vt_next_epoch :: epoch
  vt_current_slot :: slot
  vt_next_slot :: slot
  vt_current_payload_present :: bool
  vt_next_payload_present :: bool

definition vote_default :: vote_tracker where
  "vote_default = \<lparr>vt_current_root = 0, vt_next_root = 0, vt_next_epoch = 0,
     vt_current_slot = 0, vt_next_slot = 0,
     vt_current_payload_present = False, vt_next_payload_present = False\<rparr>"

section \<open>The elastic list\<close>

definition elastic_ensure :: "'a \<Rightarrow> 'a list \<Rightarrow> usize \<Rightarrow> 'a list" where
  "elastic_ensure d xs i = (if length xs \<le> i then xs @ replicate (i + 1 - length xs) d else xs)"

text \<open>\<^verbatim>\<open>get_mut\<close> followed by an update of the element it returns.\<close>

definition elastic_modify :: "'a \<Rightarrow> usize \<Rightarrow> ('a \<Rightarrow> 'a) \<Rightarrow> 'a list \<Rightarrow> 'a list" where
  "elastic_modify d i f xs = (let ys = elastic_ensure d xs i in ys[i := f (ys ! i)])"

lemma length_elastic_ensure [simp]: "length (elastic_ensure d xs i) = max (length xs) (i + 1)"
  by (auto simp: elastic_ensure_def)

lemma elastic_ensure_nth:
  "j < max (length xs) (i + 1) \<Longrightarrow>
     elastic_ensure d xs i ! j = (if j < length xs then xs ! j else d)"
  by (auto simp: elastic_ensure_def nth_append)

lemma length_elastic_modify [simp]:
  "length (elastic_modify d i f xs) = max (length xs) (i + 1)"
  by (simp add: elastic_modify_def Let_def)

lemma elastic_modify_nth:
  assumes "j < max (length xs) (i + 1)"
  shows "elastic_modify d i f xs ! j =
    (let x = (if j < length xs then xs ! j else d) in if j = i then f x else x)"
  using assms by (simp add: elastic_modify_def Let_def nth_list_update elastic_ensure_nth)

section \<open>Attestations\<close>

definition update_vote :: "hash256 \<Rightarrow> epoch \<Rightarrow> slot \<Rightarrow> bool \<Rightarrow> vote_tracker \<Rightarrow> vote_tracker" where
  "update_vote block_root target_epoch slot payload_present vote =
     (if vt_next_epoch vote < target_epoch \<or> vote = vote_default
      then vote\<lparr>vt_next_root := block_root, vt_next_epoch := target_epoch,
                vt_next_slot := slot, vt_next_payload_present := payload_present\<rparr>
      else vote)"

section \<open>Deltas\<close>

text \<open>
  The guarded update of one delta: nothing for a root that is not in the tree, an error for an
  index outside the deltas or an overflow.
\<close>

definition adjust_delta ::
    "(i64 \<Rightarrow> i64 \<Rightarrow> i64 option) \<Rightarrow> i64 list \<Rightarrow> usize option \<Rightarrow> u64
     \<Rightarrow> proto_error + i64 list" where
  "adjust_delta checked_op deltas index amount =
     (case index of
        None \<Rightarrow> Inr deltas
      | Some i \<Rightarrow>
          bind_r (ok_or (nth_opt deltas i) (InvalidNodeDelta i)) (\<lambda>d.
          bind_r (ok_or (checked_op d amount) (DeltaOverflow i)) (\<lambda>d'.
          Inr (deltas[i := d']))))"

text \<open>One iteration of the loop of \<^verbatim>\<open>compute_deltas\<close>: the deltas and the vote it leaves.\<close>

definition compute_delta_step ::
    "(hash256, usize) hashmap \<Rightarrow> u64 list \<Rightarrow> u64 list \<Rightarrow> u64 list \<Rightarrow> usize \<Rightarrow> vote_tracker
     \<Rightarrow> i64 list \<Rightarrow> proto_error + i64 list \<times> vote_tracker" where
  "compute_delta_step indices old_balances new_balances equivocating val_index vote deltas =
     (if vt_current_root vote = 0 \<and> vt_next_root vote = 0 then Inr (deltas, vote)
      else if of_nat val_index \<in> set equivocating then
        if vt_current_root vote \<noteq> 0 then
          bind_r (adjust_delta checked_sub_i64 deltas (hm_get indices (vt_current_root vote))
                    (nth_or old_balances val_index 0)) (\<lambda>deltas'.
          Inr (deltas', vote\<lparr>vt_current_root := 0\<rparr>))
        else Inr (deltas, vote)
      else
        let old_balance = nth_or old_balances val_index 0;
            new_balance = nth_or new_balances val_index 0
        in if vt_current_root vote \<noteq> vt_next_root vote \<or> old_balance \<noteq> new_balance then
             bind_r (adjust_delta checked_sub_i64 deltas
                       (hm_get indices (vt_current_root vote)) old_balance) (\<lambda>deltas1.
             bind_r (adjust_delta checked_add_i64 deltas1
                       (hm_get indices (vt_next_root vote)) new_balance) (\<lambda>deltas2.
             Inr (deltas2,
                  vote\<lparr>vt_current_root := vt_next_root vote,
                       vt_current_slot := vt_next_slot vote,
                       vt_current_payload_present := vt_next_payload_present vote\<rparr>)))
           else Inr (deltas, vote))"

fun compute_deltas_loop ::
    "(hash256, usize) hashmap \<Rightarrow> u64 list \<Rightarrow> u64 list \<Rightarrow> u64 list \<Rightarrow> usize
     \<Rightarrow> vote_tracker list \<Rightarrow> i64 list
     \<Rightarrow> (proto_error \<times> vote_tracker list) + i64 list \<times> vote_tracker list" where
  "compute_deltas_loop indices old_balances new_balances equivocating val_index [] deltas =
     Inr (deltas, [])"
| "compute_deltas_loop indices old_balances new_balances equivocating val_index (v # vs) deltas =
     (case compute_delta_step indices old_balances new_balances equivocating val_index v deltas of
        Inl e \<Rightarrow> Inl (e, v # vs)
      | Inr (deltas', v') \<Rightarrow>
          (case compute_deltas_loop indices old_balances new_balances equivocating
                  (Suc val_index) vs deltas' of
             Inl (e, vs') \<Rightarrow> Inl (e, v' # vs')
           | Inr (deltas'', vs') \<Rightarrow> Inr (deltas'', v' # vs')))"

definition compute_deltas ::
    "(hash256, usize) hashmap \<Rightarrow> vote_tracker list \<Rightarrow> u64 list \<Rightarrow> u64 list \<Rightarrow> u64 list
     \<Rightarrow> (proto_error \<times> vote_tracker list) + i64 list \<times> vote_tracker list" where
  "compute_deltas indices votes old_balances new_balances equivocating =
     compute_deltas_loop indices old_balances new_balances equivocating 0 votes
       (replicate (hm_len indices) 0)"

section \<open>Vote updates without deltas\<close>

definition apply_vote_update ::
    "u64 list \<Rightarrow> u64 list \<Rightarrow> u64 list \<Rightarrow> usize \<Rightarrow> vote_tracker \<Rightarrow> vote_tracker" where
  "apply_vote_update old_balances new_balances equivocating val_index vote =
     (if vt_current_root vote = 0 \<and> vt_next_root vote = 0 then vote
      else if of_nat val_index \<in> set equivocating then
        if vt_current_root vote \<noteq> 0 then vote\<lparr>vt_current_root := 0\<rparr> else vote
      else
        let old_balance = nth_or old_balances val_index 0;
            new_balance = nth_or new_balances val_index 0
        in if vt_current_root vote \<noteq> vt_next_root vote \<or> old_balance \<noteq> new_balance
           then vote\<lparr>vt_current_root := vt_next_root vote,
                     vt_current_slot := vt_next_slot vote,
                     vt_current_payload_present := vt_next_payload_present vote\<rparr>
           else vote)"

fun apply_vote_updates_loop ::
    "u64 list \<Rightarrow> u64 list \<Rightarrow> u64 list \<Rightarrow> usize \<Rightarrow> vote_tracker list \<Rightarrow> vote_tracker list" where
  "apply_vote_updates_loop old_balances new_balances equivocating val_index [] = []"
| "apply_vote_updates_loop old_balances new_balances equivocating val_index (v # vs) =
     apply_vote_update old_balances new_balances equivocating val_index v
       # apply_vote_updates_loop old_balances new_balances equivocating (Suc val_index) vs"

definition apply_vote_updates ::
    "vote_tracker list \<Rightarrow> u64 list \<Rightarrow> u64 list \<Rightarrow> u64 list \<Rightarrow> vote_tracker list" where
  "apply_vote_updates votes old_balances new_balances equivocating =
     apply_vote_updates_loop old_balances new_balances equivocating 0 votes"

lemma length_apply_vote_updates_loop [simp]:
  "length (apply_vote_updates_loop old_balances new_balances equivocating k vs) = length vs"
  by (induction vs arbitrary: k) simp_all

end
