(* ===== verification/Gloas_Fork_Choice.thy ===== *)
theory Gloas_Fork_Choice
  imports Proto_Array Vote_Tracker
begin

text \<open>
  The Gloas (ePBS) head selection of
  \<^verbatim>\<open>consensus/proto_array/src/proto_array_fork_choice.rs\<close>: every block is three virtual nodes
  (\<^verbatim>\<open>PENDING\<close>, \<^verbatim>\<open>EMPTY\<close>, \<^verbatim>\<open>FULL\<close>) and the head is found top-down. The record
  \<open>fork_choice\<close> is \<^verbatim>\<open>ProtoArrayForkChoice\<close> with its reusable buffers. A \<^verbatim>\<open>debug_assert!\<close> has no
  effect in a release build and is left out.
\<close>

datatype gloas_payload_status = Empty | Full | Pending

fun payload_status_u8 :: "gloas_payload_status \<Rightarrow> u8" where
  "payload_status_u8 Empty = 0"
| "payload_status_u8 Full = 1"
| "payload_status_u8 Pending = 2"

record gloas_node =
  g_root :: hash256
  g_payload_status :: gloas_payload_status

type_synonym ancestor_cache = "(hash256 \<times> slot, gloas_node option) hashmap"

record fork_choice =
  fc_proto_array :: proto_array
  fc_votes :: "vote_tracker list"
  fc_balances :: justified_balances
  fc_gloas_head_payload_status :: "u8 option"
  fc_gloas_filtered_buf :: "bool list"
  fc_gloas_children_buf :: "(usize, usize list) hashmap"
  fc_gloas_active_votes_buf :: "(u32 \<times> u64) list"
  fc_gloas_children_result_buf :: "gloas_node list"
  fc_gloas_ancestor_cache_buf :: ancestor_cache

section \<open>Children of a virtual node\<close>

definition parent_payload_status_of :: "proto_node \<Rightarrow> proto_node \<Rightarrow> gloas_payload_status" where
  "parent_payload_status_of child parent =
     (case (n_bid_parent_block_hash child, n_bid_block_hash parent) of
        (Some child_parent_hash, Some parent_hash) \<Rightarrow>
          if child_parent_hash = parent_hash then Full else Empty
      | _ \<Rightarrow> Empty)"

text \<open>The body of the loop over a prebuilt list of child indices.\<close>

fun children_from_index ::
    "proto_array \<Rightarrow> proto_node \<Rightarrow> gloas_payload_status \<Rightarrow> bool list \<Rightarrow> usize list
     \<Rightarrow> gloas_node list" where
  "children_from_index pa parent_node status filtered [] = []"
| "children_from_index pa parent_node status filtered (ci # cis) =
     (if \<not> nth_or filtered ci False
      then children_from_index pa parent_node status filtered cis
      else case nth_opt (pa_nodes pa) ci of
             Some child_node \<Rightarrow>
               if parent_payload_status_of child_node parent_node = status
               then \<lparr>g_root = n_root child_node, g_payload_status = Pending\<rparr>
                      # children_from_index pa parent_node status filtered cis
               else children_from_index pa parent_node status filtered cis
           | None \<Rightarrow> children_from_index pa parent_node status filtered cis)"

text \<open>The scan over all nodes, used when no children index is given.\<close>

fun children_from_scan ::
    "usize \<Rightarrow> proto_node \<Rightarrow> gloas_payload_status \<Rightarrow> bool list \<Rightarrow> usize \<Rightarrow> proto_node list
     \<Rightarrow> gloas_node list" where
  "children_from_scan parent_idx parent_node status filtered ci [] = []"
| "children_from_scan parent_idx parent_node status filtered ci (child_node # ns) =
     (if n_parent child_node \<noteq> Some parent_idx
      then children_from_scan parent_idx parent_node status filtered (Suc ci) ns
      else if \<not> nth_or filtered ci False
      then children_from_scan parent_idx parent_node status filtered (Suc ci) ns
      else if parent_payload_status_of child_node parent_node = status
      then \<lparr>g_root = n_root child_node, g_payload_status = Pending\<rparr>
             # children_from_scan parent_idx parent_node status filtered (Suc ci) ns
      else children_from_scan parent_idx parent_node status filtered (Suc ci) ns)"

definition collect_gloas_children ::
    "proto_array \<Rightarrow> gloas_node \<Rightarrow> bool list \<Rightarrow> (usize, usize list) hashmap option
     \<Rightarrow> gloas_node list" where
  "collect_gloas_children pa node filtered children_index =
     (if g_payload_status node = Pending then
        \<lparr>g_root = g_root node, g_payload_status = Empty\<rparr>
        # (case get_node pa (g_root node) of
             Some proto_node \<Rightarrow>
               if n_envelope_received proto_node
               then [\<lparr>g_root = g_root node, g_payload_status = Full\<rparr>] else []
           | None \<Rightarrow> [])
      else
        case hm_get (pa_indices pa) (g_root node) of
          None \<Rightarrow> []
        | Some parent_idx \<Rightarrow>
            (case nth_opt (pa_nodes pa) parent_idx of
               None \<Rightarrow> []
             | Some parent_node \<Rightarrow>
                 (case children_index of
                    Some idx \<Rightarrow>
                      (case hm_get idx parent_idx of
                         Some child_indices \<Rightarrow>
                           children_from_index pa parent_node (g_payload_status node) filtered
                             child_indices
                       | None \<Rightarrow> [])
                  | None \<Rightarrow>
                      children_from_scan parent_idx parent_node (g_payload_status node) filtered 0
                        (pa_nodes pa))))"

section \<open>Filtering and the children index\<close>

text \<open>The reverse pass of \<^verbatim>\<open>compute_filtered_nodes_into\<close>.\<close>

fun propagate_filtered :: "proto_node list \<Rightarrow> nat \<Rightarrow> bool list \<Rightarrow> bool list" where
  "propagate_filtered ns 0 filtered = filtered"
| "propagate_filtered ns (Suc i) filtered =
     propagate_filtered ns i
       (if filtered ! i
        then (case n_parent (ns ! i) of
                Some p \<Rightarrow> if p < length filtered then filtered[p := True] else filtered
              | None \<Rightarrow> filtered)
        else filtered)"

definition compute_filtered_nodes :: "eth_spec \<Rightarrow> proto_array \<Rightarrow> slot \<Rightarrow> bool list" where
  "compute_filtered_nodes E pa current_slot =
     propagate_filtered (pa_nodes pa) (length (pa_nodes pa))
       (map (\<lambda>n. node_is_viable_for_head E pa n current_slot) (pa_nodes pa))"

fun add_children ::
    "usize \<Rightarrow> proto_node list \<Rightarrow> (usize, usize list) hashmap \<Rightarrow> (usize, usize list) hashmap" where
  "add_children i [] m = m"
| "add_children i (n # ns) m =
     add_children (Suc i) ns
       (case n_parent n of
          Some p \<Rightarrow>
            hm_insert m p ((case hm_get m p of Some cs \<Rightarrow> cs | None \<Rightarrow> []) @ [i])
        | None \<Rightarrow> m)"

text \<open>The vectors of the old buffer are emptied, its keys stay.\<close>

definition build_children_index ::
    "proto_array \<Rightarrow> (usize, usize list) hashmap \<Rightarrow> (usize, usize list) hashmap" where
  "build_children_index pa buf =
     add_children 0 (pa_nodes pa) (map (\<lambda>(k, _). (k, [])) buf)"

section \<open>Votes for a virtual node\<close>

text \<open>The loop that walks up from a child towards the target slot.\<close>

fun ancestor_walk ::
    "nat \<Rightarrow> proto_node list \<Rightarrow> slot \<Rightarrow> proto_node \<Rightarrow> gloas_node option" where
  "ancestor_walk 0 ns slot child = None"
| "ancestor_walk (Suc fuel) ns slot child =
     (case n_parent child of
        None \<Rightarrow> None
      | Some parent_idx \<Rightarrow>
          (case nth_opt ns parent_idx of
             None \<Rightarrow> None
           | Some parent \<Rightarrow>
               if slot < n_slot parent then ancestor_walk fuel ns slot parent
               else Some \<lparr>g_root = n_root parent,
                          g_payload_status = parent_payload_status_of child parent\<rparr>))"

definition get_ancestor_gloas :: "proto_array \<Rightarrow> hash256 \<Rightarrow> slot \<Rightarrow> gloas_node option" where
  "get_ancestor_gloas pa root slot =
     (case get_node pa root of
        None \<Rightarrow> None
      | Some block \<Rightarrow>
          if n_slot block \<le> slot
          then Some \<lparr>g_root = root, g_payload_status = Pending\<rparr>
          else ancestor_walk (length (pa_nodes pa)) (pa_nodes pa) slot block)"

text \<open>The verdict on a vote for another root, given the voted chain's ancestor at the slot.\<close>

definition supports_through_ancestor :: "gloas_node \<Rightarrow> gloas_node option \<Rightarrow> bool" where
  "supports_through_ancestor node ancestor =
     (case ancestor of
        Some a \<Rightarrow>
          g_root node = g_root a
          \<and> (g_payload_status node = Pending \<or> g_payload_status node = g_payload_status a)
      | None \<Rightarrow> False)"

definition supports_same_root :: "gloas_node \<Rightarrow> vote_tracker \<Rightarrow> slot \<Rightarrow> bool" where
  "supports_same_root node vote node_slot =
     (case g_payload_status node of
        Pending \<Rightarrow> True
      | _ \<Rightarrow>
          if vt_current_slot vote = node_slot then False
          else if vt_current_payload_present vote then g_payload_status node = Full
          else g_payload_status node = Empty)"

definition is_supporting_vote_gloas_at_slot ::
    "proto_array \<Rightarrow> gloas_node \<Rightarrow> vote_tracker \<Rightarrow> slot \<Rightarrow> bool" where
  "is_supporting_vote_gloas_at_slot pa node vote node_slot =
     (if g_root node = vt_current_root vote then supports_same_root node vote node_slot
      else supports_through_ancestor node (get_ancestor_gloas pa (vt_current_root vote) node_slot))"

definition is_supporting_vote_gloas_cached ::
    "proto_array \<Rightarrow> gloas_node \<Rightarrow> vote_tracker \<Rightarrow> slot \<Rightarrow> ancestor_cache
     \<Rightarrow> bool \<times> ancestor_cache" where
  "is_supporting_vote_gloas_cached pa node vote node_slot cache =
     (if g_root node = vt_current_root vote then (supports_same_root node vote node_slot, cache)
      else
        let key = (vt_current_root vote, node_slot)
        in case hm_get cache key of
             Some ancestor \<Rightarrow> (supports_through_ancestor node ancestor, cache)
           | None \<Rightarrow>
               (let ancestor = get_ancestor_gloas pa (vt_current_root vote) node_slot
                in (supports_through_ancestor node ancestor, hm_insert cache key ancestor)))"

section \<open>Weights\<close>

text \<open>The filter that fills \<^verbatim>\<open>gloas_active_votes_buf\<close>.\<close>

fun active_votes_from :: "usize \<Rightarrow> u64 list \<Rightarrow> vote_tracker list \<Rightarrow> (u32 \<times> u64) list" where
  "active_votes_from val_index balances [] = []"
| "active_votes_from val_index balances (v # vs) =
     (if vt_current_root v = 0 then active_votes_from (Suc val_index) balances vs
      else
        let balance = nth_or balances val_index 0
        in if balance = 0 then active_votes_from (Suc val_index) balances vs
           else (of_nat val_index, balance) # active_votes_from (Suc val_index) balances vs)"

fun sum_supporting ::
    "proto_array \<Rightarrow> vote_tracker list \<Rightarrow> gloas_node \<Rightarrow> slot \<Rightarrow> (u32 \<times> u64) list \<Rightarrow> u64
     \<Rightarrow> ancestor_cache \<Rightarrow> u64 \<times> ancestor_cache" where
  "sum_supporting pa votes node node_slot [] weight cache = (weight, cache)"
| "sum_supporting pa votes node node_slot ((vote_idx, balance) # av) weight cache =
     (case is_supporting_vote_gloas_cached pa node (votes ! unat vote_idx) node_slot cache of
        (supports, cache') \<Rightarrow>
          sum_supporting pa votes node node_slot av
            (if supports then saturating_add weight balance else weight) cache')"

definition boost_vote :: "hash256 \<Rightarrow> slot \<Rightarrow> vote_tracker" where
  "boost_vote proposer_boost_root current_slot =
     vote_default\<lparr>vt_current_root := proposer_boost_root, vt_current_slot := current_slot\<rparr>"

definition get_gloas_weight ::
    "eth_spec \<Rightarrow> fork_choice \<Rightarrow> gloas_node \<Rightarrow> hash256 \<Rightarrow> bool \<Rightarrow> slot \<Rightarrow> chain_spec
     \<Rightarrow> ancestor_cache \<Rightarrow> (u32 \<times> u64) list \<Rightarrow> u64 \<times> ancestor_cache" where
  "get_gloas_weight E fc node proposer_boost_root apply_proposer_boost current_slot spec cache
       active_votes =
     (let pa = fc_proto_array fc
      in case get_node pa (g_root node) of
           None \<Rightarrow> (0, cache)
         | Some proto_node \<Rightarrow>
             (let node_slot = n_slot proto_node
              in if g_payload_status node \<noteq> Pending
                   \<and> saturating_add node_slot 1 = current_slot
                 then (0, cache)
                 else
                   case sum_supporting pa (fc_votes fc) node node_slot active_votes 0 cache of
                     (weight, cache') \<Rightarrow>
                       (if proposer_boost_root \<noteq> 0 \<and> apply_proposer_boost then
                          case proposer_score_boost spec of
                            Some boost_pct \<Rightarrow>
                              if is_supporting_vote_gloas_at_slot pa node
                                   (boost_vote proposer_boost_root current_slot) node_slot
                              then (case calculate_committee_fraction E (fc_balances fc) boost_pct of
                                      Some score \<Rightarrow> saturating_add weight score
                                    | None \<Rightarrow> weight)
                              else weight
                          | None \<Rightarrow> weight
                        else weight, cache')))"

section \<open>Proposer boost\<close>

text \<open>
  The weight of the boosted block's parent in \<^verbatim>\<open>should_apply_proposer_boost_gloas\<close>: its supporting
  votes, then the balances of the equivocating validators.
\<close>

definition parent_attestation_weight ::
    "fork_choice \<Rightarrow> proto_node \<Rightarrow> u64 list \<Rightarrow> (u32 \<times> u64) list \<Rightarrow> u64" where
  "parent_attestation_weight fc parent_block equivocating active_votes =
     (let node = \<lparr>g_root = n_root parent_block, g_payload_status = Pending\<rparr>;
          w = fold (\<lambda>(vote_idx, balance) w.
                 if is_supporting_vote_gloas_at_slot (fc_proto_array fc) node
                      (fc_votes fc ! unat vote_idx) (n_slot parent_block)
                 then saturating_add w balance else w) active_votes 0
      in fold (\<lambda>val_index w.
           saturating_add w (nth_or (effective_balances (fc_balances fc)) (unat val_index) 0))
         equivocating w)"

definition should_apply_proposer_boost_gloas ::
    "eth_spec \<Rightarrow> fork_choice \<Rightarrow> hash256 \<Rightarrow> u64 list \<Rightarrow> chain_spec \<Rightarrow> (u32 \<times> u64) list
     \<Rightarrow> bool" where
  "should_apply_proposer_boost_gloas E fc proposer_boost_root equivocating spec active_votes =
     (if proposer_boost_root = 0 then False
      else
        let pa = fc_proto_array fc
        in case get_node pa proposer_boost_root of
             None \<Rightarrow> False
           | Some boost_block \<Rightarrow>
               (case Option.bind (n_parent boost_block) (nth_opt (pa_nodes pa)) of
                  None \<Rightarrow> True
                | Some parent_block \<Rightarrow>
                    if saturating_add (n_slot parent_block) 1 < n_slot boost_block then True
                    else
                      let parent_att_weight =
                            parent_attestation_weight fc parent_block equivocating active_votes;
                          reorg_threshold =
                            (case Option.bind (reorg_head_weight_threshold spec)
                                    (calculate_committee_fraction E (fc_balances fc)) of
                               Some t \<Rightarrow> t
                             | None \<Rightarrow> 0)
                      in if \<not> parent_att_weight < reorg_threshold then True
                         else \<not> list_ex (\<lambda>n. n_ptc_timely n
                                  \<and> n_proposer_index n = n_proposer_index parent_block
                                  \<and> saturating_add (n_slot n) 1 = n_slot boost_block
                                  \<and> n_root n \<noteq> n_root parent_block) (pa_nodes pa)))"

section \<open>Tie-breaking\<close>

definition should_extend_payload ::
    "proto_array \<Rightarrow> gloas_node \<Rightarrow> proto_node option \<Rightarrow> u64 \<Rightarrow> hash256 \<Rightarrow> bool" where
  "should_extend_payload pa node proto_node ptc_quorum_threshold proposer_boost_root =
     (if (case proto_node of
            Some n \<Rightarrow> n_envelope_received n \<and> \<not> n_inclusion_list_satisfied n
          | None \<Rightarrow> False)
      then False
      else if (case proto_node of
                 Some n \<Rightarrow> n_envelope_received n \<and> ptc_quorum_threshold < n_ptc_weight n
                           \<and> ptc_quorum_threshold < n_ptc_blob_data_available_weight n
               | None \<Rightarrow> False)
      then True
      else if proposer_boost_root = 0 then True
      else
        case hm_get (pa_indices pa) proposer_boost_root of
          Some boosted_idx \<Rightarrow>
            (case nth_opt (pa_nodes pa) boosted_idx of
               Some boosted_node \<Rightarrow>
                 (case n_parent boosted_node of
                    Some parent_idx \<Rightarrow>
                      (case nth_opt (pa_nodes pa) parent_idx of
                         Some parent_node \<Rightarrow>
                           n_root parent_node \<noteq> g_root node
                           \<or> parent_payload_status_of boosted_node parent_node = Full
                       | None \<Rightarrow> False)
                  | None \<Rightarrow> True)
             | None \<Rightarrow> False)
        | None \<Rightarrow> True)"

definition get_payload_tiebreaker ::
    "proto_array \<Rightarrow> gloas_node \<Rightarrow> slot \<Rightarrow> u64 \<Rightarrow> hash256 \<Rightarrow> u8" where
  "get_payload_tiebreaker pa node current_slot ptc_quorum_threshold proposer_boost_root =
     (let proto_node = get_node pa (g_root node);
          is_previous_slot =
            (case proto_node of
               Some n \<Rightarrow> saturating_add (n_slot n) 1 = current_slot
             | None \<Rightarrow> False)
      in if \<not> is_previous_slot then payload_status_u8 (g_payload_status node)
         else if g_payload_status node = Empty then 1
         else if should_extend_payload pa node proto_node ptc_quorum_threshold proposer_boost_root
         then 2 else 0)"

section \<open>The head\<close>

type_synonym scored_node = "gloas_node \<times> u64 \<times> u8"

text \<open>The comparison passed to \<^verbatim>\<open>max_by\<close>: is the first argument strictly greater?\<close>

definition scored_greater :: "scored_node \<Rightarrow> scored_node \<Rightarrow> bool" where
  "scored_greater x y =
     (case (x, y) of ((a, wa, ta), (b, wb, tb)) \<Rightarrow>
        wb < wa \<or> wa = wb \<and> (g_root b < g_root a \<or> g_root a = g_root b \<and> tb < ta))"

text \<open>\<^verbatim>\<open>Iterator::max_by\<close>: the last of several equal maxima.\<close>

fun max_by_from :: "('a \<Rightarrow> 'a \<Rightarrow> bool) \<Rightarrow> 'a \<Rightarrow> 'a list \<Rightarrow> 'a" where
  "max_by_from gt x [] = x"
| "max_by_from gt x (y # ys) = max_by_from gt (if gt x y then x else y) ys"

fun max_by :: "('a \<Rightarrow> 'a \<Rightarrow> bool) \<Rightarrow> 'a list \<Rightarrow> 'a option" where
  "max_by gt [] = None"
| "max_by gt (x # xs) = Some (max_by_from gt x xs)"

fun score_children ::
    "eth_spec \<Rightarrow> fork_choice \<Rightarrow> hash256 \<Rightarrow> bool \<Rightarrow> slot \<Rightarrow> chain_spec \<Rightarrow> gloas_node list
     \<Rightarrow> ancestor_cache \<Rightarrow> scored_node list \<times> ancestor_cache" where
  "score_children E fc proposer_boost_root apply_boost current_slot spec [] cache = ([], cache)"
| "score_children E fc proposer_boost_root apply_boost current_slot spec (child # cs) cache =
     (case get_gloas_weight E fc child proposer_boost_root apply_boost current_slot spec cache
             (fc_gloas_active_votes_buf fc) of
        (w, cache') \<Rightarrow>
          (case score_children E fc proposer_boost_root apply_boost current_slot spec cs cache' of
             (scored, cache'') \<Rightarrow>
               ((child, w,
                 get_payload_tiebreaker (fc_proto_array fc) child current_slot
                   (ptc_size spec div 2) proposer_boost_root) # scored, cache'')))"

datatype fc_error =
    FinalizedBlockError proto_error
  | ProcessValidPayloadError proto_error
  | ProcessInvalidPayloadError proto_error
  | MissingParentRoot
  | ProcessBlockError proto_error
  | FindHeadComputeDeltasError proto_error
  | FindHeadApplyScoreChangesError proto_error
  | FindHeadError proto_error
  | FindHeadGloasNoChildren
  | FindHeadGloasOutOfFuel
  | MaybePruneError proto_error
  | UnreachableIndex
  | FailedProposerBoost
  | OverflowAddingBoost
  | OverflowAddingWeight
  | MissingParentIndex usize

text \<open>
  The \<^verbatim>\<open>loop\<close> of \<^verbatim>\<open>find_head_gloas\<close>. It takes fuel; \<open>FindHeadGloasOutOfFuel\<close> has no counterpart
  in the source.
\<close>

fun find_head_gloas_loop ::
    "nat \<Rightarrow> eth_spec \<Rightarrow> fork_choice \<Rightarrow> hash256 \<Rightarrow> bool \<Rightarrow> slot \<Rightarrow> chain_spec
     \<Rightarrow> gloas_node \<Rightarrow> ancestor_cache \<Rightarrow> (fc_error \<times> fork_choice) + hash256 \<times> fork_choice" where
  "find_head_gloas_loop 0 E fc proposer_boost_root apply_boost current_slot spec head cache =
     Inl (FindHeadGloasOutOfFuel, fc)"
| "find_head_gloas_loop (Suc fuel) E fc proposer_boost_root apply_boost current_slot spec head
       cache =
     (let children = collect_gloas_children (fc_proto_array fc) head (fc_gloas_filtered_buf fc)
                       (Some (fc_gloas_children_buf fc));
          fc1 = fc\<lparr>fc_gloas_children_result_buf := children\<rparr>
      in if children = [] then
           Inr (g_root head,
                fc1\<lparr>fc_gloas_ancestor_cache_buf := cache,
                    fc_gloas_head_payload_status := Some (payload_status_u8 (g_payload_status head))\<rparr>)
         else
           case score_children E fc1 proposer_boost_root apply_boost current_slot spec children [] of
             (scored, cache') \<Rightarrow>
               (case max_by scored_greater scored of
                  None \<Rightarrow> Inl (FindHeadGloasNoChildren, fc1)
                | Some (best, _, _) \<Rightarrow>
                    find_head_gloas_loop fuel E fc1 proposer_boost_root apply_boost current_slot spec
                      best cache'))"

definition prepare_gloas :: "eth_spec \<Rightarrow> fork_choice \<Rightarrow> slot \<Rightarrow> fork_choice" where
  "prepare_gloas E fc current_slot =
     fc\<lparr>fc_gloas_filtered_buf := compute_filtered_nodes E (fc_proto_array fc) current_slot,
        fc_gloas_children_buf := build_children_index (fc_proto_array fc) (fc_gloas_children_buf fc),
        fc_gloas_active_votes_buf :=
          active_votes_from 0 (effective_balances (fc_balances fc)) (fc_votes fc)\<rparr>"

definition find_head_gloas ::
    "eth_spec \<Rightarrow> fork_choice \<Rightarrow> checkpoint \<Rightarrow> hash256 \<Rightarrow> u64 list \<Rightarrow> slot \<Rightarrow> chain_spec
     \<Rightarrow> (fc_error \<times> fork_choice) + hash256 \<times> fork_choice" where
  "find_head_gloas E fc justified_checkpoint proposer_boost_root equivocating current_slot spec =
     (let fc1 = prepare_gloas E fc current_slot;
          apply_boost = should_apply_proposer_boost_gloas E fc1 proposer_boost_root equivocating spec
                          (fc_gloas_active_votes_buf fc1);
          head = \<lparr>g_root = cp_root justified_checkpoint, g_payload_status = Pending\<rparr>;
          cache = fc_gloas_ancestor_cache_buf fc1
      in find_head_gloas_loop (2 * length (pa_nodes (fc_proto_array fc1)) + 3) E
           (fc1\<lparr>fc_gloas_ancestor_cache_buf := []\<rparr>)
           proposer_boost_root apply_boost current_slot spec head cache)"

end
