(* ===== verification/Fork_Choice.thy ===== *)
theory Fork_Choice
  imports Gloas_Fork_Choice
begin

text \<open>
  \<^verbatim>\<open>ProtoArrayForkChoice\<close> (\<^verbatim>\<open>consensus/proto_array/src/proto_array_fork_choice.rs\<close>) and its
  serialised form (\<^verbatim>\<open>ssz_container.rs\<close>): construction, attestations, blocks, head selection in
  both forks, re-org decisions, status resets and lookups. The source's error strings are the
  constructors of \<^typ>\<open>fc_error\<close>, which keep the wrapped error.
\<close>

section \<open>Construction\<close>

definition DEFAULT_PRUNE_THRESHOLD :: usize where
  "DEFAULT_PRUNE_THRESHOLD = 256"

definition from_parts ::
    "proto_array \<Rightarrow> vote_tracker list \<Rightarrow> justified_balances \<Rightarrow> fork_choice" where
  "from_parts pa votes balances = \<lparr>
     fc_proto_array = pa,
     fc_votes = votes,
     fc_balances = balances,
     fc_gloas_head_payload_status = None,
     fc_gloas_filtered_buf = [],
     fc_gloas_children_buf = [],
     fc_gloas_active_votes_buf = [],
     fc_gloas_children_result_buf = [],
     fc_gloas_ancestor_cache_buf = []\<rparr>"

definition anchor_block ::
    "slot \<Rightarrow> hash256 \<Rightarrow> checkpoint \<Rightarrow> checkpoint \<Rightarrow> attestation_shuffling_id
     \<Rightarrow> attestation_shuffling_id \<Rightarrow> execution_status \<Rightarrow> block" where
  "anchor_block finalized_block_slot finalized_block_state_root justified_checkpoint
       finalized_checkpoint current_id next_id status = \<lparr>
     b_slot = finalized_block_slot,
     b_root = cp_root finalized_checkpoint,
     b_parent_root = None,
     b_state_root = finalized_block_state_root,
     b_target_root = cp_root finalized_checkpoint,
     b_current_epoch_shuffling_id = current_id,
     b_next_epoch_shuffling_id = next_id,
     b_justified_checkpoint = justified_checkpoint,
     b_finalized_checkpoint = finalized_checkpoint,
     b_execution_status = status,
     b_unrealized_justified_checkpoint = Some justified_checkpoint,
     b_unrealized_finalized_checkpoint = Some finalized_checkpoint,
     b_builder_index = None,
     b_payload_revealed = False,
     b_ptc_weight = 0,
     b_ptc_blob_data_available_weight = 0,
     b_payload_data_available = False,
     b_bid_block_hash = None,
     b_bid_parent_block_hash = None,
     b_proposer_index = 0,
     b_ptc_timely = False,
     b_envelope_received = False,
     b_inclusion_list_satisfied = False\<rparr>"

definition empty_proto_array :: "checkpoint \<Rightarrow> checkpoint \<Rightarrow> proto_array" where
  "empty_proto_array justified_checkpoint finalized_checkpoint = \<lparr>
     pa_prune_threshold = DEFAULT_PRUNE_THRESHOLD,
     pa_justified_checkpoint = justified_checkpoint,
     pa_finalized_checkpoint = finalized_checkpoint,
     pa_nodes = [],
     pa_indices = [],
     pa_previous_proposer_boost = proposer_boost_default\<rparr>"

definition fork_choice_new ::
    "eth_spec \<Rightarrow> slot \<Rightarrow> slot \<Rightarrow> hash256 \<Rightarrow> checkpoint \<Rightarrow> checkpoint
     \<Rightarrow> attestation_shuffling_id \<Rightarrow> attestation_shuffling_id \<Rightarrow> execution_status
     \<Rightarrow> fc_error + fork_choice" where
  "fork_choice_new E current_slot finalized_block_slot finalized_block_state_root
       justified_checkpoint finalized_checkpoint current_id next_id status =
     bind_r (map_err (\<lambda>(e, _). FinalizedBlockError e)
               (on_block E (empty_proto_array justified_checkpoint finalized_checkpoint)
                  (anchor_block finalized_block_slot finalized_block_state_root
                     justified_checkpoint finalized_checkpoint current_id next_id status)
                  current_slot))
       (\<lambda>pa. Inr (from_parts pa [] justified_balances_default))"

section \<open>Payload statuses, attestations and blocks\<close>

definition lift_pa ::
    "(proto_error \<Rightarrow> fc_error) \<Rightarrow> fork_choice \<Rightarrow> (proto_error, proto_array) outcome
     \<Rightarrow> (fc_error, fork_choice) outcome" where
  "lift_pa f fc r =
     (case r of
        Inl (e, pa) \<Rightarrow> Inl (f e, fc\<lparr>fc_proto_array := pa\<rparr>)
      | Inr pa \<Rightarrow> Inr (fc\<lparr>fc_proto_array := pa\<rparr>))"

definition process_execution_payload_validation ::
    "fork_choice \<Rightarrow> hash256 \<Rightarrow> (fc_error, fork_choice) outcome" where
  "process_execution_payload_validation fc block_root =
     lift_pa ProcessValidPayloadError fc
       (propagate_execution_payload_validation (fc_proto_array fc) block_root)"

definition process_execution_payload_invalidation ::
    "eth_spec \<Rightarrow> fork_choice \<Rightarrow> invalidation_operation \<Rightarrow> (fc_error, fork_choice) outcome" where
  "process_execution_payload_invalidation E fc iop =
     lift_pa ProcessInvalidPayloadError fc
       (propagate_execution_payload_invalidation E (fc_proto_array fc) iop)"

definition process_attestation ::
    "fork_choice \<Rightarrow> usize \<Rightarrow> hash256 \<Rightarrow> epoch \<Rightarrow> slot \<Rightarrow> bool \<Rightarrow> fork_choice" where
  "process_attestation fc validator_index block_root target_epoch slot payload_present =
     fc\<lparr>fc_votes := elastic_modify vote_default validator_index
          (update_vote block_root target_epoch slot payload_present) (fc_votes fc)\<rparr>"

definition process_block ::
    "eth_spec \<Rightarrow> fork_choice \<Rightarrow> block \<Rightarrow> slot \<Rightarrow> (fc_error, fork_choice) outcome" where
  "process_block E fc b current_slot =
     (if b_parent_root b = None then Inl (MissingParentRoot, fc)
      else lift_pa ProcessBlockError fc (on_block E (fc_proto_array fc) b current_slot))"

section \<open>Head selection\<close>

definition maybe_update_balances :: "fork_choice \<Rightarrow> justified_balances \<Rightarrow> fork_choice" where
  "maybe_update_balances fc new_balances =
     (if length (effective_balances (fc_balances fc)) \<noteq> length (effective_balances new_balances)
        \<or> total_effective_balance (fc_balances fc) \<noteq> total_effective_balance new_balances
        \<or> num_active_validators (fc_balances fc) \<noteq> num_active_validators new_balances
      then fc\<lparr>fc_balances := new_balances\<rparr>
      else fc)"

definition is_gloas_slot :: "eth_spec \<Rightarrow> chain_spec \<Rightarrow> slot \<Rightarrow> bool" where
  "is_gloas_slot E spec current_slot =
     (case gloas_fork_epoch spec of
        Some gloas_epoch \<Rightarrow> gloas_epoch \<le> slot_epoch E current_slot
      | None \<Rightarrow> False)"

definition set_checkpoints :: "checkpoint \<Rightarrow> checkpoint \<Rightarrow> proto_array \<Rightarrow> proto_array" where
  "set_checkpoints justified_checkpoint finalized_checkpoint pa =
     (if justified_checkpoint \<noteq> pa_justified_checkpoint pa
        \<or> finalized_checkpoint \<noteq> pa_finalized_checkpoint pa
      then pa\<lparr>pa_justified_checkpoint := justified_checkpoint,
              pa_finalized_checkpoint := finalized_checkpoint\<rparr>
      else pa)"

definition fc_find_head_gloas ::
    "eth_spec \<Rightarrow> fork_choice \<Rightarrow> checkpoint \<Rightarrow> checkpoint \<Rightarrow> justified_balances \<Rightarrow> hash256
     \<Rightarrow> u64 list \<Rightarrow> slot \<Rightarrow> chain_spec
     \<Rightarrow> (fc_error \<times> fork_choice) + hash256 \<times> fork_choice" where
  "fc_find_head_gloas E fc justified_checkpoint finalized_checkpoint new_balances
       proposer_boost_root equivocating current_slot spec =
     (let fc1 = fc\<lparr>fc_votes := apply_vote_updates (fc_votes fc)
                    (effective_balances (fc_balances fc)) (effective_balances new_balances)
                    equivocating,
                  fc_proto_array := set_checkpoints justified_checkpoint finalized_checkpoint
                    (fc_proto_array fc)\<rparr>
      in find_head_gloas E (maybe_update_balances fc1 new_balances) justified_checkpoint
           proposer_boost_root equivocating current_slot spec)"

definition fc_find_head_ffg ::
    "eth_spec \<Rightarrow> fork_choice \<Rightarrow> checkpoint \<Rightarrow> checkpoint \<Rightarrow> justified_balances \<Rightarrow> hash256
     \<Rightarrow> u64 list \<Rightarrow> slot \<Rightarrow> chain_spec
     \<Rightarrow> (fc_error \<times> fork_choice) + hash256 \<times> fork_choice" where
  "fc_find_head_ffg E fc justified_checkpoint finalized_checkpoint new_balances
       proposer_boost_root equivocating current_slot spec =
     (case compute_deltas (pa_indices (fc_proto_array fc)) (fc_votes fc)
             (effective_balances (fc_balances fc)) (effective_balances new_balances)
             equivocating of
        Inl (e, votes) \<Rightarrow> Inl (FindHeadComputeDeltasError e, fc\<lparr>fc_votes := votes\<rparr>)
      | Inr (deltas, votes) \<Rightarrow>
          bind_r (lift_pa FindHeadApplyScoreChangesError (fc\<lparr>fc_votes := votes\<rparr>)
                    (apply_score_changes E (fc_proto_array fc) deltas justified_checkpoint
                       finalized_checkpoint new_balances proposer_boost_root current_slot spec))
            (\<lambda>fc1.
          let fc2 = (maybe_update_balances fc1 new_balances)\<lparr>fc_gloas_head_payload_status := None\<rparr>
          in bind_r (with_state fc2 (map_err FindHeadError
                       (find_head E (fc_proto_array fc2) (cp_root justified_checkpoint)
                          current_slot)))
               (\<lambda>head. Inr (head, fc2))))"

definition fc_find_head ::
    "eth_spec \<Rightarrow> fork_choice \<Rightarrow> checkpoint \<Rightarrow> checkpoint \<Rightarrow> justified_balances \<Rightarrow> hash256
     \<Rightarrow> u64 list \<Rightarrow> slot \<Rightarrow> chain_spec
     \<Rightarrow> (fc_error \<times> fork_choice) + hash256 \<times> fork_choice" where
  "fc_find_head E fc justified_checkpoint finalized_checkpoint justified_state_balances
       proposer_boost_root equivocating current_slot spec =
     (if is_gloas_slot E spec current_slot
      then fc_find_head_gloas E fc justified_checkpoint finalized_checkpoint
             justified_state_balances proposer_boost_root equivocating current_slot spec
      else fc_find_head_ffg E fc justified_checkpoint finalized_checkpoint
             justified_state_balances proposer_boost_root equivocating current_slot spec)"

section \<open>Proposer re-orgs\<close>

datatype do_not_re_org =
    MissingHeadOrParentNode
  | MissingHeadFinalizedCheckpoint
  | ParentDistance
  | HeadDistance
  | ShufflingUnstable
  | DisallowedOffset u64
  | JustificationAndFinalizationNotCompetitive
  | ChainNotFinalizing u64
  | HeadNotWeak u64 u64
  | ParentNotStrong u64 u64
  | HeadNotLate
  | NotProposing
  | ReOrgsDisabled

datatype proposer_head_error = DoNotReOrg do_not_re_org | ProposerHeadError proto_error

record proposer_head_info =
  ph_head_node :: proto_node
  ph_parent_node :: proto_node
  ph_re_org_head_weight_threshold :: u64
  ph_re_org_parent_weight_threshold :: u64
  ph_current_slot :: slot

fun disallowed_offsets_new :: "eth_spec \<Rightarrow> u64 list \<Rightarrow> proto_error + u64 list" where
  "disallowed_offsets_new E offsets =
     (case find (\<lambda>offset. slots_per_epoch E \<le> offset) offsets of
        Some offset \<Rightarrow> Inl (InvalidEpochOffset offset)
      | None \<Rightarrow> Inr offsets)"

definition re_org_threshold ::
    "eth_spec \<Rightarrow> justified_balances \<Rightarrow> u64 \<Rightarrow> proposer_head_error + u64" where
  "re_org_threshold E balances pct =
     ok_or (calculate_committee_fraction E balances pct) (ProposerHeadError ReOrgThresholdOverflow)"

definition get_proposer_head_info ::
    "eth_spec \<Rightarrow> fork_choice \<Rightarrow> slot \<Rightarrow> hash256 \<Rightarrow> justified_balances \<Rightarrow> u64 \<Rightarrow> u64
     \<Rightarrow> u64 list \<Rightarrow> epoch \<Rightarrow> proposer_head_error + proposer_head_info" where
  "get_proposer_head_info E fc current_slot canonical_head balances head_threshold
       parent_threshold disallowed_offsets max_epochs_since_finalization =
     (case iter_nodes (fc_proto_array fc) canonical_head of
        head_node # parent_node # _ \<Rightarrow>
          (let re_org_block_slot = saturating_add (n_slot head_node) 1;
               proposal_epoch = slot_epoch E re_org_block_slot
           in case n_unrealized_finalized_checkpoint head_node of
                None \<Rightarrow> Inl (DoNotReOrg MissingHeadFinalizedCheckpoint)
              | Some finalized \<Rightarrow>
                  (let epochs_since_finalization =
                         saturating_sub proposal_epoch (cp_epoch finalized);
                       offset = re_org_block_slot mod slots_per_epoch E
                   in if max_epochs_since_finalization < epochs_since_finalization
                      then Inl (DoNotReOrg (ChainNotFinalizing epochs_since_finalization))
                      else if saturating_add (n_slot parent_node) 1 \<noteq> n_slot head_node
                      then Inl (DoNotReOrg ParentDistance)
                      else if offset = 0 then Inl (DoNotReOrg ShufflingUnstable)
                      else if offset \<in> set disallowed_offsets
                      then Inl (DoNotReOrg (DisallowedOffset offset))
                      else if \<not> (n_unrealized_justified_checkpoint parent_node
                                   = n_unrealized_justified_checkpoint head_node
                                 \<and> n_unrealized_finalized_checkpoint parent_node
                                   = n_unrealized_finalized_checkpoint head_node)
                      then Inl (DoNotReOrg JustificationAndFinalizationNotCompetitive)
                      else
                        bind_r (re_org_threshold E balances head_threshold) (\<lambda>ht.
                        bind_r (re_org_threshold E balances parent_threshold) (\<lambda>pt.
                        Inr \<lparr>ph_head_node = head_node, ph_parent_node = parent_node,
                             ph_re_org_head_weight_threshold = ht,
                             ph_re_org_parent_weight_threshold = pt,
                             ph_current_slot = current_slot\<rparr>))))
      | _ \<Rightarrow> Inl (DoNotReOrg MissingHeadOrParentNode))"

definition get_proposer_head ::
    "eth_spec \<Rightarrow> fork_choice \<Rightarrow> slot \<Rightarrow> hash256 \<Rightarrow> justified_balances \<Rightarrow> u64 \<Rightarrow> u64
     \<Rightarrow> u64 list \<Rightarrow> epoch \<Rightarrow> proposer_head_error + proposer_head_info" where
  "get_proposer_head E fc current_slot canonical_head balances head_threshold parent_threshold
       disallowed_offsets max_epochs_since_finalization =
     bind_r (get_proposer_head_info E fc current_slot canonical_head balances head_threshold
               parent_threshold disallowed_offsets max_epochs_since_finalization) (\<lambda>info.
       let head_weight = n_weight (ph_head_node info);
           parent_weight = n_weight (ph_parent_node info);
           ht = ph_re_org_head_weight_threshold info;
           pt = ph_re_org_parent_weight_threshold info
       in if saturating_add (n_slot (ph_head_node info)) 1 \<noteq> current_slot
          then Inl (DoNotReOrg HeadDistance)
          else if \<not> head_weight < ht then Inl (DoNotReOrg (HeadNotWeak head_weight ht))
          else if \<not> pt < parent_weight then Inl (DoNotReOrg (ParentNotStrong parent_weight pt))
          else Inr info)"

section \<open>Resetting payload statuses\<close>

definition contains_invalid_payloads :: "fork_choice \<Rightarrow> bool" where
  "contains_invalid_payloads fc =
     list_ex (\<lambda>n. is_invalid (n_execution_status n)) (pa_nodes (fc_proto_array fc))"

text \<open>The balances of the validators whose current vote is the given root; the sum wraps.\<close>

fun votes_for_root :: "hash256 \<Rightarrow> u64 list \<Rightarrow> usize \<Rightarrow> vote_tracker list \<Rightarrow> u64" where
  "votes_for_root root balances i [] = 0"
| "votes_for_root root balances i (v # vs) =
     (if vt_current_root v = root then nth_or balances i 0 else 0)
     + votes_for_root root balances (Suc i) vs"

text \<open>The inner loop: add the weight to a node and all its ancestors.\<close>

fun add_weight_to_chain ::
    "nat \<Rightarrow> proto_array \<Rightarrow> usize \<Rightarrow> u64 \<Rightarrow> (fc_error, proto_array) outcome" where
  "add_weight_to_chain 0 pa i w = Inr pa"
| "add_weight_to_chain (Suc fuel) pa i w =
     (case nth_opt (pa_nodes pa) i of
        None \<Rightarrow> Inl (MissingParentIndex i, pa)
      | Some node \<Rightarrow>
          (case checked_add (n_weight node) w of
             None \<Rightarrow> Inl (OverflowAddingWeight, pa)
           | Some w' \<Rightarrow>
               (let pa' = set_node pa i (node\<lparr>n_weight := w'\<rparr>)
                in case n_parent node of
                     Some p \<Rightarrow> add_weight_to_chain fuel pa' p w
                   | None \<Rightarrow> Inr pa')))"

definition restore_invalid_node ::
    "eth_spec \<Rightarrow> chain_spec \<Rightarrow> fork_choice \<Rightarrow> usize \<Rightarrow> proto_node \<Rightarrow> exec_block_hash
     \<Rightarrow> (fc_error, proto_array) outcome" where
  "restore_invalid_node E spec fc i node h =
     (let pa1 = set_node (fc_proto_array fc) i (node\<lparr>n_execution_status := Optimistic h\<rparr>);
          votes_weight = votes_for_root (n_root node) (effective_balances (fc_balances fc)) 0
                           (fc_votes fc)
      in bind_r
           (case proposer_score_boost spec of
              Some pct \<Rightarrow>
                if pb_root (pa_previous_proposer_boost pa1) = n_root node then
                  (case calculate_committee_fraction E (fc_balances fc) pct of
                     None \<Rightarrow> Inl (FailedProposerBoost, pa1)
                   | Some score \<Rightarrow>
                       (let pa2 = pa1\<lparr>pa_previous_proposer_boost :=
                                   (pa_previous_proposer_boost pa1)\<lparr>pb_score := score\<rparr>\<rparr>
                        in case checked_add votes_weight score of
                             None \<Rightarrow> Inl (OverflowAddingBoost, pa2)
                           | Some w \<Rightarrow> Inr (pa2, w)))
                else Inr (pa1, votes_weight)
            | None \<Rightarrow> Inr (pa1, votes_weight))
           (\<lambda>(pa2, restored_weight).
              if 0 < restored_weight
              then add_weight_to_chain (length (pa_nodes pa2)) pa2 i restored_weight
              else Inr pa2))"

fun set_optimistic_loop ::
    "eth_spec \<Rightarrow> chain_spec \<Rightarrow> nat \<Rightarrow> fork_choice \<Rightarrow> (fc_error, fork_choice) outcome" where
  "set_optimistic_loop E spec 0 fc = Inr fc"
| "set_optimistic_loop E spec (Suc i) fc =
     (case nth_opt (pa_nodes (fc_proto_array fc)) i of
        None \<Rightarrow> Inl (UnreachableIndex, fc)
      | Some node \<Rightarrow>
          (case (case n_execution_status node of
                   Invalid h \<Rightarrow> restore_invalid_node E spec fc i node h
                 | Valid h \<Rightarrow>
                     Inr (set_node (fc_proto_array fc) i
                            (node\<lparr>n_execution_status := Optimistic h\<rparr>))
                 | Optimistic h \<Rightarrow>
                     Inr (set_node (fc_proto_array fc) i
                            (node\<lparr>n_execution_status := Optimistic h\<rparr>))
                 | Irrelevant _ \<Rightarrow> Inr (fc_proto_array fc)) of
             Inl (e, pa) \<Rightarrow> Inl (e, fc\<lparr>fc_proto_array := pa\<rparr>)
           | Inr pa \<Rightarrow> set_optimistic_loop E spec i (fc\<lparr>fc_proto_array := pa\<rparr>)))"

definition set_all_blocks_to_optimistic ::
    "eth_spec \<Rightarrow> fork_choice \<Rightarrow> chain_spec \<Rightarrow> (fc_error, fork_choice) outcome" where
  "set_all_blocks_to_optimistic E fc spec =
     set_optimistic_loop E spec (length (pa_nodes (fc_proto_array fc))) fc"

section \<open>Pruning and lookups\<close>

definition fc_maybe_prune :: "fork_choice \<Rightarrow> hash256 \<Rightarrow> (fc_error, fork_choice) outcome" where
  "fc_maybe_prune fc finalized_root =
     lift_pa MaybePruneError fc (maybe_prune (fc_proto_array fc) finalized_root)"

definition set_prune_threshold :: "fork_choice \<Rightarrow> usize \<Rightarrow> fork_choice" where
  "set_prune_threshold fc t =
     fc\<lparr>fc_proto_array := (fc_proto_array fc)\<lparr>pa_prune_threshold := t\<rparr>\<rparr>"

definition contains_block :: "fork_choice \<Rightarrow> hash256 \<Rightarrow> bool" where
  "contains_block fc block_root = hm_contains_key (pa_indices (fc_proto_array fc)) block_root"

definition contains_execution_block_hash :: "fork_choice \<Rightarrow> exec_block_hash \<Rightarrow> bool" where
  "contains_execution_block_hash fc h =
     (if h = 0 then True
      else list_ex (\<lambda>n. n_bid_block_hash n = Some h
                        \<or> status_block_hash (n_execution_status n) = Some h)
             (pa_nodes (fc_proto_array fc)))"

definition get_block :: "fork_choice \<Rightarrow> hash256 \<Rightarrow> block option" where
  "get_block fc block_root =
     map_option (\<lambda>n. \<lparr>
       b_slot = n_slot n,
       b_root = n_root n,
       b_parent_root =
         map_option n_root (Option.bind (n_parent n) (nth_opt (pa_nodes (fc_proto_array fc)))),
       b_state_root = n_state_root n,
       b_target_root = n_target_root n,
       b_current_epoch_shuffling_id = n_current_epoch_shuffling_id n,
       b_next_epoch_shuffling_id = n_next_epoch_shuffling_id n,
       b_justified_checkpoint = n_justified_checkpoint n,
       b_finalized_checkpoint = n_finalized_checkpoint n,
       b_execution_status = n_execution_status n,
       b_unrealized_justified_checkpoint = n_unrealized_justified_checkpoint n,
       b_unrealized_finalized_checkpoint = n_unrealized_finalized_checkpoint n,
       b_builder_index = n_builder_index n,
       b_payload_revealed = n_payload_revealed n,
       b_ptc_weight = n_ptc_weight n,
       b_ptc_blob_data_available_weight = n_ptc_blob_data_available_weight n,
       b_payload_data_available = n_payload_data_available n,
       b_bid_block_hash = n_bid_block_hash n,
       b_bid_parent_block_hash = n_bid_parent_block_hash n,
       b_proposer_index = n_proposer_index n,
       b_ptc_timely = n_ptc_timely n,
       b_envelope_received = n_envelope_received n,
       b_inclusion_list_satisfied = n_inclusion_list_satisfied n\<rparr>)
     (get_node (fc_proto_array fc) block_root)"

definition get_block_execution_status :: "fork_choice \<Rightarrow> hash256 \<Rightarrow> execution_status option" where
  "get_block_execution_status fc block_root =
     map_option n_execution_status (get_node (fc_proto_array fc) block_root)"

definition get_weight :: "fork_choice \<Rightarrow> hash256 \<Rightarrow> u64 option" where
  "get_weight fc block_root = map_option n_weight (get_node (fc_proto_array fc) block_root)"

definition latest_message :: "fork_choice \<Rightarrow> usize \<Rightarrow> (hash256 \<times> epoch) option" where
  "latest_message fc validator_index =
     (if validator_index < length (fc_votes fc) then
        let vote = fc_votes fc ! validator_index
        in if vote = vote_default then None
           else Some (vt_next_root vote, vt_next_epoch vote)
      else None)"

section \<open>The serialised container\<close>

record ssz_container =
  sc_votes :: "vote_tracker list"
  sc_prune_threshold :: usize
  sc_justified_checkpoint :: checkpoint
  sc_finalized_checkpoint :: checkpoint
  sc_nodes :: "proto_node list"
  sc_indices :: "(hash256 \<times> usize) list"
  sc_previous_proposer_boost :: proposer_boost

definition as_ssz_container :: "fork_choice \<Rightarrow> ssz_container" where
  "as_ssz_container fc =
     (let pa = fc_proto_array fc
      in \<lparr>sc_votes = fc_votes fc,
          sc_prune_threshold = pa_prune_threshold pa,
          sc_justified_checkpoint = pa_justified_checkpoint pa,
          sc_finalized_checkpoint = pa_finalized_checkpoint pa,
          sc_nodes = pa_nodes pa,
          sc_indices = pa_indices pa,
          sc_previous_proposer_boost = pa_previous_proposer_boost pa\<rparr>)"

text \<open>\<^verbatim>\<open>collect::<HashMap<_, _>>()\<close> inserts the pairs one by one.\<close>

definition from_container :: "ssz_container \<Rightarrow> justified_balances \<Rightarrow> fork_choice" where
  "from_container c balances =
     from_parts
       \<lparr>pa_prune_threshold = sc_prune_threshold c,
        pa_justified_checkpoint = sc_justified_checkpoint c,
        pa_finalized_checkpoint = sc_finalized_checkpoint c,
        pa_nodes = sc_nodes c,
        pa_indices = fold (\<lambda>(k, v) m. hm_insert m k v) (sc_indices c) [],
        pa_previous_proposer_boost = sc_previous_proposer_boost c\<rparr>
       (sc_votes c) balances"

end
