(* ===== verification/Sample_Chain.thy ===== *)
theory Sample_Chain
  imports Fork_Choice
begin

text \<open>
  Concrete inputs at which the properties of the development are instantiated: a genesis block and
  small block trees grown from it with \<^verbatim>\<open>process_block\<close>, a chain specification, balances.
\<close>

definition sample_checkpoint :: checkpoint where
  "sample_checkpoint = \<lparr>cp_epoch = 0, cp_root = 1\<rparr>"

definition sample_shuffling :: attestation_shuffling_id where
  "sample_shuffling = \<lparr>shuffling_epoch = 0, shuffling_decision_block = 1\<rparr>"

definition sample_spec :: "epoch option \<Rightarrow> chain_spec" where
  "sample_spec gloas_epoch = \<lparr>
     altair_fork_epoch = Some 0, bellatrix_fork_epoch = Some 0, capella_fork_epoch = Some 0,
     deneb_fork_epoch = Some 0, electra_fork_epoch = Some 0, fulu_fork_epoch = Some 0,
     gloas_fork_epoch = gloas_epoch, heze_fork_epoch = None,
     proposer_score_boost = Some 40, reorg_head_weight_threshold = Some 20, ptc_size = 512\<rparr>"

definition sample_block ::
    "hash256 \<Rightarrow> hash256 \<Rightarrow> slot \<Rightarrow> execution_status \<Rightarrow> block" where
  "sample_block root parent slot status =
     (anchor_block slot 0 sample_checkpoint sample_checkpoint sample_shuffling sample_shuffling
        status)\<lparr>b_root := root, b_parent_root := Some parent\<rparr>"

definition sample_genesis :: fork_choice where
  "sample_genesis =
     (case fork_choice_new MainnetEthSpec 0 0 0 sample_checkpoint sample_checkpoint sample_shuffling
             sample_shuffling (Irrelevant False) of
        Inr fc \<Rightarrow> fc
      | Inl _ \<Rightarrow> from_parts (empty_proto_array sample_checkpoint sample_checkpoint) []
                  justified_balances_default)"

fun process_blocks :: "fork_choice \<Rightarrow> (block \<times> slot) list \<Rightarrow> fork_choice" where
  "process_blocks fc [] = fc"
| "process_blocks fc ((b, s) # bs) =
     (case process_block MainnetEthSpec fc b s of
        Inr fc' \<Rightarrow> process_blocks fc' bs
      | Inl (_, fc') \<Rightarrow> process_blocks fc' bs)"

text \<open>Block 1 has the children 2 and 3, block 2 has the child 4.\<close>

definition sample_tree :: fork_choice where
  "sample_tree =
     process_blocks sample_genesis
       [(sample_block 2 1 1 (Optimistic 102), 1), (sample_block 3 1 1 (Optimistic 103), 1),
        (sample_block 4 2 2 (Optimistic 104), 2)]"

definition sample_balances :: justified_balances where
  "sample_balances =
     \<lparr>effective_balances = [3200, 3200, 3100], total_effective_balance = 9500, num_active_validators = 3\<rparr>"

text \<open>Validators 0 and 1 vote for block 4, validator 2 for block 3.\<close>

definition sample_votes :: fork_choice where
  "sample_votes =
     process_attestation
       (process_attestation (process_attestation sample_tree 0 4 0 2 False) 1 4 0 2 False)
       2 3 0 1 False"

text \<open>
  A Gloas chain: block 2 reveals its payload, block 3 builds on the full block 2, block 4 on the
  empty one. Validators 0 and 1 vote for block 3, validator 2 for block 4.
\<close>

definition sample_gloas_block ::
    "hash256 \<Rightarrow> hash256 \<Rightarrow> slot \<Rightarrow> exec_block_hash \<Rightarrow> exec_block_hash \<Rightarrow> bool \<Rightarrow> block" where
  "sample_gloas_block root parent slot bid bid_parent envelope =
     (sample_block root parent slot (Optimistic bid))\<lparr>
       b_builder_index := Some BUILDER_INDEX_SELF_BUILD, b_bid_block_hash := Some bid,
       b_bid_parent_block_hash := Some bid_parent, b_envelope_received := envelope,
       b_inclusion_list_satisfied := True\<rparr>"

definition sample_gloas :: fork_choice where
  "sample_gloas =
     (let fc = process_blocks sample_genesis
                 [(sample_gloas_block 2 1 1 202 201 True, 1), (sample_gloas_block 3 2 2 203 202 False, 2),
                  (sample_gloas_block 4 2 2 204 201 False, 2)]
      in process_attestation
           (process_attestation (process_attestation fc 0 3 0 2 False) 1 3 0 2 False) 2 4 0 2 False)"

end
