(* ===== verification/Fork_Choice_Findings.thy ===== *)
theory Fork_Choice_Findings
  imports Sample_Chain
begin

text \<open>
  Runs of the fork choice on which the code departs from what it means to do. Each is evaluated from the
  definitions: balances that are replaced only in part, and best links that keep pointing to
  invalidated blocks.
\<close>

definition head_run :: "justified_balances \<Rightarrow> slot \<Rightarrow> fork_choice \<Rightarrow> (fc_error \<times> fork_choice) + hash256 \<times> fork_choice" where
  "head_run bal s fc = fc_find_head MainnetEthSpec fc sample_checkpoint sample_checkpoint bal 0 [] s (sample_spec None)"

fun state_after :: "('e \<times> 's) + 'a \<times> 's \<Rightarrow> 's" where
  "state_after (Inl (_, s)) = s"
| "state_after (Inr (_, s)) = s"

fun kept_state :: "('e, 's) outcome \<Rightarrow> 's" where
  "kept_state (Inl (_, s)) = s"
| "kept_state (Inr s) = s"

definition weights :: "fork_choice \<Rightarrow> (hash256 \<times> u64) list" where
  "weights fc = map (\<lambda>n. (n_root n, n_weight n)) (pa_nodes (fc_proto_array fc))"

section \<open>Balances that only change places\<close>

text \<open>Validator 0 votes for block 2 and validator 1 for block 3; then 2 units move from validator 1 to validator 0.\<close>

definition split_votes :: fork_choice where
  "split_votes = process_attestation (process_attestation sample_tree 0 2 0 2 False) 1 3 0 2 False"

definition balances_before :: justified_balances where
  "balances_before = \<lparr>effective_balances = [31, 33, 0], total_effective_balance = 64, num_active_validators = 2\<rparr>"

definition balances_after :: justified_balances where
  "balances_after = \<lparr>effective_balances = [33, 31, 0], total_effective_balance = 64, num_active_validators = 2\<rparr>"

definition next_round :: "fork_choice \<Rightarrow> fork_choice" where
  "next_round fc = state_after (head_run balances_after 3 fc)"

text \<open>The weights of blocks 2 and 3 drift by 2 with every head selection, although neither votes nor balances
  change any more: the stored balances stay the old ones, because number, total and active count are
  the same.\<close>

theorem swapped_balances_drift:
  "(let fc1 = next_round (state_after (head_run balances_before 3 split_votes)); fc2 = next_round fc1
    in (weights fc1, weights fc2)) = ([(1, 64), (2, 33), (3, 31), (4, 0)], [(1, 64), (2, 35), (3, 29), (4, 0)])"
  by code_simp

section \<open>Best links to invalidated blocks\<close>

definition invalidate :: "invalidation_operation \<Rightarrow> fork_choice \<Rightarrow> fork_choice" where
  "invalidate op fc = kept_state (process_execution_payload_invalidation MainnetEthSpec fc op)"

definition head_root :: "(fc_error \<times> fork_choice) + hash256 \<times> fork_choice \<Rightarrow> hash256 option" where
  "head_root r = (case r of Inr (h, _) \<Rightarrow> Some h | Inl _ \<Rightarrow> None)"

definition viable_root :: "fork_choice \<Rightarrow> slot \<Rightarrow> hash256 \<Rightarrow> bool" where
  "viable_root fc s r = list_ex (\<lambda>n. n_root n = r \<and> node_is_viable_for_head MainnetEthSpec (fc_proto_array fc) n s)
     (pa_nodes (fc_proto_array fc))"

text \<open>Block 2, with a valid payload, has the children 3 and 4; both validators vote for 3.\<close>

definition two_children :: fork_choice where
  "two_children =
     (let fc = process_blocks sample_genesis
                 [(sample_block 2 1 1 (Valid 102), 1), (sample_block 3 2 2 (Optimistic 103), 2),
                  (sample_block 4 2 2 (Optimistic 104), 3)]
      in state_after (head_run balances_before 5
           (process_attestation (process_attestation fc 0 3 0 2 False) 1 3 0 2 False)))"

text \<open>When both children are invalidated one after the other, the head selection fails although block 2 is viable.\<close>

theorem invalid_children_block_head:
  "viable_root (invalidate (InvalidateOne 3) (invalidate (InvalidateOne 4) two_children)) 5 2
   \<and> head_root (head_run balances_before 5 (invalidate (InvalidateOne 3) (invalidate (InvalidateOne 4) two_children))) = None"
  by code_simp

text \<open>A chain 1, 2, 3, 4, 5, of which block 2 has a valid payload.\<close>

definition payload_chain :: fork_choice where
  "payload_chain = state_after (head_run balances_before 5
     (process_blocks sample_genesis
       [(sample_block 2 1 1 (Valid 102), 1), (sample_block 3 2 2 (Optimistic 103), 2),
        (sample_block 4 3 3 (Optimistic 104), 3), (sample_block 5 4 4 (Optimistic 105), 4)]))"

text \<open>When everything above the latest valid ancestor 2 is invalidated, the head selection fails although
  block 2 is viable.\<close>

theorem invalidated_chain_blocks_head:
  "viable_root (invalidate (InvalidateMany 4 True 102) payload_chain) 5 2
   \<and> head_root (head_run balances_before 5 (invalidate (InvalidateMany 4 True 102) payload_chain)) = None"
  by code_simp

end
