(* ===== verification/Slashing_Database.thy ===== *)
theory Slashing_Database
  imports Core_Types
begin

text \<open>
  The slashing protection database of the validator client,
  \<^verbatim>\<open>validator_client/slashing_protection/src\<close>: \<^verbatim>\<open>slashing_database.rs\<close>, \<^verbatim>\<open>signed_block.rs\<close>,
  \<^verbatim>\<open>signed_attestation.rs\<close>, \<^verbatim>\<open>lib.rs\<close>, and the interchange data of \<^verbatim>\<open>common/eip_3076\<close>.

  A table is the list of its rows in the order of insertion; an SQL statement of the source is the
  corresponding operation on that list, with its \<^verbatim>\<open>WHERE\<close> as a filter, its uniqueness constraint as
  an error and \<^verbatim>\<open>MIN\<close> of no rows as no value. A transaction works on a copy of the tables, which
  replaces them when it is committed and is dropped otherwise. Getting a connection and committing
  may fail at any time: \<open>txn_env\<close> says whether they do. The texts inside errors are left out.
\<close>

type_synonym pubkey = "384 word"
type_synonym signing_root = hash256

section \<open>Data\<close>

record signed_block =
  sb_slot :: slot
  sb_signing_root :: signing_root

datatype invalid_block =
    DoubleBlockProposal signed_block
  | SlotViolatesLowerBound slot slot

record signed_attestation =
  sat_source_epoch :: epoch
  sat_target_epoch :: epoch
  sat_signing_root :: signing_root

datatype invalid_attestation =
    DoubleVote signed_attestation
  | NewSurroundsPrev signed_attestation
  | PrevSurroundsNew signed_attestation
  | SourceExceedsTarget
  | SourceLessThanLowerBound epoch epoch
  | TargetLessThanOrEqLowerBound epoch epoch

datatype not_safe =
    UnregisteredValidator pubkey
  | DisabledValidator pubkey
  | InvalidBlock invalid_block
  | InvalidAttestation invalid_attestation
  | PermissionsError
  | IOError
  | SQLError
  | SQLPoolError
  | ConsistencyError

datatype safe = SameData | Valid

text \<open>\<^verbatim>\<open>SigningRoot\<close>: the null root is equal to nothing, itself included.\<close>

definition is_null :: "signing_root \<Rightarrow> bool" where
  "is_null r = (r = 0)"

definition signing_root_eq :: "signing_root \<Rightarrow> signing_root \<Rightarrow> bool" where
  "signing_root_eq a b = (\<not> is_null a \<and> a = b)"

definition signing_root_to_hash256 :: "signing_root \<Rightarrow> hash256 option" where
  "signing_root_to_hash256 r = (if is_null r then None else Some r)"

record validator_row =
  vr_id :: nat
  vr_public_key :: pubkey
  vr_enabled :: bool

record block_row =
  br_validator_id :: nat
  br_slot :: slot
  br_signing_root :: signing_root

record attestation_row =
  ar_validator_id :: nat
  ar_source_epoch :: epoch
  ar_target_epoch :: epoch
  ar_signing_root :: signing_root

record slashing_db =
  db_validators :: "validator_row list"
  db_signed_blocks :: "block_row list"
  db_signed_attestations :: "attestation_row list"

definition db_create :: slashing_db where
  "db_create = \<lparr>db_validators = [], db_signed_blocks = [], db_signed_attestations = []\<rparr>"

section \<open>Transactions\<close>

datatype sql_failure = PoolFailure | SqlFailure

record txn_env =
  env_begin :: "sql_failure option"
  env_commit :: "sql_failure option"

fun not_safe_from :: "sql_failure \<Rightarrow> not_safe" where
  "not_safe_from SqlFailure = SQLError"
| "not_safe_from PoolFailure = SQLPoolError"

definition with_transaction ::
    "txn_env \<Rightarrow> (slashing_db \<Rightarrow> (not_safe \<times> slashing_db) + 'a \<times> slashing_db) \<Rightarrow> slashing_db
     \<Rightarrow> (not_safe \<times> slashing_db) + 'a \<times> slashing_db" where
  "with_transaction env f db =
     (case env_begin env of
        Some e \<Rightarrow> Inl (not_safe_from e, db)
      | None \<Rightarrow>
          (case f db of
             Inl (e, _) \<Rightarrow> Inl (e, db)
           | Inr (v, db') \<Rightarrow>
               (case env_commit env of Some e \<Rightarrow> Inl (not_safe_from e, db) | None \<Rightarrow> Inr (v, db'))))"

text \<open>The calls that only read drop their transaction without a commit.\<close>

definition read_transaction :: "txn_env \<Rightarrow> (slashing_db \<Rightarrow> not_safe + 'a) \<Rightarrow> slashing_db \<Rightarrow> not_safe + 'a" where
  "read_transaction env f db = (case env_begin env of Some e \<Rightarrow> Inl (not_safe_from e) | None \<Rightarrow> f db)"

definition test_transaction :: "txn_env \<Rightarrow> slashing_db \<Rightarrow> not_safe + unit" where
  "test_transaction env = read_transaction env (\<lambda>_. Inr ())"

text \<open>\<^verbatim>\<open>to_sql\<close> of \<^verbatim>\<open>consensus/types/src/sqlite.rs\<close>: a slot or epoch that is not an \<^verbatim>\<open>i64\<close> is refused.\<close>

definition to_sql :: "u64 \<Rightarrow> not_safe + u64" where
  "to_sql v = (if unat v < 2 ^ 63 then Inr v else Inl SQLError)"

fun min_opt :: "u64 list \<Rightarrow> u64 option" where
  "min_opt [] = None"
| "min_opt (x # xs) = Some (foldl min x xs)"

fun max_opt :: "u64 list \<Rightarrow> u64 option" where
  "max_opt [] = None"
| "max_opt (x # xs) = Some (foldl max x xs)"

section \<open>Validators\<close>

definition get_validator_id_with_status :: "slashing_db \<Rightarrow> pubkey \<Rightarrow> (nat \<times> bool) option" where
  "get_validator_id_with_status db public_key =
     (case filter (\<lambda>r. vr_public_key r = public_key) (db_validators db) of
        [] \<Rightarrow> None
      | r # _ \<Rightarrow> Some (vr_id r, vr_enabled r))"

definition get_validator_id_in_txn :: "slashing_db \<Rightarrow> pubkey \<Rightarrow> not_safe + nat" where
  "get_validator_id_in_txn db public_key =
     bind_r (ok_or (get_validator_id_with_status db public_key) (UnregisteredValidator public_key))
       (\<lambda>(validator_id, enabled).
          if enabled then Inr validator_id else Inl (DisabledValidator public_key))"

definition get_validator_id_ignoring_status :: "slashing_db \<Rightarrow> pubkey \<Rightarrow> not_safe + nat" where
  "get_validator_id_ignoring_status db public_key =
     bind_r (ok_or (get_validator_id_with_status db public_key) (UnregisteredValidator public_key))
       (\<lambda>(validator_id, _). Inr validator_id)"

definition update_validator_status :: "slashing_db \<Rightarrow> nat \<Rightarrow> bool \<Rightarrow> slashing_db" where
  "update_validator_status db validator_id status =
     db\<lparr>db_validators := map (\<lambda>r. if vr_id r = validator_id then r\<lparr>vr_enabled := status\<rparr> else r)
                            (db_validators db)\<rparr>"

text \<open>The id that \<^verbatim>\<open>INTEGER PRIMARY KEY\<close> assigns: one more than the largest in use.\<close>

definition next_validator_id :: "slashing_db \<Rightarrow> nat" where
  "next_validator_id db = Suc (foldl max 0 (map vr_id (db_validators db)))"

fun register_validators_in_txn :: "pubkey list \<Rightarrow> slashing_db \<Rightarrow> slashing_db" where
  "register_validators_in_txn [] db = db"
| "register_validators_in_txn (pk # pks) db =
     register_validators_in_txn pks
       (case get_validator_id_with_status db pk of
          None \<Rightarrow>
            db\<lparr>db_validators := db_validators db
                 @ [\<lparr>vr_id = next_validator_id db, vr_public_key = pk, vr_enabled = True\<rparr>]\<rparr>
        | Some (validator_id, False) \<Rightarrow> update_validator_status db validator_id True
        | Some (_, True) \<Rightarrow> db)"

definition register_validators ::
    "txn_env \<Rightarrow> pubkey list \<Rightarrow> slashing_db \<Rightarrow> (not_safe \<times> slashing_db) + unit \<times> slashing_db" where
  "register_validators env pks = with_transaction env (\<lambda>db. Inr ((), register_validators_in_txn pks db))"

definition register_validator ::
    "txn_env \<Rightarrow> pubkey \<Rightarrow> slashing_db \<Rightarrow> (not_safe \<times> slashing_db) + unit \<times> slashing_db" where
  "register_validator env pk = register_validators env [pk]"

fun all_registered :: "pubkey list \<Rightarrow> slashing_db \<Rightarrow> not_safe + unit" where
  "all_registered [] db = Inr ()"
| "all_registered (pk # pks) db = bind_r (get_validator_id_in_txn db pk) (\<lambda>_. all_registered pks db)"

definition check_validator_registrations :: "txn_env \<Rightarrow> pubkey list \<Rightarrow> slashing_db \<Rightarrow> not_safe + unit" where
  "check_validator_registrations env pks = read_transaction env (all_registered pks)"

definition get_validator_id :: "txn_env \<Rightarrow> pubkey \<Rightarrow> slashing_db \<Rightarrow> not_safe + nat" where
  "get_validator_id env pk = read_transaction env (\<lambda>db. get_validator_id_in_txn db pk)"

section \<open>Checks\<close>

abbreviation blocks_of :: "slashing_db \<Rightarrow> nat \<Rightarrow> block_row list" where
  "blocks_of db v \<equiv> filter (\<lambda>r. br_validator_id r = v) (db_signed_blocks db)"

abbreviation atts_of :: "slashing_db \<Rightarrow> nat \<Rightarrow> attestation_row list" where
  "atts_of db v \<equiv> filter (\<lambda>r. ar_validator_id r = v) (db_signed_attestations db)"

definition block_from_row :: "block_row \<Rightarrow> signed_block" where
  "block_from_row r = \<lparr>sb_slot = br_slot r, sb_signing_root = br_signing_root r\<rparr>"

definition attestation_from_row :: "attestation_row \<Rightarrow> signed_attestation" where
  "attestation_from_row r = \<lparr>sat_source_epoch = ar_source_epoch r, sat_target_epoch = ar_target_epoch r,
     sat_signing_root = ar_signing_root r\<rparr>"

fun first_row :: "'a list \<Rightarrow> 'a option" where
  "first_row [] = None"
| "first_row (x # _) = Some x"

text \<open>\<^verbatim>\<open>ORDER BY target_epoch DESC LIMIT 1\<close>\<close>

definition latest_target :: "attestation_row list \<Rightarrow> attestation_row option" where
  "latest_target rs = first_row (rev (sort_key (\<lambda>r. unat (ar_target_epoch r)) rs))"

definition check_block_proposal :: "slashing_db \<Rightarrow> pubkey \<Rightarrow> slot \<Rightarrow> signing_root \<Rightarrow> not_safe + safe" where
  "check_block_proposal db pk slot signing_root =
     bind_r (get_validator_id_in_txn db pk) (\<lambda>validator_id.
     bind_r (to_sql slot) (\<lambda>_.
     case first_row (filter (\<lambda>r. br_slot r = slot) (blocks_of db validator_id)) of
       Some existing_block \<Rightarrow>
         if signing_root_eq (br_signing_root existing_block) signing_root then Inr SameData
         else Inl (InvalidBlock (DoubleBlockProposal (block_from_row existing_block)))
     | None \<Rightarrow>
         (case min_opt (map br_slot (blocks_of db validator_id)) of
            Some min_slot \<Rightarrow>
              if slot \<le> min_slot then Inl (InvalidBlock (SlotViolatesLowerBound slot min_slot)) else Inr Valid
          | None \<Rightarrow> Inr Valid)))"

definition check_lower_bounds :: "slashing_db \<Rightarrow> nat \<Rightarrow> epoch \<Rightarrow> epoch \<Rightarrow> not_safe + safe" where
  "check_lower_bounds db validator_id source target =
     bind_r (case min_opt (map ar_source_epoch (atts_of db validator_id)) of
               Some min_source \<Rightarrow>
                 if source < min_source
                 then Inl (InvalidAttestation (SourceLessThanLowerBound source min_source))
                 else Inr ()
             | None \<Rightarrow> Inr ()) (\<lambda>_.
     case min_opt (map ar_target_epoch (atts_of db validator_id)) of
       Some min_target \<Rightarrow>
         if target \<le> min_target
         then Inl (InvalidAttestation (TargetLessThanOrEqLowerBound target min_target))
         else Inr Valid
     | None \<Rightarrow> Inr Valid)"

definition check_attestation ::
    "slashing_db \<Rightarrow> pubkey \<Rightarrow> epoch \<Rightarrow> epoch \<Rightarrow> signing_root \<Rightarrow> not_safe + safe" where
  "check_attestation db pk source target signing_root =
     (if target < source then Inl (InvalidAttestation SourceExceedsTarget)
      else
        bind_r (get_validator_id_in_txn db pk) (\<lambda>validator_id.
        bind_r (to_sql target) (\<lambda>_.
        case first_row (filter (\<lambda>r. ar_target_epoch r = target) (atts_of db validator_id)) of
          Some existing \<Rightarrow>
            if signing_root_eq (ar_signing_root existing) signing_root then Inr SameData
            else Inl (InvalidAttestation (DoubleVote (attestation_from_row existing)))
        | None \<Rightarrow>
            bind_r (to_sql source) (\<lambda>_.
            case latest_target (filter (\<lambda>r. ar_source_epoch r < source \<and> target < ar_target_epoch r)
                                  (atts_of db validator_id)) of
              Some prev \<Rightarrow> Inl (InvalidAttestation (PrevSurroundsNew (attestation_from_row prev)))
            | None \<Rightarrow>
                (case latest_target (filter (\<lambda>r. source < ar_source_epoch r \<and> ar_target_epoch r < target)
                                       (atts_of db validator_id)) of
                   Some prev \<Rightarrow> Inl (InvalidAttestation (NewSurroundsPrev (attestation_from_row prev)))
                 | None \<Rightarrow> check_lower_bounds db validator_id source target)))))"

section \<open>Insertions\<close>

definition insert_block_proposal ::
    "slashing_db \<Rightarrow> pubkey \<Rightarrow> slot \<Rightarrow> signing_root \<Rightarrow> not_safe + slashing_db" where
  "insert_block_proposal db pk slot signing_root =
     bind_r (get_validator_id_in_txn db pk) (\<lambda>validator_id.
     bind_r (to_sql slot) (\<lambda>_.
     if list_ex (\<lambda>r. br_slot r = slot) (blocks_of db validator_id) then Inl SQLError
     else Inr (db\<lparr>db_signed_blocks := db_signed_blocks db
            @ [\<lparr>br_validator_id = validator_id, br_slot = slot, br_signing_root = signing_root\<rparr>]\<rparr>)))"

definition insert_attestation ::
    "slashing_db \<Rightarrow> pubkey \<Rightarrow> epoch \<Rightarrow> epoch \<Rightarrow> signing_root \<Rightarrow> not_safe + slashing_db" where
  "insert_attestation db pk source target signing_root =
     bind_r (get_validator_id_in_txn db pk) (\<lambda>validator_id.
     bind_r (to_sql source) (\<lambda>_.
     bind_r (to_sql target) (\<lambda>_.
     if list_ex (\<lambda>r. ar_target_epoch r = target) (atts_of db validator_id) then Inl SQLError
     else Inr (db\<lparr>db_signed_attestations := db_signed_attestations db
            @ [\<lparr>ar_validator_id = validator_id, ar_source_epoch = source, ar_target_epoch = target,
                ar_signing_root = signing_root\<rparr>]\<rparr>))))"

definition check_and_insert_block_signing_root_txn ::
    "pubkey \<Rightarrow> slot \<Rightarrow> signing_root \<Rightarrow> slashing_db \<Rightarrow> (not_safe \<times> slashing_db) + safe \<times> slashing_db" where
  "check_and_insert_block_signing_root_txn pk slot signing_root db =
     with_state db (bind_r (check_block_proposal db pk slot signing_root) (\<lambda>safe.
       if safe \<noteq> SameData
       then bind_r (insert_block_proposal db pk slot signing_root) (\<lambda>db'. Inr (safe, db'))
       else Inr (safe, db)))"

definition check_and_insert_block_signing_root ::
    "txn_env \<Rightarrow> pubkey \<Rightarrow> slot \<Rightarrow> signing_root \<Rightarrow> slashing_db
     \<Rightarrow> (not_safe \<times> slashing_db) + safe \<times> slashing_db" where
  "check_and_insert_block_signing_root env pk slot signing_root =
     with_transaction env (check_and_insert_block_signing_root_txn pk slot signing_root)"

definition check_and_insert_attestation_signing_root_txn ::
    "pubkey \<Rightarrow> epoch \<Rightarrow> epoch \<Rightarrow> signing_root \<Rightarrow> slashing_db
     \<Rightarrow> (not_safe \<times> slashing_db) + safe \<times> slashing_db" where
  "check_and_insert_attestation_signing_root_txn pk source target signing_root db =
     with_state db (bind_r (check_attestation db pk source target signing_root) (\<lambda>safe.
       if safe \<noteq> SameData
       then bind_r (insert_attestation db pk source target signing_root) (\<lambda>db'. Inr (safe, db'))
       else Inr (safe, db)))"

definition check_and_insert_attestation_signing_root ::
    "txn_env \<Rightarrow> pubkey \<Rightarrow> epoch \<Rightarrow> epoch \<Rightarrow> signing_root \<Rightarrow> slashing_db
     \<Rightarrow> (not_safe \<times> slashing_db) + safe \<times> slashing_db" where
  "check_and_insert_attestation_signing_root env pk source target signing_root =
     with_transaction env (check_and_insert_attestation_signing_root_txn pk source target signing_root)"

section \<open>Pruning\<close>

definition prune_signed_blocks :: "slot \<Rightarrow> pubkey \<Rightarrow> slashing_db \<Rightarrow> not_safe + slashing_db" where
  "prune_signed_blocks new_min_slot pk db =
     bind_r (get_validator_id_in_txn db pk) (\<lambda>validator_id.
     bind_r (to_sql new_min_slot) (\<lambda>_.
     let max_slot = max_opt (map br_slot (blocks_of db validator_id))
     in Inr (db\<lparr>db_signed_blocks :=
          filter (\<lambda>r. \<not> (br_validator_id r = validator_id \<and> br_slot r < new_min_slot
                         \<and> (case max_slot of Some m \<Rightarrow> br_slot r < m | None \<Rightarrow> False)))
            (db_signed_blocks db)\<rparr>)))"

definition prune_signed_attestations :: "epoch \<Rightarrow> pubkey \<Rightarrow> slashing_db \<Rightarrow> not_safe + slashing_db" where
  "prune_signed_attestations new_min_target pk db =
     bind_r (get_validator_id_in_txn db pk) (\<lambda>validator_id.
     bind_r (to_sql new_min_target) (\<lambda>_.
     let max_target = max_opt (map ar_target_epoch (atts_of db validator_id))
     in Inr (db\<lparr>db_signed_attestations :=
          filter (\<lambda>r. \<not> (ar_validator_id r = validator_id \<and> ar_target_epoch r < new_min_target
                         \<and> (case max_target of Some m \<Rightarrow> ar_target_epoch r < m | None \<Rightarrow> False)))
            (db_signed_attestations db)\<rparr>)))"

text \<open>\<^verbatim>\<open>try_for_each\<close> over the keys of a pruning call\<close>

fun try_for_each :: "('k \<Rightarrow> slashing_db \<Rightarrow> not_safe + slashing_db) \<Rightarrow> 'k list \<Rightarrow> slashing_db
    \<Rightarrow> (not_safe \<times> slashing_db) + unit \<times> slashing_db" where
  "try_for_each f [] db = Inr ((), db)"
| "try_for_each f (k # ks) db = bind_r (with_state db (f k db)) (try_for_each f ks)"

definition prune_all_signed_blocks ::
    "txn_env \<Rightarrow> pubkey list \<Rightarrow> slot \<Rightarrow> slashing_db \<Rightarrow> (not_safe \<times> slashing_db) + unit \<times> slashing_db" where
  "prune_all_signed_blocks env pks new_min_slot =
     with_transaction env (try_for_each (prune_signed_blocks new_min_slot) pks)"

definition prune_all_signed_attestations ::
    "txn_env \<Rightarrow> pubkey list \<Rightarrow> epoch \<Rightarrow> slashing_db \<Rightarrow> (not_safe \<times> slashing_db) + unit \<times> slashing_db" where
  "prune_all_signed_attestations env pks new_min_target =
     with_transaction env (try_for_each (prune_signed_attestations new_min_target) pks)"

section \<open>Summaries\<close>

record validator_summary =
  vs_min_block_slot :: "slot option"
  vs_max_block_slot :: "slot option"
  vs_min_attestation_source :: "epoch option"
  vs_min_attestation_target :: "epoch option"
  vs_max_attestation_source :: "epoch option"
  vs_max_attestation_target :: "epoch option"

definition get_validator_summary :: "pubkey \<Rightarrow> slashing_db \<Rightarrow> not_safe + validator_summary" where
  "get_validator_summary pk db =
     bind_r (get_validator_id_in_txn db pk) (\<lambda>validator_id.
     Inr \<lparr>vs_min_block_slot = min_opt (map br_slot (blocks_of db validator_id)),
          vs_max_block_slot = max_opt (map br_slot (blocks_of db validator_id)),
          vs_min_attestation_source = min_opt (map ar_source_epoch (atts_of db validator_id)),
          vs_min_attestation_target = min_opt (map ar_target_epoch (atts_of db validator_id)),
          vs_max_attestation_source = max_opt (map ar_source_epoch (atts_of db validator_id)),
          vs_max_attestation_target = max_opt (map ar_target_epoch (atts_of db validator_id))\<rparr>)"

definition max_or :: "u64 option \<Rightarrow> u64 \<Rightarrow> u64" where
  "max_or opt_x y = (case opt_x of None \<Rightarrow> y | Some x \<Rightarrow> max x y)"

definition monotonic :: "u64 option \<Rightarrow> u64 option \<Rightarrow> bool" where
  "monotonic new prev =
     (case new of None \<Rightarrow> False | Some n \<Rightarrow> (case prev of None \<Rightarrow> True | Some p \<Rightarrow> p \<le> n))"

definition check_block_consistency :: "validator_summary \<Rightarrow> validator_summary \<Rightarrow> bool \<Rightarrow> bool" where
  "check_block_consistency s prev imported_blocks =
     (if imported_blocks
      then monotonic (vs_max_block_slot s) (vs_max_block_slot prev) \<and> vs_min_block_slot s = vs_max_block_slot s
      else vs_min_block_slot prev = vs_min_block_slot s \<and> vs_max_block_slot prev = vs_max_block_slot s)"

definition check_attestation_consistency :: "validator_summary \<Rightarrow> validator_summary \<Rightarrow> bool \<Rightarrow> bool" where
  "check_attestation_consistency s prev imported_attestations =
     (if imported_attestations
      then monotonic (vs_max_attestation_source s) (vs_max_attestation_source prev)
           \<and> monotonic (vs_max_attestation_target s) (vs_max_attestation_target prev)
           \<and> vs_min_attestation_source s = vs_max_attestation_source s
           \<and> vs_min_attestation_target s = vs_max_attestation_target s
      else vs_min_attestation_source s = vs_min_attestation_source prev
           \<and> vs_max_attestation_source s = vs_max_attestation_source prev
           \<and> vs_min_attestation_target s = vs_min_attestation_target prev
           \<and> vs_max_attestation_target s = vs_max_attestation_target prev)"

section \<open>Interchange\<close>

record interchange_block =
  ib_slot :: slot
  ib_signing_root :: "hash256 option"

record interchange_attestation =
  ia_source_epoch :: epoch
  ia_target_epoch :: epoch
  ia_signing_root :: "hash256 option"

record interchange_data =
  id_pubkey :: pubkey
  id_signed_blocks :: "interchange_block list"
  id_signed_attestations :: "interchange_attestation list"

record interchange_metadata =
  im_interchange_format_version :: u64
  im_genesis_validators_root :: hash256

record interchange =
  in_metadata :: interchange_metadata
  in_data :: "interchange_data list"

datatype interchange_import_outcome =
    ImportSuccess pubkey validator_summary
  | ImportFailure pubkey not_safe

fun outcome_failed :: "interchange_import_outcome \<Rightarrow> bool" where
  "outcome_failed (ImportFailure _ _) = True"
| "outcome_failed (ImportSuccess _ _) = False"

datatype eip_3076_error = MaxInconsistent

datatype interchange_error =
    UnsupportedVersion u64
  | GenesisValidatorsMismatch hash256 hash256
  | Eip3076 eip_3076_error
  | SummaryInconsistent
  | InterchangeSQLError
  | InterchangeSQLPoolError
  | SerdeJsonError
  | InvalidPubkey
  | InterchangeNotSafe not_safe
  | AtomicBatchAborted "interchange_import_outcome list"

fun interchange_error_from :: "sql_failure \<Rightarrow> interchange_error" where
  "interchange_error_from SqlFailure = InterchangeSQLError"
| "interchange_error_from PoolFailure = InterchangeSQLPoolError"

definition SUPPORTED_INTERCHANGE_FORMAT_VERSION :: u64 where
  "SUPPORTED_INTERCHANGE_FORMAT_VERSION = 5"

definition clear_signed_blocks :: "pubkey \<Rightarrow> slashing_db \<Rightarrow> not_safe + slashing_db" where
  "clear_signed_blocks pk db =
     bind_r (get_validator_id_in_txn db pk) (\<lambda>validator_id.
     Inr (db\<lparr>db_signed_blocks := filter (\<lambda>r. br_validator_id r \<noteq> validator_id) (db_signed_blocks db)\<rparr>))"

definition clear_signed_attestations :: "pubkey \<Rightarrow> slashing_db \<Rightarrow> not_safe + slashing_db" where
  "clear_signed_attestations pk db =
     bind_r (get_validator_id_in_txn db pk) (\<lambda>validator_id.
     Inr (db\<lparr>db_signed_attestations :=
       filter (\<lambda>r. ar_validator_id r \<noteq> validator_id) (db_signed_attestations db)\<rparr>))"

definition import_blocks :: "validator_summary \<Rightarrow> interchange_data \<Rightarrow> slashing_db \<Rightarrow> (not_safe, slashing_db) outcome" where
  "import_blocks prev_summary rec db =
     (case max_opt (map ib_slot (id_signed_blocks rec)) of
        None \<Rightarrow> Inr db
      | Some max_slot \<Rightarrow>
          bind_r (with_state db (clear_signed_blocks (id_pubkey rec) db)) (\<lambda>db1.
          with_state db1 (insert_block_proposal db1 (id_pubkey rec)
            (max_or (vs_max_block_slot prev_summary) max_slot) 0)))"

definition import_attestations :: "validator_summary \<Rightarrow> interchange_data \<Rightarrow> slashing_db \<Rightarrow> (not_safe, slashing_db) outcome" where
  "import_attestations prev_summary rec db =
     (case (max_opt (map ia_source_epoch (id_signed_attestations rec)),
            max_opt (map ia_target_epoch (id_signed_attestations rec))) of
        (Some max_source, Some max_target) \<Rightarrow>
          bind_r (with_state db (clear_signed_attestations (id_pubkey rec) db)) (\<lambda>db1.
          with_state db1 (insert_attestation db1 (id_pubkey rec)
            (max_or (vs_max_attestation_source prev_summary) max_source)
            (max_or (vs_max_attestation_target prev_summary) max_target) 0))
      | _ \<Rightarrow> Inr db)"

definition import_interchange_record ::
    "interchange_data \<Rightarrow> slashing_db \<Rightarrow> (not_safe \<times> slashing_db) + validator_summary \<times> slashing_db" where
  "import_interchange_record rec db =
     (let db0 = register_validators_in_txn [id_pubkey rec] db
      in bind_r (with_state db0 (get_validator_summary (id_pubkey rec) db0)) (\<lambda>prev_summary.
         bind_r (import_blocks prev_summary rec db0) (\<lambda>db1.
         bind_r (import_attestations prev_summary rec db1) (\<lambda>db2.
         bind_r (with_state db2 (get_validator_summary (id_pubkey rec) db2)) (\<lambda>summary.
         if check_block_consistency summary prev_summary (id_signed_blocks rec \<noteq> [])
            \<and> check_attestation_consistency summary prev_summary (id_signed_attestations rec \<noteq> [])
         then Inr (summary, db2)
         else Inl (ConsistencyError, db2))))))"

fun import_records :: "interchange_data list \<Rightarrow> slashing_db \<Rightarrow> interchange_import_outcome list \<Rightarrow> bool
    \<Rightarrow> interchange_import_outcome list \<times> bool \<times> slashing_db" where
  "import_records [] db outcomes commit = (outcomes, commit, db)"
| "import_records (rec # rs) db outcomes commit =
     (case import_interchange_record rec db of
        Inr (summary, db') \<Rightarrow>
          import_records rs db' (outcomes @ [ImportSuccess (id_pubkey rec) summary]) commit
      | Inl (e, db') \<Rightarrow>
          import_records rs db' (outcomes @ [ImportFailure (id_pubkey rec) e]) False)"

definition import_interchange_info ::
    "txn_env \<Rightarrow> interchange \<Rightarrow> hash256 \<Rightarrow> slashing_db
     \<Rightarrow> (interchange_error \<times> slashing_db) + interchange_import_outcome list \<times> slashing_db" where
  "import_interchange_info env ic genesis_validators_root db =
     (if im_interchange_format_version (in_metadata ic) \<noteq> SUPPORTED_INTERCHANGE_FORMAT_VERSION
      then Inl (UnsupportedVersion (im_interchange_format_version (in_metadata ic)), db)
      else if genesis_validators_root \<noteq> im_genesis_validators_root (in_metadata ic)
      then Inl (GenesisValidatorsMismatch (im_genesis_validators_root (in_metadata ic)) genesis_validators_root, db)
      else case env_begin env of
             Some e \<Rightarrow> Inl (interchange_error_from e, db)
           | None \<Rightarrow>
               (case import_records (in_data ic) db [] True of
                  (outcomes, commit, db') \<Rightarrow>
                    if commit
                    then (case env_commit env of
                            Some e \<Rightarrow> Inl (interchange_error_from e, db)
                          | None \<Rightarrow> Inr (outcomes, db'))
                    else Inl (AtomicBatchAborted outcomes, db)))"

definition export_blocks :: "slashing_db \<Rightarrow> nat \<Rightarrow> interchange_block list" where
  "export_blocks db validator_id =
     map (\<lambda>r. \<lparr>ib_slot = br_slot r, ib_signing_root = signing_root_to_hash256 (br_signing_root r)\<rparr>)
       (sort_key (\<lambda>r. unat (br_slot r)) (blocks_of db validator_id))"

definition export_attestations :: "slashing_db \<Rightarrow> nat \<Rightarrow> interchange_attestation list" where
  "export_attestations db validator_id =
     map (\<lambda>r. \<lparr>ia_source_epoch = ar_source_epoch r, ia_target_epoch = ar_target_epoch r,
               ia_signing_root = signing_root_to_hash256 (ar_signing_root r)\<rparr>)
       (sort_key (\<lambda>r. unat (ar_source_epoch r))
          (sort_key (\<lambda>r. unat (ar_target_epoch r)) (atts_of db validator_id)))"

definition list_all_registered_validators :: "slashing_db \<Rightarrow> (nat \<times> pubkey) list" where
  "list_all_registered_validators db =
     map (\<lambda>r. (vr_id r, vr_public_key r)) (sort_key vr_id (db_validators db))"

fun ids_to_export :: "slashing_db \<Rightarrow> pubkey list \<Rightarrow> not_safe + (nat \<times> pubkey) list" where
  "ids_to_export db [] = Inr []"
| "ids_to_export db (pk # pks) =
     bind_r (get_validator_id_ignoring_status db pk) (\<lambda>v.
     bind_r (ids_to_export db pks) (\<lambda>vs. Inr ((v, pk) # vs)))"

definition export_interchange_info_in_txn ::
    "hash256 \<Rightarrow> pubkey list option \<Rightarrow> slashing_db \<Rightarrow> interchange_error + interchange" where
  "export_interchange_info_in_txn genesis_validators_root selected_pubkeys db =
     bind_r (case selected_pubkeys of
               Some pks \<Rightarrow> map_err InterchangeNotSafe (ids_to_export db pks)
             | None \<Rightarrow> Inr (list_all_registered_validators db)) (\<lambda>to_export.
     Inr \<lparr>in_metadata = \<lparr>im_interchange_format_version = SUPPORTED_INTERCHANGE_FORMAT_VERSION,
                          im_genesis_validators_root = genesis_validators_root\<rparr>,
          in_data = map (\<lambda>(v, pk). \<lparr>id_pubkey = pk, id_signed_blocks = export_blocks db v,
                                     id_signed_attestations = export_attestations db v\<rparr>) to_export\<rparr>)"

definition export_interchange_info ::
    "txn_env \<Rightarrow> hash256 \<Rightarrow> pubkey list option \<Rightarrow> slashing_db \<Rightarrow> interchange_error + interchange" where
  "export_interchange_info env genesis_validators_root selected_pubkeys db =
     (case env_begin env of
        Some e \<Rightarrow> Inl (interchange_error_from e)
      | None \<Rightarrow> export_interchange_info_in_txn genesis_validators_root selected_pubkeys db)"

definition export_all_interchange_info :: "txn_env \<Rightarrow> hash256 \<Rightarrow> slashing_db \<Rightarrow> interchange_error + interchange" where
  "export_all_interchange_info env genesis_validators_root = export_interchange_info env genesis_validators_root None"

section \<open>Minification\<close>

definition interchange_equiv :: "interchange \<Rightarrow> interchange \<Rightarrow> bool" where
  "interchange_equiv a b = (in_metadata a = in_metadata b \<and> set (in_data a) = set (in_data b))"

type_synonym max_data = "interchange_block option \<times> interchange_attestation option"

definition minify_attestation ::
    "u64 option \<Rightarrow> u64 option \<Rightarrow> interchange_attestation option \<Rightarrow> eip_3076_error + interchange_attestation option" where
  "minify_attestation max_source_epoch max_target_epoch max_attestation =
     (case (max_source_epoch, max_target_epoch) of
        (Some source_epoch, Some target_epoch) \<Rightarrow>
          Inr (Some (case max_attestation of
                 Some prev_max \<Rightarrow>
                   prev_max\<lparr>ia_source_epoch := max (ia_source_epoch prev_max) source_epoch,
                            ia_target_epoch := max (ia_target_epoch prev_max) target_epoch\<rparr>
               | None \<Rightarrow> \<lparr>ia_source_epoch = source_epoch, ia_target_epoch = target_epoch, ia_signing_root = None\<rparr>))
      | (None, None) \<Rightarrow> Inr max_attestation
      | _ \<Rightarrow> Inl MaxInconsistent)"

definition minify_block :: "u64 option \<Rightarrow> interchange_block option \<Rightarrow> interchange_block option" where
  "minify_block max_block_slot max_block =
     (case max_block_slot of
        None \<Rightarrow> max_block
      | Some max_slot \<Rightarrow>
          Some (case max_block of
                  Some prev_max \<Rightarrow> prev_max\<lparr>ib_slot := max (ib_slot prev_max) max_slot\<rparr>
                | None \<Rightarrow> \<lparr>ib_slot = max_slot, ib_signing_root = None\<rparr>))"

fun minify_loop :: "interchange_data list \<Rightarrow> (pubkey \<times> max_data) list \<Rightarrow> eip_3076_error + (pubkey \<times> max_data) list" where
  "minify_loop [] validator_data = Inr validator_data"
| "minify_loop (data # ds) validator_data =
     (let (max_block, max_attestation) =
            (case hm_get validator_data (id_pubkey data) of Some e \<Rightarrow> e | None \<Rightarrow> (None, None))
      in bind_r (minify_attestation (max_opt (map ia_source_epoch (id_signed_attestations data)))
                   (max_opt (map ia_target_epoch (id_signed_attestations data))) max_attestation) (\<lambda>att.
         minify_loop ds (hm_insert validator_data (id_pubkey data)
           (minify_block (max_opt (map ib_slot (id_signed_blocks data))) max_block, att))))"

definition minify :: "interchange \<Rightarrow> eip_3076_error + interchange" where
  "minify ic =
     bind_r (minify_loop (in_data ic) []) (\<lambda>validator_data.
     Inr (ic\<lparr>in_data := map (\<lambda>(pk, maybe_block, maybe_att).
       \<lparr>id_pubkey = pk, id_signed_blocks = (case maybe_block of Some b \<Rightarrow> [b] | None \<Rightarrow> []),
        id_signed_attestations = (case maybe_att of Some a \<Rightarrow> [a] | None \<Rightarrow> [])\<rparr>) validator_data\<rparr>))"

end
