(* ===== verification/Slashing_Logs.thy ===== *)
theory Slashing_Logs
  imports Slashing_Database
begin

text \<open>
  What the slashing protection keeps for one validator: a log of signed messages, from which old
  entries are pruned and which an import replaces by one synthetic entry. The interface
  \<open>protected_log\<close> says when a message may be signed and why it then does not clash with any message
  signed or imported before, pruned or not. It is interpreted on the blocks and on the attestations
  of a validator.
\<close>

section \<open>Minima and maxima of columns\<close>

lemma foldl_min: "foldl min x xs \<in> set (x # xs) \<and> (\<forall>y \<in> set (x # xs). foldl min x xs \<le> y)"
  for x :: "'a :: linorder"
proof (induction xs rule: rev_induct)
  case (snoc y ys)
  then show ?case by (auto simp: min_def)
qed simp

lemma foldl_max: "foldl max x xs \<in> set (x # xs) \<and> (\<forall>y \<in> set (x # xs). y \<le> foldl max x xs)"
  for x :: "'a :: linorder"
proof (induction xs rule: rev_induct)
  case (snoc y ys)
  then show ?case by (auto simp: max_def)
qed simp

lemma min_opt_Some: "min_opt xs = Some m \<longleftrightarrow> m \<in> set xs \<and> (\<forall>y \<in> set xs. m \<le> y)"
proof (cases xs)
  case (Cons x ys)
  then show ?thesis using foldl_min [of x ys] by (auto intro: order_antisym)
qed simp

lemma max_opt_Some: "max_opt xs = Some m \<longleftrightarrow> m \<in> set xs \<and> (\<forall>y \<in> set xs. y \<le> m)"
proof (cases xs)
  case (Cons x ys)
  then show ?thesis using foldl_max [of x ys] by (auto intro: order_antisym)
qed simp

lemma opt_None [simp]: "min_opt xs = None \<longleftrightarrow> xs = []" "max_opt xs = None \<longleftrightarrow> xs = []"
  by (cases xs; simp)+

lemma max_optE:
  assumes "xs \<noteq> []"
  obtains m where "max_opt xs = Some m" and "m \<in> set xs" and "\<And>y. y \<in> set xs \<Longrightarrow> y \<le> m"
  using assms max_opt_Some [of xs] by (cases "max_opt xs") auto

lemma min_optE:
  assumes "xs \<noteq> []"
  obtains m where "min_opt xs = Some m" and "m \<in> set xs" and "\<And>y. y \<in> set xs \<Longrightarrow> m \<le> y"
  using assms min_opt_Some [of xs] by (cases "min_opt xs") auto

section \<open>The contract of a log\<close>

locale protected_log =
  fixes ok :: "'m list \<Rightarrow> bool"
    and covers :: "'m list \<Rightarrow> 'm \<Rightarrow> bool"
    and accepts :: "'m list \<Rightarrow> 'm \<Rightarrow> bool"
    and clash :: "'m \<Rightarrow> 'm \<Rightarrow> bool"
    and synthetic :: "'m \<Rightarrow> bool"
    and prune :: "u64 \<Rightarrow> 'm list \<Rightarrow> 'm list"
    and import_log :: "'m list \<Rightarrow> 'm list \<Rightarrow> 'm list"
  assumes ok_Nil: "ok []"
    and accept_safe: "ok rs \<Longrightarrow> accepts rs m \<Longrightarrow> covers rs m' \<Longrightarrow> \<not> clash m m'"
    and accept_ok: "ok rs \<Longrightarrow> accepts rs m \<Longrightarrow> ok (rs @ [m])"
    and accept_covers: "ok rs \<Longrightarrow> accepts rs m \<Longrightarrow> covers rs m' \<or> m' = m \<Longrightarrow> covers (rs @ [m]) m'"
    and prune_ok: "ok rs \<Longrightarrow> ok (prune b rs)"
    and prune_covers: "ok rs \<Longrightarrow> covers rs m \<Longrightarrow> covers (prune b rs) m"
    and prune_sub: "set (prune b rs) \<subseteq> set rs"
    and import_ok: "ms \<noteq> [] \<Longrightarrow> ok (import_log rs ms)"
    and import_covers: "ms \<noteq> [] \<Longrightarrow> ok rs \<Longrightarrow> covers rs m \<or> m \<in> set ms \<Longrightarrow> covers (import_log rs ms) m"
    and import_synthetic: "ms \<noteq> [] \<Longrightarrow> m \<in> set (import_log rs ms) \<Longrightarrow> synthetic m"
begin

text \<open>The logs that signing, pruning and importing give, with the messages signed or imported so far.\<close>

inductive logged :: "'m list \<Rightarrow> 'm set \<Rightarrow> bool" where
  fresh: "logged [] {}"
| sign: "logged rs H \<Longrightarrow> accepts rs m \<Longrightarrow> logged (rs @ [m]) (insert m H)"
| pruned: "logged rs H \<Longrightarrow> logged (prune b rs) H"
| imported: "logged rs H \<Longrightarrow> ms \<noteq> [] \<Longrightarrow> logged (import_log rs ms) (H \<union> set ms)"

lemma logged_covers: "logged rs H \<Longrightarrow> ok rs \<and> (\<forall>m \<in> H. covers rs m)"
proof (induction rule: logged.induct)
  case fresh
  then show ?case by (simp add: ok_Nil)
next
  case (sign rs H m)
  then show ?case by (auto intro: accept_ok accept_covers)
next
  case (pruned rs H b)
  then show ?case by (auto intro: prune_ok prune_covers)
next
  case (imported rs H ms)
  then show ?case by (auto intro: import_ok import_covers)
qed

lemma accepted_safe: "logged rs H \<Longrightarrow> accepts rs m \<Longrightarrow> m' \<in> H \<Longrightarrow> \<not> clash m m'"
  using logged_covers accept_safe by blast

lemma logged_origin: "logged rs H \<Longrightarrow> m \<in> set rs \<Longrightarrow> synthetic m \<or> m \<in> H"
proof (induction rule: logged.induct)
  case (pruned rs H b)
  then show ?case using prune_sub by blast
next
  case (imported rs H ms)
  then show ?case using import_synthetic by blast
qed auto

end

section \<open>Blocks\<close>

type_synonym block_msg = "slot \<times> signing_root"

definition block_ok :: "block_msg list \<Rightarrow> bool" where
  "block_ok rs = distinct (map fst rs)"

text \<open>A message is covered by an entry for its slot, or lies below all entries.\<close>

definition block_covers :: "block_msg list \<Rightarrow> block_msg \<Rightarrow> bool" where
  "block_covers rs m \<longleftrightarrow> fst m \<in> set (map fst rs) \<or> rs \<noteq> [] \<and> (\<forall>s \<in> set (map fst rs). fst m < s)"

definition block_accepts :: "block_msg list \<Rightarrow> block_msg \<Rightarrow> bool" where
  "block_accepts rs m \<longleftrightarrow> fst m \<notin> set (map fst rs) \<and> (rs = [] \<or> (\<exists>s \<in> set (map fst rs). s < fst m))"

definition block_clash :: "block_msg \<Rightarrow> block_msg \<Rightarrow> bool" where
  "block_clash m m' \<longleftrightarrow> fst m = fst m'"

definition block_prune :: "slot \<Rightarrow> block_msg list \<Rightarrow> block_msg list" where
  "block_prune b rs =
     filter (\<lambda>m. \<not> (fst m < b \<and> (case max_opt (map fst rs) of Some x \<Rightarrow> fst m < x | None \<Rightarrow> False))) rs"

definition block_import :: "block_msg list \<Rightarrow> block_msg list \<Rightarrow> block_msg list" where
  "block_import rs ms = [(max_or (max_opt (map fst rs)) (the (max_opt (map fst ms))), 0)]"

lemma block_prune_facts:
  assumes "rs \<noteq> []"
  shows "block_prune b rs \<noteq> []" "m \<in> set rs \<Longrightarrow> m \<notin> set (block_prune b rs) \<Longrightarrow> m' \<in> set (block_prune b rs) \<Longrightarrow> fst m < fst m'"
proof -
  obtain x where x: "max_opt (map fst rs) = Some x" "x \<in> set (map fst rs)" "\<And>y. y \<in> set (map fst rs) \<Longrightarrow> y \<le> x"
    using max_optE [of "map fst rs"] assms by auto
  then obtain m0 where "m0 \<in> set rs" "fst m0 = x" by auto
  then have "m0 \<in> set (block_prune b rs)" using x by (simp add: block_prune_def)
  then show "block_prune b rs \<noteq> []" by auto
  show "fst m < fst m'" if "m \<in> set rs" "m \<notin> set (block_prune b rs)" "m' \<in> set (block_prune b rs)"
    using that x by (auto simp: block_prune_def)
qed

lemma max_or_ge: "y \<le> max_or (max_opt xs) y" "x \<in> set xs \<Longrightarrow> x \<le> max_or (max_opt xs) y"
  by (auto simp: max_or_def max_opt_Some le_max_iff_disj split: option.splits)

lemma import_bound:
  assumes "ms \<noteq> []" and "(\<exists>x \<in> set rs. f m \<le> f x) \<or> m \<in> set ms"
  shows "f m \<le> max_or (max_opt (map f rs)) (the (max_opt (map f ms)))"
proof -
  obtain y where y: "max_opt (map f ms) = Some y" "\<And>z. z \<in> set (map f ms) \<Longrightarrow> z \<le> y"
    using max_optE [of "map f ms"] assms(1) by auto
  show ?thesis
  proof (cases "m \<in> set ms")
    case True
    then have "f m \<le> y" using y(2) by simp
    then show ?thesis using y(1) max_or_ge(1) [of y "map f rs"] by simp
  next
    case False
    then obtain x where "x \<in> set rs" "f m \<le> f x" using assms(2) by blast
    then show ?thesis using max_or_ge(2) [of "f x" "map f rs"] order_trans by fastforce
  qed
qed

lemma block_covers_above: "block_covers rs m \<Longrightarrow> \<exists>x \<in> set rs. fst m \<le> fst x"
  by (cases rs) (force simp: block_covers_def)+

interpretation block_log: protected_log block_ok block_covers block_accepts block_clash "\<lambda>m. snd m = 0"
  block_prune block_import
proof (unfold_locales, goal_cases)
  case 1
  then show ?case by (simp add: block_ok_def)
next
  case (2 rs m m')
  then show ?case by (force simp: block_accepts_def block_covers_def block_clash_def)
next
  case (3 rs m)
  then show ?case by (auto simp: block_ok_def block_accepts_def)
next
  case (4 rs m m')
  then show ?case by (auto simp: block_covers_def block_accepts_def)
next
  case (5 rs b)
  then show ?case by (simp add: block_ok_def block_prune_def distinct_map_filter)
next
  case (6 rs m b)
  then have rs: "rs \<noteq> []" by (auto simp: block_covers_def)
  have sub: "set (block_prune b rs) \<subseteq> set rs" by (auto simp: block_prune_def)
  show ?case
  proof (cases "fst m \<in> set (map fst rs)")
    case True
    then show ?thesis using block_prune_facts [OF rs] by (fastforce simp: block_covers_def)
  next
    case False
    then show ?thesis using 6 block_prune_facts(1) [OF rs] sub by (auto simp: block_covers_def)
  qed
next
  case (7 b rs)
  then show ?case by (auto simp: block_prune_def)
next
  case (8 ms rs)
  then show ?case by (simp add: block_ok_def block_import_def)
next
  case (9 ms rs m)
  then have "(\<exists>x \<in> set rs. fst m \<le> fst x) \<or> m \<in> set ms"
    using block_covers_above by blast
  then show ?case using import_bound [OF 9(1), of rs fst m] by (auto simp: block_covers_def block_import_def)
next
  case (10 ms m rs)
  then show ?case by (simp add: block_import_def)
qed

section \<open>Attestations\<close>

type_synonym att_msg = "epoch \<times> epoch \<times> signing_root"

abbreviation msg_source :: "att_msg \<Rightarrow> epoch" where
  "msg_source m \<equiv> fst m"

abbreviation msg_target :: "att_msg \<Rightarrow> epoch" where
  "msg_target m \<equiv> fst (snd m)"

definition surrounds :: "att_msg \<Rightarrow> att_msg \<Rightarrow> bool" where
  "surrounds m m' \<longleftrightarrow> msg_source m < msg_source m' \<and> msg_target m' < msg_target m"

definition att_ok :: "att_msg list \<Rightarrow> bool" where
  "att_ok rs \<longleftrightarrow> distinct (map msg_target rs) \<and> (\<forall>a \<in> set rs. \<forall>b \<in> set rs. \<not> surrounds a b)"

definition att_covers :: "att_msg list \<Rightarrow> att_msg \<Rightarrow> bool" where
  "att_covers rs m \<longleftrightarrow>
     (\<exists>x \<in> set rs. msg_source x = msg_source m \<and> msg_target x = msg_target m)
     \<or> rs \<noteq> [] \<and> (\<forall>x \<in> set rs. msg_source m \<le> msg_source x \<and> msg_target m \<le> msg_target x)"

definition att_accepts :: "att_msg list \<Rightarrow> att_msg \<Rightarrow> bool" where
  "att_accepts rs m \<longleftrightarrow>
     (\<forall>x \<in> set rs. msg_target x \<noteq> msg_target m \<and> \<not> surrounds x m \<and> \<not> surrounds m x)
     \<and> (rs = [] \<or> (\<exists>x \<in> set rs. msg_source x \<le> msg_source m) \<and> (\<exists>x \<in> set rs. msg_target x < msg_target m))"

definition att_clash :: "att_msg \<Rightarrow> att_msg \<Rightarrow> bool" where
  "att_clash m m' \<longleftrightarrow> msg_target m = msg_target m' \<or> surrounds m m' \<or> surrounds m' m"

definition att_prune :: "epoch \<Rightarrow> att_msg list \<Rightarrow> att_msg list" where
  "att_prune b rs =
     filter (\<lambda>m. \<not> (msg_target m < b
       \<and> (case max_opt (map msg_target rs) of Some x \<Rightarrow> msg_target m < x | None \<Rightarrow> False))) rs"

definition att_import :: "att_msg list \<Rightarrow> att_msg list \<Rightarrow> att_msg list" where
  "att_import rs ms = [(max_or (max_opt (map msg_source rs)) (the (max_opt (map msg_source ms))),
     max_or (max_opt (map msg_target rs)) (the (max_opt (map msg_target ms))), 0)]"

lemma att_prune_facts:
  assumes "rs \<noteq> []"
  shows "att_prune b rs \<noteq> []"
    "m \<in> set rs \<Longrightarrow> m \<notin> set (att_prune b rs) \<Longrightarrow> m' \<in> set (att_prune b rs) \<Longrightarrow> msg_target m < msg_target m'"
proof -
  obtain x where x: "max_opt (map msg_target rs) = Some x" "x \<in> set (map msg_target rs)"
    "\<And>y. y \<in> set (map msg_target rs) \<Longrightarrow> y \<le> x"
    using max_optE [of "map msg_target rs"] assms by auto
  then obtain m0 where "m0 \<in> set rs" "msg_target m0 = x" by auto
  then have "m0 \<in> set (att_prune b rs)" using x by (simp add: att_prune_def)
  then show "att_prune b rs \<noteq> []" by auto
  show "msg_target m < msg_target m'" if "m \<in> set rs" "m \<notin> set (att_prune b rs)" "m' \<in> set (att_prune b rs)"
    using that x by (auto simp: att_prune_def)
qed

lemma att_below:
  assumes "att_accepts rs m" and "rs \<noteq> []"
    and "\<forall>x \<in> set rs. msg_source m' \<le> msg_source x \<and> msg_target m' \<le> msg_target x"
  shows "msg_source m' \<le> msg_source m" "msg_target m' < msg_target m"
  using assms by (auto simp: att_accepts_def intro: order_trans le_less_trans)

lemma att_prune_covers:
  assumes ok: "att_ok rs" and m: "att_covers rs m"
  shows "att_covers (att_prune b rs) m"
proof -
  have rs: "rs \<noteq> []" using m by (auto simp: att_covers_def)
  have sub: "set (att_prune b rs) \<subseteq> set rs" by (auto simp: att_prune_def)
  show ?thesis
  proof (cases "\<exists>x \<in> set rs. msg_source x = msg_source m \<and> msg_target x = msg_target m")
    case True
    then obtain x where x: "x \<in> set rs" "msg_source x = msg_source m" "msg_target x = msg_target m" by blast
    show ?thesis
    proof (cases "x \<in> set (att_prune b rs)")
      case True
      then show ?thesis using x by (auto simp: att_covers_def)
    next
      case False
      have "msg_source m \<le> msg_source y \<and> msg_target m \<le> msg_target y" if y: "y \<in> set (att_prune b rs)" for y
      proof -
        have "msg_target x < msg_target y" using att_prune_facts(2) [OF rs x(1) False y] .
        moreover have "\<not> surrounds y x" using ok x(1) y sub by (auto simp: att_ok_def)
        ultimately show ?thesis using x by (auto simp: surrounds_def)
      qed
      then show ?thesis using att_prune_facts(1) [OF rs] by (auto simp: att_covers_def)
    qed
  next
    case False
    then show ?thesis using m att_prune_facts(1) [OF rs] sub by (auto simp: att_covers_def)
  qed
qed

lemma att_covers_above:
  "att_covers rs m \<Longrightarrow> \<exists>x \<in> set rs. msg_source m \<le> msg_source x \<and> msg_target m \<le> msg_target x"
  by (cases rs) (force simp: att_covers_def)+

lemma att_import_covers:
  assumes "ms \<noteq> []" and "att_covers rs m \<or> m \<in> set ms"
  shows "att_covers (att_import rs ms) m"
proof -
  have "(\<exists>x \<in> set rs. msg_source m \<le> msg_source x \<and> msg_target m \<le> msg_target x) \<or> m \<in> set ms"
    using assms(2) att_covers_above by blast
  then have "msg_source m \<le> max_or (max_opt (map msg_source rs)) (the (max_opt (map msg_source ms)))"
    "msg_target m \<le> max_or (max_opt (map msg_target rs)) (the (max_opt (map msg_target ms)))"
    using import_bound [OF assms(1), of rs msg_source m] import_bound [OF assms(1), of rs msg_target m]
    by blast+
  then show ?thesis by (simp add: att_covers_def att_import_def)
qed

interpretation att_log: protected_log att_ok att_covers att_accepts att_clash "\<lambda>m. snd (snd m) = 0"
  att_prune att_import
proof (unfold_locales, goal_cases)
  case 1
  then show ?case by (simp add: att_ok_def)
next
  case (2 rs m m')
  show ?case
  proof (cases "\<exists>x \<in> set rs. msg_source x = msg_source m' \<and> msg_target x = msg_target m'")
    case True
    then obtain x where rs: "x \<in> set rs" and x: "msg_source x = msg_source m'" "msg_target x = msg_target m'" by blast
    have "msg_target x \<noteq> msg_target m" "\<not> surrounds x m" "\<not> surrounds m x"
      using 2(2) rs by (auto simp: att_accepts_def)
    then show ?thesis using x by (auto simp: att_clash_def surrounds_def)
  next
    case False
    then have "rs \<noteq> []" "\<forall>x \<in> set rs. msg_source m' \<le> msg_source x \<and> msg_target m' \<le> msg_target x"
      using 2(3) by (auto simp: att_covers_def)
    from att_below [OF 2(2) this] show ?thesis by (auto simp: att_clash_def surrounds_def)
  qed
next
  case (3 rs m)
  then show ?case by (auto simp: att_ok_def att_accepts_def) (auto simp: surrounds_def)
next
  case (4 rs m m')
  show ?case
  proof (cases "m' = m \<or> (\<exists>x \<in> set rs. msg_source x = msg_source m' \<and> msg_target x = msg_target m')")
    case True
    then show ?thesis by (auto simp: att_covers_def)
  next
    case False
    then have rs: "rs \<noteq> []" "\<forall>x \<in> set rs. msg_source m' \<le> msg_source x \<and> msg_target m' \<le> msg_target x"
      using 4(3) by (auto simp: att_covers_def)
    then show ?thesis using att_below [OF 4(2) rs] by (auto simp: att_covers_def)
  qed
next
  case (5 rs b)
  then show ?case by (simp add: att_ok_def att_prune_def distinct_map_filter)
next
  case (6 rs m b)
  then show ?case by (rule att_prune_covers)
next
  case (7 b rs)
  then show ?case by (auto simp: att_prune_def)
next
  case (8 ms rs)
  then show ?case by (simp add: att_ok_def att_import_def surrounds_def)
next
  case (9 ms rs m)
  then show ?case by (intro att_import_covers)
next
  case (10 ms m rs)
  then show ?case by (simp add: att_import_def)
qed

end
