(* ===== verification/Guarded_Steps.thy ===== *)
theory Guarded_Steps
  imports Consensus_Prelude
begin

text \<open>
  Components whose operations may fail half way: what holds of the state that such an operation leaves
  behind, and the states that sequences of operations reach. The interface \<open>guarded_system\<close> is
  interpreted on the fork choice and on the deposit tree.
\<close>

section \<open>Invariants of fallible operations\<close>

text \<open>\<open>after P r\<close>: the state left behind by a fallible operation satisfies \<open>P\<close>.\<close>

fun after :: "('s \<Rightarrow> bool) \<Rightarrow> ('e, 's) outcome \<Rightarrow> bool" where
  "after P (Inl (e, s)) = P s"
| "after P (Inr s) = P s"

lemma after_bind:
  assumes "after P m" and "\<And>s. m = Inr s \<Longrightarrow> P s \<Longrightarrow> after P (f s)"
  shows "after P (bind_r m f)"
proof (cases m)
  case (Inl x)
  then show ?thesis using assms(1) by (cases x) simp
next
  case (Inr s)
  then show ?thesis using assms by simp
qed

lemma after_with_state:
  "after P (bind_r (with_state s m) f) \<longleftrightarrow> (case m of Inl _ \<Rightarrow> P s | Inr x \<Rightarrow> after P (f x))"
  by (cases m) simp_all

section \<open>Transition systems with failing steps\<close>

text \<open>
  What a client of a component with failing operations relies on: the initial states satisfy the
  invariant, and every operation keeps it whether it succeeds or not.
\<close>

locale guarded_system =
  fixes init :: "'s \<Rightarrow> bool"
    and apply_op :: "'op \<Rightarrow> 's \<Rightarrow> ('e, 's) outcome"
    and good :: "'s \<Rightarrow> bool"
  assumes init_good: "init s \<Longrightarrow> good s"
    and apply_good: "good s \<Longrightarrow> after good (apply_op a s)"
begin

inductive reachable :: "'s \<Rightarrow> bool" where
  start: "init s \<Longrightarrow> reachable s"
| ok: "reachable s \<Longrightarrow> apply_op a s = Inr s' \<Longrightarrow> reachable s'"
| failed: "reachable s \<Longrightarrow> apply_op a s = Inl (e, s') \<Longrightarrow> reachable s'"

lemma reachable_good: "reachable s \<Longrightarrow> good s"
proof (induction rule: reachable.induct)
  case (start s)
  then show ?case by (rule init_good)
next
  case (ok s a s')
  then show ?case using apply_good [of s a] by simp
next
  case (failed s a e s')
  then show ?case using apply_good [of s a] by simp
qed

fun run :: "'op list \<Rightarrow> 's \<Rightarrow> 's" where
  "run [] s = s"
| "run (a # as) s = run as (case apply_op a s of Inl (_, s') \<Rightarrow> s' | Inr s' \<Rightarrow> s')"

lemma reachable_run: "reachable s \<Longrightarrow> reachable (run as s)"
proof (induction as arbitrary: s)
  case Nil
  then show ?case by simp
next
  case (Cons a as)
  show ?case
  proof (cases "apply_op a s")
    case (Inl x)
    then show ?thesis using Cons reachable.failed by (cases x) fastforce
  next
    case (Inr s')
    then show ?thesis using Cons reachable.ok by fastforce
  qed
qed

end

end
