(* ===== verification/Slashing_Safety.thy ===== *)
theory Slashing_Safety
  imports Slashing_Logs Guarded_Steps
begin

text \<open>
  The slashing protection database as a transition system: one constructor of \<open>sp_op\<close> per call that
  changes it, each of which may also fail to open or commit its transaction. Beside the tables the
  state has the messages that each key signed or imported so far, which the code does not store once
  they are pruned. The tables of every reachable state are, key by key, a log of these messages.
\<close>

section \<open>The logs of a validator\<close>

definition block_rows :: "slashing_db \<Rightarrow> nat \<Rightarrow> block_msg list" where
  "block_rows db v = map (\<lambda>r. (br_slot r, br_signing_root r)) (blocks_of db v)"

definition att_rows :: "slashing_db \<Rightarrow> nat \<Rightarrow> att_msg list" where
  "att_rows db v = map (\<lambda>r. (ar_source_epoch r, ar_target_epoch r, ar_signing_root r)) (atts_of db v)"

lemma block_rows_slots: "map br_slot (blocks_of db v) = map fst (block_rows db v)"
  by (simp add: block_rows_def)

lemma att_rows_epochs:
  "map ar_source_epoch (atts_of db v) = map msg_source (att_rows db v)"
  "map ar_target_epoch (atts_of db v) = map msg_target (att_rows db v)"
  by (simp_all add: att_rows_def)

lemma rows_cong [simp]:
  "block_rows (db\<lparr>db_validators := vs\<rparr>) v = block_rows db v"
  "att_rows (db\<lparr>db_validators := vs\<rparr>) v = att_rows db v"
  "block_rows (db\<lparr>db_signed_attestations := as\<rparr>) v = block_rows db v"
  "att_rows (db\<lparr>db_signed_blocks := bs\<rparr>) v = att_rows db v"
  by (simp_all add: block_rows_def att_rows_def)

lemma first_row_Some: "first_row xs = Some x \<Longrightarrow> x \<in> set xs"
  by (cases xs) auto

lemma first_row_None [simp]: "first_row xs = None \<longleftrightarrow> xs = []"
  by (cases xs) auto

lemma latest_target_None [simp]: "latest_target rs = None \<longleftrightarrow> rs = []"
  by (simp add: latest_target_def) (metis length_0_conv length_sort)

section \<open>Ids\<close>

definition vid :: "slashing_db \<Rightarrow> pubkey \<Rightarrow> nat option" where
  "vid db pk = map_option fst (get_validator_id_with_status db pk)"

definition ids_ok :: "slashing_db \<Rightarrow> bool" where
  "ids_ok db \<longleftrightarrow> distinct (map vr_id (db_validators db)) \<and> distinct (map vr_public_key (db_validators db))
     \<and> br_validator_id ` set (db_signed_blocks db) \<subseteq> vr_id ` set (db_validators db)
     \<and> ar_validator_id ` set (db_signed_attestations db) \<subseteq> vr_id ` set (db_validators db)"

lemma lookup_row:
  assumes "get_validator_id_with_status db pk = Some (v, e)"
  obtains r where "r \<in> set (db_validators db)" and "vr_public_key r = pk" and "vr_id r = v" and "vr_enabled r = e"
proof -
  obtain r rs where r: "filter (\<lambda>r. vr_public_key r = pk) (db_validators db) = r # rs" "vr_id r = v" "vr_enabled r = e"
    using assms by (auto simp: get_validator_id_with_status_def split: list.splits)
  have "r \<in> set (filter (\<lambda>r. vr_public_key r = pk) (db_validators db))" unfolding r(1) by simp
  then have "r \<in> set (db_validators db)" "vr_public_key r = pk" by simp_all
  then show thesis using that r(2,3) by blast
qed

lemma lookup_None: "get_validator_id_with_status db pk = None \<longleftrightarrow> pk \<notin> vr_public_key ` set (db_validators db)"
proof -
  have "get_validator_id_with_status db pk = None \<longleftrightarrow> filter (\<lambda>r. vr_public_key r = pk) (db_validators db) = []"
    by (simp add: get_validator_id_with_status_def split: list.splits)
  then show ?thesis by (auto simp: filter_empty_conv)
qed

lemma vid_None: "vid db pk = None \<longleftrightarrow> pk \<notin> vr_public_key ` set (db_validators db)"
  by (simp add: vid_def lookup_None)

lemma vid_row:
  assumes "vid db pk = Some v"
  obtains r where "r \<in> set (db_validators db)" and "vr_public_key r = pk" and "vr_id r = v"
proof -
  obtain e where "get_validator_id_with_status db pk = Some (v, e)" using assms by (auto simp: vid_def)
  then show thesis by (rule lookup_row) (rule that)
qed

lemma vid_inj:
  assumes "ids_ok db" and "vid db pk = Some v" and "vid db pk' = Some v"
  shows "pk = pk'"
proof -
  obtain r where r: "r \<in> set (db_validators db)" "vr_public_key r = pk" "vr_id r = v"
    using assms(2) by (rule vid_row)
  obtain r' where "r' \<in> set (db_validators db)" "vr_public_key r' = pk'" "vr_id r' = v"
    using assms(3) by (rule vid_row)
  with r show ?thesis using assms(1) by (auto simp: ids_ok_def distinct_map inj_on_def)
qed

lemma get_id_iff: "get_validator_id_in_txn db pk = Inr v \<longleftrightarrow> get_validator_id_with_status db pk = Some (v, True)"
  by (cases "get_validator_id_with_status db pk") (auto simp: get_validator_id_in_txn_def split: if_splits)

lemma get_id_vid: "get_validator_id_in_txn db pk = Inr v \<Longrightarrow> vid db pk = Some v"
  by (simp add: get_id_iff vid_def)

lemma get_status_cong:
  "db_validators db' = db_validators db \<Longrightarrow> get_validator_id_with_status db' pk = get_validator_id_with_status db pk"
  by (simp add: get_validator_id_with_status_def)

lemma vid_cong: "db_validators db' = db_validators db \<Longrightarrow> vid db' = vid db"
  by (rule ext) (simp add: vid_def get_validator_id_with_status_def)

section \<open>The checks accept what the logs accept\<close>

lemma check_block_Valid:
  assumes "check_block_proposal db pk s r = Inr Valid"
  shows "\<exists>v. get_validator_id_in_txn db pk = Inr v \<and> unat s < 2 ^ 63 \<and> block_accepts (block_rows db v) (s, r)"
proof -
  obtain v where v: "get_validator_id_in_txn db pk = Inr v" "unat s < 2 ^ 63"
    using assms by (auto simp: check_block_proposal_def bind_r_eq_Inr to_sql_def split: if_splits)
  have none: "filter (\<lambda>r. br_slot r = s) (blocks_of db v) = []"
    using assms v by (auto simp: check_block_proposal_def to_sql_def split: option.splits if_splits)
  then have "s \<notin> set (map fst (block_rows db v))"
    by (auto simp: block_rows_def filter_empty_conv)
  moreover have "block_rows db v = [] \<or> (\<exists>x \<in> set (map fst (block_rows db v)). x < s)"
  proof (cases "block_rows db v")
    case (Cons m ms)
    then obtain x where x: "min_opt (map fst (block_rows db v)) = Some x" "x \<in> set (map fst (block_rows db v))"
      using min_optE [of "map fst (block_rows db v)"] by auto
    then have "\<not> s \<le> x" using assms v none
      by (auto simp: check_block_proposal_def to_sql_def block_rows_slots split: if_splits)
    then show ?thesis using x(2) by force
  qed simp
  ultimately show ?thesis using v by (auto simp: block_accepts_def)
qed

lemma check_block_SameData:
  assumes "check_block_proposal db pk s r = Inr SameData"
  shows "\<exists>v. get_validator_id_in_txn db pk = Inr v \<and> (s, r) \<in> set (block_rows db v) \<and> r \<noteq> 0"
proof -
  obtain v where v: "get_validator_id_in_txn db pk = Inr v" "unat s < 2 ^ 63"
    using assms by (auto simp: check_block_proposal_def bind_r_eq_Inr to_sql_def split: if_splits)
  obtain b where b: "first_row (filter (\<lambda>r. br_slot r = s) (blocks_of db v)) = Some b"
    "signing_root_eq (br_signing_root b) r"
    using assms v by (auto simp: check_block_proposal_def to_sql_def split: option.splits if_splits)
  have "b \<in> set (blocks_of db v)" "br_slot b = s" using first_row_Some [OF b(1)] by auto
  then show ?thesis using v b(2) by (force simp: block_rows_def signing_root_eq_def is_null_def)
qed

lemma check_att_steps:
  assumes "check_attestation db pk s t r = Inr Valid"
  shows "\<exists>v. get_validator_id_in_txn db pk = Inr v \<and> s \<le> t
    \<and> filter (\<lambda>x. ar_target_epoch x = t) (atts_of db v) = []
    \<and> filter (\<lambda>x. ar_source_epoch x < s \<and> t < ar_target_epoch x) (atts_of db v) = []
    \<and> filter (\<lambda>x. s < ar_source_epoch x \<and> ar_target_epoch x < t) (atts_of db v) = []
    \<and> check_lower_bounds db v s t = Inr Valid"
proof -
  obtain v where v: "get_validator_id_in_txn db pk = Inr v" "unat t < 2 ^ 63" "s \<le> t"
    using assms by (auto simp: check_attestation_def bind_r_eq_Inr to_sql_def not_less split: if_splits)
  have none: "filter (\<lambda>x. ar_target_epoch x = t) (atts_of db v) = []" and s: "unat s < 2 ^ 63"
    using assms v by (auto simp: check_attestation_def to_sql_def split: option.splits if_splits)
  show ?thesis using assms v none s
    by (auto simp: check_attestation_def to_sql_def split: option.splits if_splits)
qed

lemma check_att_Valid:
  assumes "check_attestation db pk s t r = Inr Valid"
  shows "\<exists>v. get_validator_id_in_txn db pk = Inr v \<and> s \<le> t \<and> att_accepts (att_rows db v) (s, t, r)"
proof -
  obtain v where v: "get_validator_id_in_txn db pk = Inr v" "s \<le> t"
    and c: "filter (\<lambda>x. ar_target_epoch x = t) (atts_of db v) = []"
      "filter (\<lambda>x. ar_source_epoch x < s \<and> t < ar_target_epoch x) (atts_of db v) = []"
      "filter (\<lambda>x. s < ar_source_epoch x \<and> ar_target_epoch x < t) (atts_of db v) = []"
    and low: "check_lower_bounds db v s t = Inr Valid"
    using check_att_steps [OF assms] by blast
  have "\<forall>x \<in> set (att_rows db v). msg_target x \<noteq> t \<and> \<not> surrounds x (s, t, r) \<and> \<not> surrounds (s, t, r) x"
    using c by (auto simp: att_rows_def surrounds_def filter_empty_conv)
  moreover have "att_rows db v = [] \<or> (\<exists>x \<in> set (att_rows db v). msg_source x \<le> s) \<and> (\<exists>x \<in> set (att_rows db v). msg_target x < t)"
  proof (cases "att_rows db v = []")
    case False
    then have ne: "map msg_source (att_rows db v) \<noteq> []" "map msg_target (att_rows db v) \<noteq> []" by simp_all
    obtain a where a: "min_opt (map msg_source (att_rows db v)) = Some a" "a \<in> set (map msg_source (att_rows db v))"
      using ne(1) by (rule min_optE)
    obtain b where b: "min_opt (map msg_target (att_rows db v)) = Some b" "b \<in> set (map msg_target (att_rows db v))"
      using ne(2) by (rule min_optE)
    have "\<not> s < a \<and> \<not> t \<le> b"
      using low a(1) b(1) by (auto simp: check_lower_bounds_def att_rows_epochs split: if_splits)
    then show ?thesis using a(2) b(2) by (force simp: not_less not_le)
  qed simp
  ultimately show ?thesis using v by (auto simp: att_accepts_def)
qed

lemma check_att_SameData:
  assumes "check_attestation db pk s t r = Inr SameData"
  shows "\<exists>v s'. get_validator_id_in_txn db pk = Inr v \<and> (s', t, r) \<in> set (att_rows db v) \<and> r \<noteq> 0"
proof -
  obtain v where v: "get_validator_id_in_txn db pk = Inr v" "unat t < 2 ^ 63" "\<not> t < s"
    using assms by (auto simp: check_attestation_def bind_r_eq_Inr to_sql_def split: if_splits)
  have low: "check_lower_bounds db v s t \<noteq> Inr SameData"
    by (auto simp: check_lower_bounds_def bind_r_eq_Inr split: option.splits if_splits)
  obtain b where b: "first_row (filter (\<lambda>x. ar_target_epoch x = t) (atts_of db v)) = Some b"
    "signing_root_eq (ar_signing_root b) r"
    using assms v low by (auto simp: check_attestation_def bind_r_eq_Inr split: option.splits if_splits)
  have "b \<in> set (atts_of db v)" "ar_target_epoch b = t" using first_row_Some [OF b(1)] by auto
  then show ?thesis using v b(2) by (force simp: att_rows_def signing_root_eq_def is_null_def)
qed

section \<open>Effect of the statements\<close>

text \<open>\<open>changed db db' v bs as\<close>: \<open>db'\<close> is \<open>db\<close> except that the logs of id \<open>v\<close> are \<open>bs\<close> and \<open>as\<close>.\<close>

definition changed :: "slashing_db \<Rightarrow> slashing_db \<Rightarrow> nat \<Rightarrow> block_msg list \<Rightarrow> att_msg list \<Rightarrow> bool" where
  "changed db db' v bs as \<longleftrightarrow> (ids_ok db \<longrightarrow> ids_ok db') \<and> vid db' = vid db
     \<and> (\<forall>w. block_rows db' w = (if w = v then bs else block_rows db w))
     \<and> (\<forall>w. att_rows db' w = (if w = v then as else att_rows db w))"

lemma changed_trans:
  "changed db db1 v bs as \<Longrightarrow> changed db1 db2 v bs' as' \<Longrightarrow> changed db db2 v bs' as'"
  by (simp add: changed_def)

lemma get_id_in_validators: "get_validator_id_in_txn db pk = Inr v \<Longrightarrow> v \<in> vr_id ` set (db_validators db)"
  using lookup_row [of db pk v True] by (auto simp: get_id_iff)

lemma insert_block_changes:
  assumes "insert_block_proposal db pk s r = Inr db'"
  shows "\<exists>v. get_validator_id_in_txn db pk = Inr v \<and> db_validators db' = db_validators db
    \<and> changed db db' v (block_rows db v @ [(s, r)]) (att_rows db v)"
proof -
  obtain v where v: "get_validator_id_in_txn db pk = Inr v"
    and db': "db' = db\<lparr>db_signed_blocks := db_signed_blocks db
      @ [\<lparr>br_validator_id = v, br_slot = s, br_signing_root = r\<rparr>]\<rparr>"
    using assms by (auto simp: insert_block_proposal_def bind_r_eq_Inr split: if_splits)
  have "vid db' = vid db" by (rule vid_cong) (simp add: db')
  moreover have "ids_ok db \<longrightarrow> ids_ok db'" using get_id_in_validators [OF v] by (auto simp: ids_ok_def db')
  ultimately have "changed db db' v (block_rows db v @ [(s, r)]) (att_rows db v)"
    by (simp add: changed_def db') (simp add: block_rows_def)
  then show ?thesis using v by (simp add: db')
qed

lemma insert_att_changes:
  assumes "insert_attestation db pk s t r = Inr db'"
  shows "\<exists>v. get_validator_id_in_txn db pk = Inr v \<and> db_validators db' = db_validators db
    \<and> changed db db' v (block_rows db v) (att_rows db v @ [(s, t, r)])"
proof -
  obtain v where v: "get_validator_id_in_txn db pk = Inr v"
    and db': "db' = db\<lparr>db_signed_attestations := db_signed_attestations db
      @ [\<lparr>ar_validator_id = v, ar_source_epoch = s, ar_target_epoch = t, ar_signing_root = r\<rparr>]\<rparr>"
    using assms by (auto simp: insert_attestation_def bind_r_eq_Inr split: if_splits)
  have "vid db' = vid db" by (rule vid_cong) (simp add: db')
  moreover have "ids_ok db \<longrightarrow> ids_ok db'" using get_id_in_validators [OF v] by (auto simp: ids_ok_def db')
  ultimately have "changed db db' v (block_rows db v) (att_rows db v @ [(s, t, r)])"
    by (simp add: changed_def db') (simp add: att_rows_def)
  then show ?thesis using v by (simp add: db')
qed

lemma filter_blocks_changes:
  assumes "db' = db\<lparr>db_signed_blocks := filter (\<lambda>r. \<not> (br_validator_id r = v \<and> P (br_slot r))) (db_signed_blocks db)\<rparr>"
  shows "changed db db' v (filter (\<lambda>m. \<not> P (fst m)) (block_rows db v)) (att_rows db v)"
proof -
  have "vid db' = vid db" by (rule vid_cong) (simp add: assms)
  moreover have "ids_ok db \<longrightarrow> ids_ok db'" by (auto simp: ids_ok_def assms)
  moreover have "block_rows db' w = (if w = v then filter (\<lambda>m. \<not> P (fst m)) (block_rows db v) else block_rows db w)" for w
    by (auto simp: block_rows_def assms filter_map comp_def intro!: arg_cong [of _ _ "map _"] filter_cong)
  ultimately show ?thesis by (simp add: changed_def) (simp add: assms)
qed

lemma filter_atts_changes:
  assumes "db' = db\<lparr>db_signed_attestations :=
      filter (\<lambda>r. \<not> (ar_validator_id r = v \<and> P (ar_target_epoch r))) (db_signed_attestations db)\<rparr>"
  shows "changed db db' v (block_rows db v) (filter (\<lambda>m. \<not> P (msg_target m)) (att_rows db v))"
proof -
  have "vid db' = vid db" by (rule vid_cong) (simp add: assms)
  moreover have "ids_ok db \<longrightarrow> ids_ok db'" by (auto simp: ids_ok_def assms)
  moreover have "att_rows db' w = (if w = v then filter (\<lambda>m. \<not> P (msg_target m)) (att_rows db v) else att_rows db w)" for w
    by (auto simp: att_rows_def assms filter_map comp_def intro!: arg_cong [of _ _ "map _"] filter_cong)
  ultimately show ?thesis by (simp add: changed_def) (simp add: assms)
qed

lemma prune_blocks_changes:
  assumes "prune_signed_blocks b pk db = Inr db'"
  shows "\<exists>v. get_validator_id_in_txn db pk = Inr v \<and> changed db db' v (block_prune b (block_rows db v)) (att_rows db v)"
proof -
  obtain v where v: "get_validator_id_in_txn db pk = Inr v"
    using assms by (auto simp: prune_signed_blocks_def bind_r_eq_Inr)
  have "changed db db' v (filter (\<lambda>m. \<not> (fst m < b
      \<and> (case max_opt (map br_slot (blocks_of db v)) of Some x \<Rightarrow> fst m < x | None \<Rightarrow> False))) (block_rows db v)) (att_rows db v)"
    using assms v by (intro filter_blocks_changes) (auto simp: prune_signed_blocks_def bind_r_eq_Inr Let_def)
  then show ?thesis using v by (auto simp: block_prune_def block_rows_slots)
qed

lemma prune_atts_changes:
  assumes "prune_signed_attestations b pk db = Inr db'"
  shows "\<exists>v. get_validator_id_in_txn db pk = Inr v \<and> changed db db' v (block_rows db v) (att_prune b (att_rows db v))"
proof -
  obtain v where v: "get_validator_id_in_txn db pk = Inr v"
    using assms by (auto simp: prune_signed_attestations_def bind_r_eq_Inr)
  have "changed db db' v (block_rows db v) (filter (\<lambda>m. \<not> (msg_target m < b
      \<and> (case max_opt (map ar_target_epoch (atts_of db v)) of Some x \<Rightarrow> msg_target m < x | None \<Rightarrow> False))) (att_rows db v))"
    using assms v by (intro filter_atts_changes) (auto simp: prune_signed_attestations_def bind_r_eq_Inr Let_def)
  then show ?thesis using v by (auto simp: att_prune_def att_rows_epochs)
qed

section \<open>Registration\<close>

lemma lookup_update_status:
  "get_validator_id_with_status (update_validator_status db v b) pk =
     map_option (\<lambda>(w, e). (w, if w = v then b else e)) (get_validator_id_with_status db pk)"
proof -
  let ?f = "\<lambda>r. if vr_id r = v then r\<lparr>vr_enabled := b\<rparr> else r"
  have "filter (\<lambda>r. vr_public_key r = pk) (map ?f (db_validators db)) =
      map ?f (filter (\<lambda>r. vr_public_key r = pk) (db_validators db))"
    by (simp add: filter_map comp_def if_distrib cong: if_cong)
  then show ?thesis
    by (auto simp: get_validator_id_with_status_def update_validator_status_def split: list.splits)
qed

lemma update_status_same:
  "vid (update_validator_status db v b) = vid db"
  "ids_ok (update_validator_status db v b) = ids_ok db"
  "block_rows (update_validator_status db v b) = block_rows db"
  "att_rows (update_validator_status db v b) = att_rows db"
proof -
  show "vid (update_validator_status db v b) = vid db"
    by (rule ext) (simp add: vid_def lookup_update_status option.map_comp comp_def case_prod_beta')
  have "map vr_id (db_validators (update_validator_status db v b)) = map vr_id (db_validators db)"
    "map vr_public_key (db_validators (update_validator_status db v b)) = map vr_public_key (db_validators db)"
    by (simp_all add: update_validator_status_def)
  moreover from this(1) have "vr_id ` set (db_validators (update_validator_status db v b)) = vr_id ` set (db_validators db)"
    by (metis set_map)
  ultimately show "ids_ok (update_validator_status db v b) = ids_ok db"
    by (simp add: ids_ok_def) (simp add: update_validator_status_def)
qed (rule ext, simp add: update_validator_status_def)+

lemma next_id_fresh: "next_validator_id db \<notin> vr_id ` set (db_validators db)"
  using foldl_max [of 0 "map vr_id (db_validators db)"] by (fastforce simp: next_validator_id_def)

abbreviation new_validator :: "slashing_db \<Rightarrow> pubkey \<Rightarrow> slashing_db" where
  "new_validator db pk \<equiv> db\<lparr>db_validators := db_validators db
     @ [\<lparr>vr_id = next_validator_id db, vr_public_key = pk, vr_enabled = True\<rparr>]\<rparr>"

lemma lookup_new_validator:
  assumes "get_validator_id_with_status db pk = None"
  shows "get_validator_id_with_status (new_validator db pk) pk' =
    (if pk' = pk then Some (next_validator_id db, True) else get_validator_id_with_status db pk')"
  using assms
  by (auto simp: get_validator_id_with_status_def split: list.splits)

lemma new_validator_ids_ok:
  assumes "ids_ok db" and "get_validator_id_with_status db pk = None"
  shows "ids_ok (new_validator db pk)"
  using assms next_id_fresh [of db] by (auto simp: ids_ok_def lookup_None)

lemma fresh_rows:
  assumes "ids_ok db" and "v \<notin> vr_id ` set (db_validators db)"
  shows "block_rows db v = []" "att_rows db v = []"
  using assms by (auto simp: ids_ok_def block_rows_def att_rows_def filter_empty_conv)

section \<open>The system\<close>

record history =
  signed_b :: "pubkey \<Rightarrow> block_msg set"
  signed_a :: "pubkey \<Rightarrow> att_msg set"

type_synonym sp_state = "slashing_db \<times> history"

datatype sp_op =
    SignBlock pubkey slot signing_root
  | SignAttestation pubkey epoch epoch signing_root
  | RegisterValidators "pubkey list"
  | SetStatus nat bool
  | PruneBlocks "pubkey list" slot
  | PruneAttestations "pubkey list" epoch
  | ImportInterchange interchange hash256

definition imported_blocks :: "interchange_data \<Rightarrow> block_msg list" where
  "imported_blocks rec = map (\<lambda>b. (ib_slot b, case ib_signing_root b of None \<Rightarrow> 0 | Some r \<Rightarrow> r)) (id_signed_blocks rec)"

definition imported_atts :: "interchange_data \<Rightarrow> att_msg list" where
  "imported_atts rec = map (\<lambda>a. (ia_source_epoch a, ia_target_epoch a,
     case ia_signing_root a of None \<Rightarrow> 0 | Some r \<Rightarrow> r)) (id_signed_attestations rec)"

definition add_blocks :: "pubkey \<Rightarrow> block_msg set \<Rightarrow> history \<Rightarrow> history" where
  "add_blocks pk ms h = h\<lparr>signed_b := (signed_b h)(pk := signed_b h pk \<union> ms)\<rparr>"

definition add_atts :: "pubkey \<Rightarrow> att_msg set \<Rightarrow> history \<Rightarrow> history" where
  "add_atts pk ms h = h\<lparr>signed_a := (signed_a h)(pk := signed_a h pk \<union> ms)\<rparr>"

definition add_record :: "interchange_data \<Rightarrow> history \<Rightarrow> history" where
  "add_record rec h = add_atts (id_pubkey rec) (set (imported_atts rec))
     (add_blocks (id_pubkey rec) (set (imported_blocks rec)) h)"

text \<open>A call on the tables, with the history it leaves; errors of a call keep the history.\<close>

fun with_history :: "('e \<Rightarrow> interchange_error) \<Rightarrow> ('a \<Rightarrow> history) \<Rightarrow> history
    \<Rightarrow> ('e \<times> slashing_db) + 'a \<times> slashing_db \<Rightarrow> (interchange_error, sp_state) outcome" where
  "with_history f g h (Inl (e, db)) = Inl (f e, (db, h))"
| "with_history f g h (Inr (x, db)) = Inr (db, g x)"

fun sp_apply :: "txn_env \<times> sp_op \<Rightarrow> sp_state \<Rightarrow> (interchange_error, sp_state) outcome" where
  "sp_apply (env, SignBlock pk s r) (db, h) =
     with_history InterchangeNotSafe (\<lambda>safe. if safe = Valid then add_blocks pk {(s, r)} h else h) h
       (check_and_insert_block_signing_root env pk s r db)"
| "sp_apply (env, SignAttestation pk s t r) (db, h) =
     with_history InterchangeNotSafe (\<lambda>safe. if safe = Valid then add_atts pk {(s, t, r)} h else h) h
       (check_and_insert_attestation_signing_root env pk s t r db)"
| "sp_apply (env, RegisterValidators pks) (db, h) =
     with_history InterchangeNotSafe (\<lambda>_. h) h (register_validators env pks db)"
| "sp_apply (env, SetStatus v b) (db, h) =
     with_history InterchangeNotSafe (\<lambda>_. h) h
       (with_transaction env (\<lambda>db. Inr ((), update_validator_status db v b)) db)"
| "sp_apply (env, PruneBlocks pks b) (db, h) =
     with_history InterchangeNotSafe (\<lambda>_. h) h (prune_all_signed_blocks env pks b db)"
| "sp_apply (env, PruneAttestations pks b) (db, h) =
     with_history InterchangeNotSafe (\<lambda>_. h) h (prune_all_signed_attestations env pks b db)"
| "sp_apply (env, ImportInterchange ic g) (db, h) =
     with_history (\<lambda>e. e) (\<lambda>_. fold add_record (in_data ic) h) h (import_interchange_info env ic g db)"

definition sp_init :: "sp_state \<Rightarrow> bool" where
  "sp_init s \<longleftrightarrow> s = (db_create, \<lparr>signed_b = (\<lambda>_. {}), signed_a = (\<lambda>_. {})\<rparr>)"

definition sp_good :: "sp_state \<Rightarrow> bool" where
  "sp_good s = (case s of (db, h) \<Rightarrow> ids_ok db
     \<and> (\<forall>pk. case vid db pk of
               None \<Rightarrow> signed_b h pk = {} \<and> signed_a h pk = {}
             | Some v \<Rightarrow> block_log.logged (block_rows db v) (signed_b h pk)
                        \<and> att_log.logged (att_rows db v) (signed_a h pk)))"

lemma sp_goodD:
  assumes "sp_good (db, h)" and "vid db pk = Some v"
  shows "block_log.logged (block_rows db v) (signed_b h pk)" "att_log.logged (att_rows db v) (signed_a h pk)"
  using assms by (auto simp: sp_good_def dest: spec [of _ pk])

lemma sp_good_changed:
  assumes good: "sp_good (db, h)" and v: "vid db pk = Some v" and ch: "changed db db' v bs as"
    and "block_log.logged bs (signed_b h' pk)" and "att_log.logged as (signed_a h' pk)"
    and other: "\<And>pk'. pk' \<noteq> pk \<Longrightarrow> signed_b h' pk' = signed_b h pk' \<and> signed_a h' pk' = signed_a h pk'"
  shows "sp_good (db', h')"
proof -
  have ids: "ids_ok db" "ids_ok db'" "vid db' = vid db" using good ch by (auto simp: sp_good_def changed_def)
  have "case vid db' pk' of None \<Rightarrow> signed_b h' pk' = {} \<and> signed_a h' pk' = {}
      | Some w \<Rightarrow> block_log.logged (block_rows db' w) (signed_b h' pk') \<and> att_log.logged (att_rows db' w) (signed_a h' pk')"
    for pk'
  proof (cases "pk' = pk")
    case True
    then show ?thesis using v ch assms(4,5) ids(3) by (simp add: changed_def)
  next
    case False
    then have "vid db pk' \<noteq> Some v" using vid_inj [OF ids(1) v] by blast
    then show ?thesis using good ch other [OF False] ids(3)
      by (auto simp: sp_good_def changed_def dest: spec [of _ pk'] split: option.splits)
  qed
  then show ?thesis using ids by (simp add: sp_good_def)
qed

lemma sp_good_same:
  assumes "sp_good (db, h)" and "vid db' = vid db" and "ids_ok db'" and "block_rows db' = block_rows db"
    and "att_rows db' = att_rows db"
  shows "sp_good (db', h)"
  using assms(1,3) unfolding sp_good_def prod.case assms(2,4,5) by blast

lemma sp_good_new:
  assumes good: "sp_good (db, h)" and pk: "get_validator_id_with_status db pk = None"
  shows "sp_good (new_validator db pk, h)"
proof -
  have ids: "ids_ok db" and h: "signed_b h pk = {}" "signed_a h pk = {}"
    using good pk by (auto simp: sp_good_def vid_def dest: spec [of _ pk])
  note fresh = fresh_rows [OF ids next_id_fresh]
  have vid': "vid (new_validator db pk) pk' = (if pk' = pk then Some (next_validator_id db) else vid db pk')" for pk'
    by (simp add: vid_def lookup_new_validator [OF pk])
  have rows: "block_rows (new_validator db pk) = block_rows db" "att_rows (new_validator db pk) = att_rows db"
    by (rule ext, simp)+
  show ?thesis
    using good new_validator_ids_ok [OF ids pk] h fresh block_log.logged.fresh att_log.logged.fresh
    unfolding sp_good_def prod.case rows vid' by simp
qed

lemma sp_good_ids: "sp_good (db, h) \<Longrightarrow> ids_ok db"
  by (simp add: sp_good_def)

lemma sp_good_status:
  assumes "sp_good (db, h)"
  shows "sp_good (update_validator_status db v b, h)"
  by (rule sp_good_same [OF assms]) (simp_all only: update_status_same sp_good_ids [OF assms])

lemma sp_good_register:
  "sp_good (db, h) \<Longrightarrow> sp_good (register_validators_in_txn pks db, h)"
proof (induction pks arbitrary: db)
  case (Cons pk pks)
  show ?case
  proof (cases "get_validator_id_with_status db pk")
    case None
    then show ?thesis using Cons.IH [OF sp_good_new [OF Cons.prems None]] by simp
  next
    case (Some p)
    obtain v e where p: "p = (v, e)" by (cases p)
    show ?thesis
    proof (cases e)
      case True
      then show ?thesis using Cons.IH [OF Cons.prems] Some p by simp
    next
      case False
      then show ?thesis using Cons.IH [OF sp_good_status [OF Cons.prems]] Some p by simp
    qed
  qed
qed simp

end
