(* ===== verification/Slashing_Properties.thy ===== *)
theory Slashing_Properties
  imports Slashing_Safety
begin

text \<open>
  The slashing protection never approves a slashable message: against everything that was signed or
  imported before, whatever was pruned in between and wherever a call failed.
\<close>

section \<open>Transactions\<close>

lemma transaction_ok: "with_transaction env f db = Inr (x, db') \<Longrightarrow> f db = Inr (x, db')"
  by (auto simp: with_transaction_def split: option.splits sum.splits)

lemma transaction_rollback: "with_transaction env f db = Inl (e, db') \<Longrightarrow> db' = db"
  by (auto simp: with_transaction_def split: option.splits sum.splits)

lemma with_history_after:
  assumes "\<And>e db'. r = Inl (e, db') \<Longrightarrow> P (db', h)" and "\<And>x db'. r = Inr (x, db') \<Longrightarrow> P (db', g x)"
  shows "after P (with_history f g h r)"
  using assms by (cases r) auto

section \<open>Signing\<close>

lemma history_add [simp]:
  "signed_b (add_blocks pk ms h) pk' = (if pk' = pk then signed_b h pk \<union> ms else signed_b h pk')"
  "signed_a (add_blocks pk ms h) = signed_a h"
  "signed_a (add_atts pk as h) pk' = (if pk' = pk then signed_a h pk \<union> as else signed_a h pk')"
  "signed_b (add_atts pk as h) = signed_b h"
  by (simp_all add: add_blocks_def add_atts_def)

lemma sign_block_good:
  assumes good: "sp_good (db, h)"
    and ok: "check_and_insert_block_signing_root_txn pk s r db = Inr (safe, db')"
  shows "sp_good (db', if safe = Valid then add_blocks pk {(s, r)} h else h)"
proof (cases safe)
  case SameData
  then show ?thesis using good ok
    by (auto simp: check_and_insert_block_signing_root_txn_def with_state_eq_Inr bind_r_eq_Inr split: if_splits)
next
  case Valid
  then have c: "check_block_proposal db pk s r = Inr Valid" and i: "insert_block_proposal db pk s r = Inr db'"
    using ok by (auto simp: check_and_insert_block_signing_root_txn_def with_state_eq_Inr bind_r_eq_Inr split: if_splits)
  obtain v where v: "get_validator_id_in_txn db pk = Inr v" "block_accepts (block_rows db v) (s, r)"
    using check_block_Valid [OF c] by blast
  then have ch: "changed db db' v (block_rows db v @ [(s, r)]) (att_rows db v)"
    using insert_block_changes [OF i] by auto
  note rows = sp_goodD [OF good get_id_vid [OF v(1)]]
  have "sp_good (db', add_blocks pk {(s, r)} h)"
    using block_log.logged.sign [OF rows(1) v(2)] rows(2)
    by (intro sp_good_changed [OF good get_id_vid [OF v(1)] ch]) simp_all
  then show ?thesis using Valid by simp
qed

lemma sign_att_good:
  assumes good: "sp_good (db, h)"
    and ok: "check_and_insert_attestation_signing_root_txn pk s t r db = Inr (safe, db')"
  shows "sp_good (db', if safe = Valid then add_atts pk {(s, t, r)} h else h)"
proof (cases safe)
  case SameData
  then show ?thesis using good ok
    by (auto simp: check_and_insert_attestation_signing_root_txn_def with_state_eq_Inr bind_r_eq_Inr split: if_splits)
next
  case Valid
  then have c: "check_attestation db pk s t r = Inr Valid" and i: "insert_attestation db pk s t r = Inr db'"
    using ok by (auto simp: check_and_insert_attestation_signing_root_txn_def with_state_eq_Inr bind_r_eq_Inr split: if_splits)
  obtain v where v: "get_validator_id_in_txn db pk = Inr v" "att_accepts (att_rows db v) (s, t, r)"
    using check_att_Valid [OF c] by blast
  then have ch: "changed db db' v (block_rows db v) (att_rows db v @ [(s, t, r)])"
    using insert_att_changes [OF i] by auto
  note rows = sp_goodD [OF good get_id_vid [OF v(1)]]
  have "sp_good (db', add_atts pk {(s, t, r)} h)"
    using att_log.logged.sign [OF rows(2) v(2)] rows(1)
    by (intro sp_good_changed [OF good get_id_vid [OF v(1)] ch]) simp_all
  then show ?thesis using Valid by simp
qed

section \<open>Pruning\<close>

lemma try_for_each_good:
  assumes "\<And>k db db'. sp_good (db, h) \<Longrightarrow> f k db = Inr db' \<Longrightarrow> sp_good (db', h)"
    and "sp_good (db, h)" and "try_for_each f ks db = Inr (u, db')"
  shows "sp_good (db', h)"
  using assms(2,3)
proof (induction ks arbitrary: db)
  case (Cons k ks)
  then show ?case using assms(1) by (auto simp: bind_r_eq_Inr with_state_eq_Inr)
qed simp

lemma prune_blocks_good:
  assumes good: "sp_good (db, h)" and "prune_signed_blocks b pk db = Inr db'"
  shows "sp_good (db', h)"
proof -
  obtain v where v: "get_validator_id_in_txn db pk = Inr v"
    "changed db db' v (block_prune b (block_rows db v)) (att_rows db v)"
    using prune_blocks_changes [OF assms(2)] by blast
  note rows = sp_goodD [OF good get_id_vid [OF v(1)]]
  show ?thesis using block_log.logged.pruned [OF rows(1)] rows(2)
    by (intro sp_good_changed [OF good get_id_vid [OF v(1)] v(2)]) simp_all
qed

lemma prune_atts_good:
  assumes good: "sp_good (db, h)" and "prune_signed_attestations b pk db = Inr db'"
  shows "sp_good (db', h)"
proof -
  obtain v where v: "get_validator_id_in_txn db pk = Inr v"
    "changed db db' v (block_rows db v) (att_prune b (att_rows db v))"
    using prune_atts_changes [OF assms(2)] by blast
  note rows = sp_goodD [OF good get_id_vid [OF v(1)]]
  show ?thesis using att_log.logged.pruned [OF rows(2)] rows(1)
    by (intro sp_good_changed [OF good get_id_vid [OF v(1)] v(2)]) simp_all
qed

section \<open>Importing\<close>

lemma imported_slots: "map ib_slot (id_signed_blocks rec) = map fst (imported_blocks rec)"
  "map ia_source_epoch (id_signed_attestations rec) = map msg_source (imported_atts rec)"
  "map ia_target_epoch (id_signed_attestations rec) = map msg_target (imported_atts rec)"
  by (simp_all add: imported_blocks_def imported_atts_def)

lemma clear_blocks_changes:
  assumes "clear_signed_blocks pk db = Inr db'"
  shows "\<exists>v. get_validator_id_in_txn db pk = Inr v \<and> db_validators db' = db_validators db
    \<and> changed db db' v [] (att_rows db v)"
proof -
  obtain v where v: "get_validator_id_in_txn db pk = Inr v"
    "db' = db\<lparr>db_signed_blocks := filter (\<lambda>r. \<not> (br_validator_id r = v \<and> True)) (db_signed_blocks db)\<rparr>"
    using assms by (auto simp: clear_signed_blocks_def bind_r_eq_Inr)
  then show ?thesis using filter_blocks_changes [where P = "\<lambda>_. True", OF v(2)] by simp
qed

lemma clear_atts_changes:
  assumes "clear_signed_attestations pk db = Inr db'"
  shows "\<exists>v. get_validator_id_in_txn db pk = Inr v \<and> db_validators db' = db_validators db
    \<and> changed db db' v (block_rows db v) []"
proof -
  obtain v where v: "get_validator_id_in_txn db pk = Inr v"
    "db' = db\<lparr>db_signed_attestations := filter (\<lambda>r. \<not> (ar_validator_id r = v \<and> True)) (db_signed_attestations db)\<rparr>"
    using assms by (auto simp: clear_signed_attestations_def bind_r_eq_Inr)
  then show ?thesis using filter_atts_changes [where P = "\<lambda>_. True", OF v(2)] by simp
qed

lemma changed_refl: "changed db db v (block_rows db v) (att_rows db v)"
  by (simp add: changed_def)

lemma get_id_cong:
  "db_validators db' = db_validators db \<Longrightarrow> get_validator_id_in_txn db' pk = get_validator_id_in_txn db pk"
  by (simp add: get_validator_id_in_txn_def get_validator_id_with_status_def)

lemma import_blocks_changes:
  assumes "get_validator_id_in_txn db pk = Inr v" and "id_pubkey rec = pk"
    and "vs_max_block_slot prev = max_opt (map fst (block_rows db v))"
    and "import_blocks prev rec db = Inr db'"
  shows "db_validators db' = db_validators db
    \<and> changed db db' v (if imported_blocks rec = [] then block_rows db v
                         else block_import (block_rows db v) (imported_blocks rec)) (att_rows db v)"
proof (cases "imported_blocks rec = []")
  case True
  then show ?thesis using assms(4) changed_refl by (simp add: import_blocks_def imported_slots)
next
  case False
  then obtain m where m: "max_opt (map fst (imported_blocks rec)) = Some m"
    by (cases "max_opt (map fst (imported_blocks rec))") auto
  obtain db1 where c: "clear_signed_blocks pk db = Inr db1"
    and i: "insert_block_proposal db1 pk (max_or (max_opt (map fst (block_rows db v))) m) 0 = Inr db'"
    using assms(2-4) m by (auto simp: import_blocks_def imported_slots bind_r_eq_Inr with_state_eq_Inr)
  have c': "db_validators db1 = db_validators db" "changed db db1 v [] (att_rows db v)"
    using clear_blocks_changes [OF c] assms(1) by auto
  then have v1: "get_validator_id_in_txn db1 pk = Inr v" "block_rows db1 v = []" "att_rows db1 v = att_rows db v"
    using get_id_cong [OF c'(1), of pk] assms(1) by (simp_all add: changed_def)
  have "changed db1 db' v [(max_or (max_opt (map fst (block_rows db v))) m, 0)] (att_rows db v)"
    "db_validators db' = db_validators db1"
    using insert_block_changes [OF i] v1 by auto
  then show ?thesis using changed_trans [OF c'(2)] False m c'(1) by (simp add: block_import_def)
qed

lemma import_atts_changes:
  assumes "get_validator_id_in_txn db pk = Inr v" and "id_pubkey rec = pk"
    and "vs_max_attestation_source prev = max_opt (map msg_source (att_rows db v))"
    and "vs_max_attestation_target prev = max_opt (map msg_target (att_rows db v))"
    and "import_attestations prev rec db = Inr db'"
  shows "changed db db' v (block_rows db v)
    (if imported_atts rec = [] then att_rows db v else att_import (att_rows db v) (imported_atts rec))"
proof (cases "imported_atts rec = []")
  case True
  then show ?thesis using assms(5) changed_refl by (simp add: import_attestations_def imported_slots)
next
  case False
  then obtain m n where mn: "max_opt (map msg_source (imported_atts rec)) = Some m"
      "max_opt (map msg_target (imported_atts rec)) = Some n"
    by (cases "max_opt (map msg_source (imported_atts rec))"; cases "max_opt (map msg_target (imported_atts rec))") auto
  obtain db1 where c: "clear_signed_attestations pk db = Inr db1"
    and i: "insert_attestation db1 pk (max_or (max_opt (map msg_source (att_rows db v))) m)
      (max_or (max_opt (map msg_target (att_rows db v))) n) 0 = Inr db'"
    using assms(2-5) mn by (auto simp: import_attestations_def imported_slots bind_r_eq_Inr with_state_eq_Inr)
  have c': "db_validators db1 = db_validators db" "changed db db1 v (block_rows db v) []"
    using clear_atts_changes [OF c] assms(1) by auto
  then have v1: "get_validator_id_in_txn db1 pk = Inr v" "att_rows db1 v = []" "block_rows db1 v = block_rows db v"
    using get_id_cong [OF c'(1), of pk] assms(1) by (simp_all add: changed_def)
  have "changed db1 db' v (block_rows db v) [(max_or (max_opt (map msg_source (att_rows db v))) m,
      max_or (max_opt (map msg_target (att_rows db v))) n, 0)]"
    using insert_att_changes [OF i] v1 by auto
  then show ?thesis using changed_trans [OF c'(2)] False mn by (simp add: att_import_def)
qed

lemma import_record_good:
  assumes good: "sp_good (db, h)" and ok: "import_interchange_record rec db = Inr (summary, db')"
  shows "sp_good (db', add_record rec h)"
proof -
  let ?pk = "id_pubkey rec"
  define db0 where "db0 = register_validators_in_txn [?pk] db"
  obtain prev db1 where p: "get_validator_summary ?pk db0 = Inr prev" "import_blocks prev rec db0 = Inr db1"
      "import_attestations prev rec db1 = Inr db'"
    using ok unfolding import_interchange_record_def Let_def db0_def [symmetric]
    by (auto simp: bind_r_eq_Inr with_state_eq_Inr split: if_splits)
  obtain v where v: "get_validator_id_in_txn db0 ?pk = Inr v"
    "vs_max_block_slot prev = max_opt (map fst (block_rows db0 v))"
    "vs_max_attestation_source prev = max_opt (map msg_source (att_rows db0 v))"
    "vs_max_attestation_target prev = max_opt (map msg_target (att_rows db0 v))"
    using p(1) by (auto simp: get_validator_summary_def bind_r_eq_Inr block_rows_slots att_rows_epochs)
  have good0: "sp_good (db0, h)" unfolding db0_def by (rule sp_good_register [OF good])
  note rows = sp_goodD [OF good0 get_id_vid [OF v(1)]]
  note b = import_blocks_changes [OF v(1) refl v(2) p(2)]
  then have v1: "get_validator_id_in_txn db1 ?pk = Inr v" "att_rows db1 v = att_rows db0 v"
    using get_id_cong [of db1 db0 ?pk] v(1) by (auto simp: changed_def)
  note a = import_atts_changes [OF v1(1) refl, unfolded v1(2), OF v(3,4) p(3)]
  let ?bs = "if imported_blocks rec = [] then block_rows db0 v else block_import (block_rows db0 v) (imported_blocks rec)"
  let ?as = "if imported_atts rec = [] then att_rows db0 v else att_import (att_rows db0 v) (imported_atts rec)"
  have "block_rows db1 v = ?bs" using b by (simp add: changed_def)
  then have ch: "changed db0 db' v ?bs ?as" using changed_trans [OF conjunct2 [OF b]] a by simp
  have "block_log.logged ?bs (signed_b h ?pk \<union> set (imported_blocks rec))"
    using block_log.logged.imported [OF rows(1)] rows(1) by simp
  moreover have "att_log.logged ?as (signed_a h ?pk \<union> set (imported_atts rec))"
    using att_log.logged.imported [OF rows(2)] rows(2) by simp
  ultimately show ?thesis
    by (intro sp_good_changed [OF good0 get_id_vid [OF v(1)] ch]) (simp_all add: add_record_def)
qed

lemma import_records_aborted: "import_records rs db outs False = (outs', c, db') \<Longrightarrow> \<not> c"
  by (induction rs arbitrary: db outs) (auto split: sum.splits)

lemma import_records_good:
  assumes "sp_good (db, h)" and "import_records rs db outs True = (outs', True, db')"
  shows "sp_good (db', fold add_record rs h)"
  using assms
proof (induction rs arbitrary: db h outs)
  case (Cons rec rs)
  show ?case
  proof (cases "import_interchange_record rec db")
    case (Inl x)
    then show ?thesis using Cons.prems(2) import_records_aborted by (cases x) force
  next
    case (Inr x)
    obtain s db1 where x: "x = (s, db1)" by (cases x)
    then show ?thesis
      using Cons.IH [OF import_record_good [OF Cons.prems(1)]] Inr Cons.prems(2) by simp
  qed
qed simp

lemma import_good:
  assumes "sp_good (db, h)" and "import_interchange_info env ic g db = Inr (outs, db')"
  shows "sp_good (db', fold add_record (in_data ic) h)"
  using assms import_records_good [OF assms(1), of "in_data ic" "[]"]
  by (auto simp: import_interchange_info_def split: if_splits option.splits prod.splits)

lemma import_rollback: "import_interchange_info env ic g db = Inl (e, db') \<Longrightarrow> db' = db"
  by (auto simp: import_interchange_info_def split: if_splits option.splits prod.splits)

section \<open>Reachable databases\<close>

lemma sp_init_good: "sp_init s \<Longrightarrow> sp_good s"
  by (simp add: sp_init_def sp_good_def db_create_def ids_ok_def vid_def get_validator_id_with_status_def)

lemma sp_apply_good:
  assumes "sp_good s"
  shows "after sp_good (sp_apply a s)"
proof -
  obtain db h where s: "s = (db, h)" by (cases s)
  obtain env op where a: "a = (env, op)" by (cases a)
  note good = assms [unfolded s]
  show ?thesis unfolding s a
  proof (cases op)
    case (SignBlock pk sl r)
    then show "after sp_good (sp_apply (env, op) (db, h))" using sign_block_good [OF good] good
      by (auto simp: check_and_insert_block_signing_root_def simp del: history_add
          intro!: with_history_after dest!: transaction_ok dest: transaction_rollback)
  next
    case (SignAttestation pk e t r)
    then show "after sp_good (sp_apply (env, op) (db, h))" using sign_att_good [OF good] good
      by (auto simp: check_and_insert_attestation_signing_root_def simp del: history_add
          intro!: with_history_after dest!: transaction_ok dest: transaction_rollback)
  next
    case (RegisterValidators pks)
    then show "after sp_good (sp_apply (env, op) (db, h))" using sp_good_register [OF good] good
      by (auto simp: register_validators_def intro!: with_history_after dest!: transaction_ok dest: transaction_rollback)
  next
    case (SetStatus v b)
    then show "after sp_good (sp_apply (env, op) (db, h))" using sp_good_status [OF good] good
      by (auto intro!: with_history_after dest!: transaction_ok dest: transaction_rollback)
  next
    case (PruneBlocks pks b)
    have "sp_good (db', h)" if "try_for_each (prune_signed_blocks b) pks db = Inr (u, db')" for u db'
      using prune_blocks_good good that by (rule try_for_each_good)
    then show "after sp_good (sp_apply (env, op) (db, h))" using good PruneBlocks
      by (auto simp: prune_all_signed_blocks_def intro!: with_history_after dest!: transaction_ok dest: transaction_rollback)
  next
    case (PruneAttestations pks b)
    have "sp_good (db', h)" if "try_for_each (prune_signed_attestations b) pks db = Inr (u, db')" for u db'
      using prune_atts_good good that by (rule try_for_each_good)
    then show "after sp_good (sp_apply (env, op) (db, h))" using good PruneAttestations
      by (auto simp: prune_all_signed_attestations_def intro!: with_history_after dest!: transaction_ok dest: transaction_rollback)
  next
    case (ImportInterchange ic g)
    have "after sp_good (with_history (\<lambda>e. e) (\<lambda>_. fold add_record (in_data ic) h) h (import_interchange_info env ic g db))"
      using good by (intro with_history_after import_good) (auto dest: import_rollback)
    then show "after sp_good (sp_apply (env, op) (db, h))" using ImportInterchange by simp
  qed
qed

interpretation sp_system: guarded_system sp_init sp_apply sp_good
  by unfold_locales (simp_all add: sp_init_good sp_apply_good)

abbreviation sp_reachable :: "sp_state \<Rightarrow> bool" where
  "sp_reachable \<equiv> sp_system.reachable"

text \<open>An executable copy of the run of the interpretation.\<close>

fun sp_run :: "(txn_env \<times> sp_op) list \<Rightarrow> sp_state \<Rightarrow> sp_state" where
  "sp_run [] s = s"
| "sp_run (a # as) s = sp_run as (case sp_apply a s of Inl (_, s') \<Rightarrow> s' | Inr s' \<Rightarrow> s')"

lemma sp_run_eq: "sp_run as s = sp_system.run as s"
  by (induction as arbitrary: s) simp_all

lemma to_sql_code [code]: "to_sql v = (if v < 9223372036854775808 then Inr v else Inl SQLError)"
  by (simp add: to_sql_def word_less_nat_alt)

definition quiet :: txn_env where
  "quiet = \<lparr>env_begin = None, env_commit = None\<rparr>"

definition sample_sp :: sp_state where
  "sample_sp = sp_run
     [(quiet, RegisterValidators [1, 2]), (quiet, SignBlock 1 5 7), (quiet, SignBlock 1 8 9),
      (quiet, SignAttestation 1 2 3 4), (quiet, SignAttestation 1 3 6 5), (quiet, PruneBlocks [1] 7),
      (quiet, PruneAttestations [1] 6)]
     (db_create, \<lparr>signed_b = (\<lambda>_. {}), signed_a = (\<lambda>_. {})\<rparr>)"

lemma sample_sp_reachable: "sp_reachable (fst sample_sp, snd sample_sp)"
  unfolding sample_sp_def sp_run_eq prod.collapse
  by (rule sp_system.reachable_run, rule sp_system.reachable.start) (simp add: sp_init_def)

section \<open>Properties\<close>

text \<open>C4. On every reachable database, a block that is approved for the first time is for a slot for which the
  key never signed or imported a block, pruned or not; a block that is approved as a repetition is one
  that the key signed before, with the same signing root.\<close>

theorem approved_block_is_safe:
  assumes "sp_reachable (db, h)" and "check_and_insert_block_signing_root env pk slot root db = Inr (safe, db')"
  shows "case safe of
      Valid \<Rightarrow> slot \<notin> fst ` signed_b h pk
    | SameData \<Rightarrow> root \<noteq> 0 \<and> (slot, root) \<in> signed_b h pk"
proof -
  have good: "sp_good (db, h)" using sp_system.reachable_good [OF assms(1)] .
  have c: "check_block_proposal db pk slot root = Inr safe"
    using transaction_ok [OF assms(2) [unfolded check_and_insert_block_signing_root_def]]
    by (auto simp: check_and_insert_block_signing_root_txn_def with_state_eq_Inr bind_r_eq_Inr split: if_splits)
  show ?thesis
  proof (cases safe)
    case SameData
    then obtain v where v: "get_validator_id_in_txn db pk = Inr v" "(slot, root) \<in> set (block_rows db v)" "root \<noteq> 0"
      using check_block_SameData c by blast
    then show ?thesis
      using SameData block_log.logged_origin [OF sp_goodD(1) [OF good get_id_vid [OF v(1)]] v(2)] by auto
  next
    case Valid
    then obtain v where v: "get_validator_id_in_txn db pk = Inr v" "block_accepts (block_rows db v) (slot, root)"
      using check_block_Valid c by blast
    have "\<not> block_clash (slot, root) m" if "m \<in> signed_b h pk" for m
      using block_log.accepted_safe [OF sp_goodD(1) [OF good get_id_vid [OF v(1)]] v(2) that] .
    then show ?thesis using Valid by (auto simp: block_clash_def)
  qed
qed

theorem approved_block_is_safe_witness:
  "\<exists>db'. check_and_insert_block_signing_root quiet 1 9 3 (fst sample_sp) = Inr (Valid, db')
    \<and> 9 \<notin> fst ` signed_b (snd sample_sp) 1"
proof -
  have "isl (check_and_insert_block_signing_root quiet 1 9 3 (fst sample_sp)) = False"
    "fst (projr (check_and_insert_block_signing_root quiet 1 9 3 (fst sample_sp))) = Valid" by code_simp+
  then obtain db' where "check_and_insert_block_signing_root quiet 1 9 3 (fst sample_sp) = Inr (Valid, db')"
    by (cases "check_and_insert_block_signing_root quiet 1 9 3 (fst sample_sp)") auto
  with approved_block_is_safe [OF sample_sp_reachable this] show ?thesis by auto
qed

text \<open>C3. On every reachable database, an attestation that is approved for the first time is neither a double
  vote nor a surround vote, in either direction, with any attestation that the key signed or imported
  before, pruned or not; one that is approved as a repetition has target and signing root of an
  attestation signed before.\<close>

theorem approved_attestation_is_safe:
  assumes "sp_reachable (db, h)"
    and "check_and_insert_attestation_signing_root env pk source target root db = Inr (safe, db')"
  shows "case safe of
      Valid \<Rightarrow> (\<forall>(s, t, r) \<in> signed_a h pk.
        t \<noteq> target \<and> \<not> (s < source \<and> target < t) \<and> \<not> (source < s \<and> t < target))
    | SameData \<Rightarrow> root \<noteq> 0 \<and> (\<exists>s. (s, target, root) \<in> signed_a h pk)"
proof -
  have good: "sp_good (db, h)" using sp_system.reachable_good [OF assms(1)] .
  have c: "check_attestation db pk source target root = Inr safe"
    using transaction_ok [OF assms(2) [unfolded check_and_insert_attestation_signing_root_def]]
    by (auto simp: check_and_insert_attestation_signing_root_txn_def with_state_eq_Inr bind_r_eq_Inr split: if_splits)
  show ?thesis
  proof (cases safe)
    case SameData
    then obtain v s where v: "get_validator_id_in_txn db pk = Inr v" "(s, target, root) \<in> set (att_rows db v)" "root \<noteq> 0"
      using check_att_SameData c by blast
    then show ?thesis
      using SameData att_log.logged_origin [OF sp_goodD(2) [OF good get_id_vid [OF v(1)]] v(2)] by auto
  next
    case Valid
    then obtain v where v: "get_validator_id_in_txn db pk = Inr v" "att_accepts (att_rows db v) (source, target, root)"
      using check_att_Valid c by blast
    have "\<not> att_clash (source, target, root) m" if "m \<in> signed_a h pk" for m
      using att_log.accepted_safe [OF sp_goodD(2) [OF good get_id_vid [OF v(1)]] v(2) that] .
    then show ?thesis using Valid by (fastforce simp: att_clash_def surrounds_def)
  qed
qed

theorem approved_attestation_is_safe_witness:
  "\<exists>db'. check_and_insert_attestation_signing_root quiet 1 4 7 3 (fst sample_sp) = Inr (Valid, db')
    \<and> (\<forall>(s, t, r) \<in> signed_a (snd sample_sp) 1. t \<noteq> 7 \<and> \<not> (s < 4 \<and> 7 < t) \<and> \<not> (4 < s \<and> t < 7))"
proof -
  have "isl (check_and_insert_attestation_signing_root quiet 1 4 7 3 (fst sample_sp)) = False"
    "fst (projr (check_and_insert_attestation_signing_root quiet 1 4 7 3 (fst sample_sp))) = Valid" by code_simp+
  then obtain db' where "check_and_insert_attestation_signing_root quiet 1 4 7 3 (fst sample_sp) = Inr (Valid, db')"
    by (cases "check_and_insert_attestation_signing_root quiet 1 4 7 3 (fst sample_sp)") auto
  with approved_attestation_is_safe [OF sample_sp_reachable this] show ?thesis by auto
qed



text \<open>C20. The protection does not block honest duties: a registered and enabled key may always sign a block for
  a slot above its recorded ones, and an attestation whose source is not below and whose target is above
  the recorded ones, as long as the numbers fit into the database.\<close>

theorem later_message_is_approved:
  assumes "get_validator_id_with_status db pk = Some (v, True)" and "unat target < 2 ^ 63" and "unat slot < 2 ^ 63"
    and "\<forall>r \<in> set (blocks_of db v). br_slot r < slot"
    and "source \<le> target" and "\<forall>r \<in> set (atts_of db v). ar_source_epoch r \<le> source \<and> ar_target_epoch r < target"
  shows "\<exists>db1 db2. check_and_insert_block_signing_root quiet pk slot root db = Inr (Valid, db1)
    \<and> check_and_insert_attestation_signing_root quiet pk source target root db = Inr (Valid, db2)"
proof -
  have v: "get_validator_id_in_txn db pk = Inr v" using assms(1) by (simp add: get_id_iff)
  have b: "filter (\<lambda>r. br_slot r = slot) (blocks_of db v) = []" using assms(4) by (auto simp: filter_empty_conv)
  have "min_opt (map br_slot (blocks_of db v)) = Some m \<Longrightarrow> \<not> slot \<le> m" for m
    using assms(4) by (auto simp: min_opt_Some)
  then have cb: "check_block_proposal db pk slot root = Inr Valid"
    using v b assms(3) by (auto simp: check_block_proposal_def to_sql_def split: option.splits)
  have ib: "\<exists>db1. insert_block_proposal db pk slot root = Inr db1"
    using v b assms(3) by (auto simp: insert_block_proposal_def to_sql_def list_ex_iff filter_empty_conv)
  have s: "unat source < 2 ^ 63" using assms(2,5) by (simp add: word_le_nat_alt)
  have f: "filter (\<lambda>r. ar_target_epoch r = target) (atts_of db v) = []"
    "filter (\<lambda>r. ar_source_epoch r < source \<and> target < ar_target_epoch r) (atts_of db v) = []"
    "filter (\<lambda>r. source < ar_source_epoch r \<and> ar_target_epoch r < target) (atts_of db v) = []"
    using assms(6) by (auto simp: filter_empty_conv)
  have m: "min_opt (map ar_source_epoch (atts_of db v)) = Some m \<Longrightarrow> \<not> source < m"
    "min_opt (map ar_target_epoch (atts_of db v)) = Some m \<Longrightarrow> \<not> target \<le> m" for m
    using assms(6) by (auto simp: min_opt_Some)
  have "check_lower_bounds db v source target = Inr Valid"
    using m by (auto simp: check_lower_bounds_def split: option.splits)
  then have ca: "check_attestation db pk source target root = Inr Valid"
    using v f s assms(2,5) by (simp add: check_attestation_def to_sql_def latest_target_def not_less)
  have ia: "\<exists>db2. insert_attestation db pk source target root = Inr db2"
    using v f(1) s assms(2) by (auto simp: insert_attestation_def to_sql_def list_ex_iff filter_empty_conv)
  show ?thesis using cb ib ca ia
    by (auto simp: check_and_insert_block_signing_root_def check_and_insert_attestation_signing_root_def
        check_and_insert_block_signing_root_txn_def check_and_insert_attestation_signing_root_txn_def
        with_transaction_def quiet_def)
qed

theorem later_message_is_approved_witness:
  "\<exists>db1 db2. check_and_insert_block_signing_root quiet 1 9 7 (fst sample_sp) = Inr (Valid, db1)
    \<and> check_and_insert_attestation_signing_root quiet 1 3 7 7 (fst sample_sp) = Inr (Valid, db2)"
proof (rule later_message_is_approved)
  show "get_validator_id_with_status (fst sample_sp) 1 = Some (1, True)" by code_simp
  show "\<forall>r \<in> set (blocks_of (fst sample_sp) 1). br_slot r < 9" by code_simp
  show "\<forall>r \<in> set (atts_of (fst sample_sp) 1). ar_source_epoch r \<le> 3 \<and> ar_target_epoch r < 7" by code_simp
qed simp_all

end
