(* ===== verification/Interchange_Minify.thy ===== *)
theory Interchange_Minify
  imports Slashing_Logs
begin

text \<open>
  Minification of an interchange file, \<^verbatim>\<open>Interchange::minify\<close> of \<^verbatim>\<open>common/eip_3076\<close>: one record per key,
  which keeps the largest slot, source and target over all records of the key.
\<close>

section \<open>What the records of a key amount to\<close>

definition slots_of :: "interchange_data list \<Rightarrow> pubkey \<Rightarrow> u64 list" where
  "slots_of ds pk = concat (map (\<lambda>d. if id_pubkey d = pk then map ib_slot (id_signed_blocks d) else []) ds)"

definition sources_of :: "interchange_data list \<Rightarrow> pubkey \<Rightarrow> u64 list" where
  "sources_of ds pk =
     concat (map (\<lambda>d. if id_pubkey d = pk then map ia_source_epoch (id_signed_attestations d) else []) ds)"

definition targets_of :: "interchange_data list \<Rightarrow> pubkey \<Rightarrow> u64 list" where
  "targets_of ds pk =
     concat (map (\<lambda>d. if id_pubkey d = pk then map ia_target_epoch (id_signed_attestations d) else []) ds)"

definition synthetic :: "interchange_data list \<Rightarrow> pubkey \<Rightarrow> max_data" where
  "synthetic ds pk =
     (map_option (\<lambda>s. \<lparr>ib_slot = s, ib_signing_root = None\<rparr>) (max_opt (slots_of ds pk)),
      case (max_opt (sources_of ds pk), max_opt (targets_of ds pk)) of
        (Some s, Some t) \<Rightarrow> Some \<lparr>ia_source_epoch = s, ia_target_epoch = t, ia_signing_root = None\<rparr>
      | _ \<Rightarrow> None)"

lemma max_opt_append:
  "max_opt (xs @ ys) = (case (max_opt xs, max_opt ys) of
     (Some a, Some b) \<Rightarrow> Some (max a b) | (None, r) \<Rightarrow> r | (r, None) \<Rightarrow> r)"
proof (cases xs; cases ys)
  fix a as b bs
  assume [simp]: "xs = a # as" "ys = b # bs"
  have "foldl max c (ys') = max c (foldl max b' ys'')" if "ys' = b' # ys''" for c b' :: u64 and ys' ys''
    unfolding that by (induction ys'' arbitrary: c b') (simp_all add: max.assoc)
  from this [OF refl] show ?thesis by simp
qed simp_all

lemma of_snoc [simp]:
  "slots_of (ds @ [d]) pk = slots_of ds pk @ (if id_pubkey d = pk then map ib_slot (id_signed_blocks d) else [])"
  "sources_of (ds @ [d]) pk = sources_of ds pk @ (if id_pubkey d = pk then map ia_source_epoch (id_signed_attestations d) else [])"
  "targets_of (ds @ [d]) pk = targets_of ds pk @ (if id_pubkey d = pk then map ia_target_epoch (id_signed_attestations d) else [])"
  by (simp_all add: slots_of_def sources_of_def targets_of_def)

lemma synthetic_other [simp]: "id_pubkey d \<noteq> pk \<Longrightarrow> synthetic (ds @ [d]) pk = synthetic ds pk"
  by (simp add: synthetic_def)

lemma synthetic_fresh: "pk \<notin> id_pubkey ` set ds \<Longrightarrow> synthetic ds pk = (None, None)"
proof (induction ds rule: rev_induct)
  case Nil
  show ?case by (simp add: synthetic_def slots_of_def sources_of_def)
qed auto

lemma sources_targets: "sources_of ds pk = [] \<longleftrightarrow> targets_of ds pk = []"
  by (auto simp: sources_of_def targets_of_def split: if_splits)

section \<open>One step\<close>

lemma minify_block_step:
  "minify_block (max_opt (map ib_slot (id_signed_blocks d))) (fst (synthetic ds (id_pubkey d)))
   = fst (synthetic (ds @ [d]) (id_pubkey d))"
  by (auto simp: minify_block_def synthetic_def max_opt_append split: option.splits)

lemma minify_attestation_step:
  "minify_attestation (max_opt (map ia_source_epoch (id_signed_attestations d)))
     (max_opt (map ia_target_epoch (id_signed_attestations d))) (snd (synthetic ds (id_pubkey d)))
   = Inr (snd (synthetic (ds @ [d]) (id_pubkey d)))"
proof -
  have "max_opt (sources_of ds (id_pubkey d)) = None \<longleftrightarrow> max_opt (targets_of ds (id_pubkey d)) = None"
    "max_opt (map ia_source_epoch (id_signed_attestations d)) = None
      \<longleftrightarrow> max_opt (map ia_target_epoch (id_signed_attestations d)) = None"
    by (simp_all add: sources_targets)
  then show ?thesis
    by (auto simp: minify_attestation_def synthetic_def max_opt_append simp del: opt_None split: option.splits)
qed

section \<open>The whole file\<close>

lemma minify_loop_synthetic:
  assumes "hm_ok vd" and "\<And>pk. hm_get vd pk = (if pk \<in> id_pubkey ` set ds0 then Some (synthetic ds0 pk) else None)"
  shows "\<exists>vd'. minify_loop ds vd = Inr vd' \<and> hm_ok vd'
    \<and> (\<forall>pk. hm_get vd' pk = (if pk \<in> id_pubkey ` set (ds0 @ ds) then Some (synthetic (ds0 @ ds) pk) else None))"
  using assms
proof (induction ds arbitrary: vd ds0)
  case (Cons d ds)
  let ?new = "synthetic (ds0 @ [d]) (id_pubkey d)"
  have old: "(case hm_get vd (id_pubkey d) of Some e \<Rightarrow> e | None \<Rightarrow> (None, None)) = synthetic ds0 (id_pubkey d)"
    using Cons.prems(2) by (simp add: synthetic_fresh)
  have step: "minify_loop (d # ds) vd = minify_loop ds (hm_insert vd (id_pubkey d) ?new)"
    by (simp only: minify_loop.simps old Let_def case_prod_beta minify_attestation_step minify_block_step
        bind_r.simps prod.collapse)
  have "\<exists>vd'. minify_loop ds (hm_insert vd (id_pubkey d) ?new) = Inr vd' \<and> hm_ok vd'
      \<and> (\<forall>pk. hm_get vd' pk = (if pk \<in> id_pubkey ` set ((ds0 @ [d]) @ ds) then Some (synthetic ((ds0 @ [d]) @ ds) pk) else None))"
  proof (rule Cons.IH)
    show "hm_ok (hm_insert vd (id_pubkey d) ?new)" using Cons.prems(1) by (rule hm.ok_ins)
    show "hm_get (hm_insert vd (id_pubkey d) ?new) pk
      = (if pk \<in> id_pubkey ` set (ds0 @ [d]) then Some (synthetic (ds0 @ [d]) pk) else None)" for pk
      using Cons.prems(2) [of pk] by (simp add: hm.get_ins)
  qed
  then show ?case unfolding step by (simp only: append_assoc append_Cons append_Nil)
qed auto

definition singleton :: "'a option \<Rightarrow> 'a list" where
  "singleton r = (case r of None \<Rightarrow> [] | Some x \<Rightarrow> [x])"

lemma synthetic_record:
  assumes "(b, a) = synthetic ds pk"
  shows "map ib_slot (case b of Some b \<Rightarrow> [b] | None \<Rightarrow> []) = singleton (max_opt (slots_of ds pk))"
    "map ia_source_epoch (case a of Some a \<Rightarrow> [a] | None \<Rightarrow> []) = singleton (max_opt (sources_of ds pk))"
    "map ia_target_epoch (case a of Some a \<Rightarrow> [a] | None \<Rightarrow> []) = singleton (max_opt (targets_of ds pk))"
  using assms sources_targets [of ds pk]
  by (auto simp: synthetic_def singleton_def split: option.splits)

text \<open>C22. Minification always succeeds and keeps the metadata; the result has one record for each key of the
  file, whose only block has the largest slot and whose only attestation has the largest source and the
  largest target over all records of that key.\<close>

theorem minify_keeps_maxima:
  "\<exists>ic'. minify ic = Inr ic' \<and> in_metadata ic' = in_metadata ic \<and> distinct (map id_pubkey (in_data ic'))
    \<and> id_pubkey ` set (in_data ic') = id_pubkey ` set (in_data ic)
    \<and> list_all (\<lambda>d. map ib_slot (id_signed_blocks d) = singleton (max_opt (slots_of (in_data ic) (id_pubkey d)))
        \<and> map ia_source_epoch (id_signed_attestations d) = singleton (max_opt (sources_of (in_data ic) (id_pubkey d)))
        \<and> map ia_target_epoch (id_signed_attestations d) = singleton (max_opt (targets_of (in_data ic) (id_pubkey d))))
      (in_data ic')"
proof -
  obtain vd where vd: "minify_loop (in_data ic) [] = Inr vd" "hm_ok vd"
    "\<And>pk. hm_get vd pk = (if pk \<in> id_pubkey ` set (in_data ic) then Some (synthetic (in_data ic) pk) else None)"
    using minify_loop_synthetic [of "[]" "[]" "in_data ic"] by (auto simp: hm.ok_emp hm.get_emp)
  have entry: "(pk, b, a) \<in> set vd \<Longrightarrow> (b, a) = synthetic (in_data ic) pk" for pk b a
    using vd(2,3) by (auto simp: hm_ok_def hm_get_def split: if_splits dest: map_of_is_SomeI)
  have keys: "fst ` set vd = id_pubkey ` set (in_data ic)"
    using vd(3) keys_hm_get [of vd] by (auto split: if_splits)
  show ?thesis
    using vd(1,2) keys synthetic_record [OF entry]
    by (auto simp: minify_def hm_ok_def comp_def case_prod_beta image_image list_all_iff)
qed

end
