(* ===== verification/Proto_Tree.thy ===== *)
theory Proto_Tree
  imports Proto_Array
begin

text \<open>
  The block tree that the parent links of the array form, and the well-formedness invariant of
  \<^verbatim>\<open>ProtoArray\<close>. The locale \<open>parent_forest\<close> states what the client proofs need of parent links
  (a parent precedes its child); it is interpreted on the nodes of the array. The array invariant
  \<open>wf_array\<close> holds of the empty array and is kept by every operation of \<^verbatim>\<open>proto_array.rs\<close>, and
  under it the fuel of every parent-following loop is enough.
\<close>

section \<open>Forests of parent links\<close>

locale parent_forest =
  fixes par :: "nat \<Rightarrow> nat option"
    and anc :: "nat \<Rightarrow> nat list"
  assumes par_less: "par i = Some p \<Longrightarrow> p < i"
    and anc_rec: "anc i = i # (case par i of Some p \<Rightarrow> anc p | None \<Rightarrow> [])"
begin

lemma par_induct [case_names step]:
  assumes "\<And>i. (\<And>p. par i = Some p \<Longrightarrow> P p) \<Longrightarrow> P i"
  shows "P i"
  by (induction i rule: less_induct) (blast intro: assms par_less)

lemma in_anc: "j \<in> set (anc i) \<longleftrightarrow> j = i \<or> (\<exists>p. par i = Some p \<and> j \<in> set (anc p))"
  by (subst anc_rec) (auto split: option.splits)

lemma self_in_anc: "i \<in> set (anc i)"
  by (subst in_anc) simp

lemma parent_in_anc: "par i = Some p \<Longrightarrow> p \<in> set (anc i)"
  by (subst in_anc) (simp add: self_in_anc)

lemma anc_le: "j \<in> set (anc i) \<Longrightarrow> j \<le> i"
proof (induction i rule: par_induct)
  case (step i)
  then show ?case using in_anc [of j i] par_less [of i] by fastforce
qed

lemma anc_trans: "j \<in> set (anc i) \<Longrightarrow> k \<in> set (anc j) \<Longrightarrow> k \<in> set (anc i)"
proof (induction i rule: par_induct)
  case (step i)
  then show ?case using in_anc [of j i] in_anc [of k i] by blast
qed

lemma anc_antisym: "j \<in> set (anc i) \<Longrightarrow> i \<in> set (anc j) \<Longrightarrow> i = j"
  by (rule le_antisym) (auto intro: anc_le)

lemma anc_linear:
  "j \<in> set (anc i) \<Longrightarrow> k \<in> set (anc i) \<Longrightarrow> j \<in> set (anc k) \<or> k \<in> set (anc j)"
proof (induction i rule: par_induct)
  case (step i)
  show ?case
  proof (cases "j = i \<or> k = i")
    case True
    then show ?thesis using step.prems by blast
  next
    case False
    then obtain p where "par i = Some p" "j \<in> set (anc p)" "k \<in> set (anc p)"
      using step.prems in_anc [of j i] in_anc [of k i] by auto
    then show ?thesis by (rule step.IH)
  qed
qed

lemma length_anc: "length (anc i) \<le> Suc i"
proof (induction i rule: par_induct)
  case (step i)
  show ?case
  proof (cases "par i")
    case None
    then show ?thesis by (subst anc_rec) simp
  next
    case (Some p)
    then have "length (anc p) \<le> Suc p" "p < i" using step.IH par_less by auto
    then show ?thesis using Some by (subst anc_rec) simp
  qed
qed

lemma sorted_anc: "sorted_wrt (>) (anc i)"
proof (induction i rule: par_induct)
  case (step i)
  show ?case
  proof (cases "par i")
    case None
    then show ?thesis by (subst anc_rec) simp
  next
    case (Some p)
    have "\<forall>j \<in> set (anc p). j < i"
      by (blast intro: le_less_trans anc_le par_less [OF Some])
    then show ?thesis using Some step.IH [OF Some] by (subst anc_rec) simp
  qed
qed

lemma strict_anc_via_parent:
  assumes "j \<in> set (anc i)" and "j \<noteq> i"
  obtains p where "par i = Some p" "j \<in> set (anc p)"
  using assms in_anc [of j i] by blast

text \<open>A strict ancestor is reached through exactly one of its children.\<close>

lemma anc_via_child:
  assumes "i \<in> set (anc j)" and "i \<noteq> j"
  shows "\<exists>c. par c = Some i \<and> c \<in> set (anc j)"
  using assms
proof (induction j rule: par_induct)
  case (step j)
  then obtain p where p: "par j = Some p" "i \<in> set (anc p)"
    using strict_anc_via_parent [of i j] by blast
  show ?case
  proof (cases "i = p")
    case True
    then show ?thesis using p self_in_anc by blast
  next
    case False
    then obtain c where "par c = Some i" "c \<in> set (anc p)" using step.IH [OF p] by blast
    then show ?thesis using anc_trans [OF parent_in_anc [OF p(1)]] by blast
  qed
qed

lemma child_subtrees_disjoint:
  assumes "par c = Some i" and "par c' = Some i" and "c \<in> set (anc j)" and "c' \<in> set (anc j)"
  shows "c = c'"
proof -
  have "c = c'" if "par c' = Some i" "par c = Some i" "c \<in> set (anc c')" for c c'
  proof (rule ccontr)
    assume "c \<noteq> c'"
    then have "c \<in> set (anc i)" using that by (auto elim: strict_anc_via_parent)
    then have "c \<le> i" by (rule anc_le)
    then show False using par_less [OF that(2)] by simp
  qed
  then show ?thesis using anc_linear [OF assms(3,4)] assms(1,2) by blast
qed

lemma subtree_eq:
  "{j. j < n \<and> i \<in> set (anc j)} =
     (if i < n then {i} else {}) \<union>
     (\<Union>c \<in> {c. c < n \<and> par c = Some i}. {j. j < n \<and> c \<in> set (anc j)})" (is "?L = ?R")
proof
  show "?L \<subseteq> ?R"
  proof
    fix j
    assume "j \<in> ?L"
    then have j: "j < n" "i \<in> set (anc j)" by auto
    show "j \<in> ?R"
    proof (cases "i = j")
      case True
      then show ?thesis using j by simp
    next
      case False
      then obtain c where "par c = Some i" "c \<in> set (anc j)" using anc_via_child j by blast
      then show ?thesis using j le_less_trans [OF anc_le [of c j] j(1)] by auto
    qed
  qed
next
  show "?R \<subseteq> ?L"
    by (auto simp: self_in_anc intro: anc_trans parent_in_anc split: if_splits)
qed

lemma sum_subtree:
  fixes f :: "nat \<Rightarrow> 'a :: comm_monoid_add"
  assumes "i < n"
  shows "(\<Sum>j | j < n \<and> i \<in> set (anc j). f j) =
    f i + (\<Sum>c | c < n \<and> par c = Some i. \<Sum>j | j < n \<and> c \<in> set (anc j). f j)"
proof -
  let ?C = "{c. c < n \<and> par c = Some i}"
  let ?S = "\<lambda>c. {j. j < n \<and> c \<in> set (anc j)}"
  have disj: "\<forall>c \<in> ?C. \<forall>c' \<in> ?C. c \<noteq> c' \<longrightarrow> ?S c \<inter> ?S c' = {}"
    by (auto dest: child_subtrees_disjoint)
  have notin: "i \<notin> (\<Union>c \<in> ?C. ?S c)"
    by (auto dest!: anc_le par_less)
  have "sum f (?S i) = sum f (insert i (\<Union>c \<in> ?C. ?S c))"
    using assms by (subst subtree_eq) simp
  also have "\<dots> = f i + sum f (\<Union>c \<in> ?C. ?S c)"
    using notin by simp
  also have "sum f (\<Union>c \<in> ?C. ?S c) = (\<Sum>c \<in> ?C. sum f (?S c))"
    using disj by (intro sum.UNION_disjoint) simp_all
  finally show ?thesis .
qed

text \<open>A quantity that is locally consistent is the sum over the subtree.\<close>

lemma local_sum_is_subtree_sum:
  fixes f w :: "nat \<Rightarrow> 'a :: comm_monoid_add"
  assumes "\<And>i. i < n \<Longrightarrow> w i = f i + (\<Sum>c | c < n \<and> par c = Some i. w c)"
  shows "i < n \<Longrightarrow> w i = (\<Sum>j | j < n \<and> i \<in> set (anc j). f j)"
proof (induction "n - i" arbitrary: i rule: less_induct)
  case less
  have "w c = (\<Sum>j | j < n \<and> c \<in> set (anc j). f j)" if "c < n" "par c = Some i" for c
    using that less par_less [of c i] by (intro less.hyps) auto
  then have "(\<Sum>c | c < n \<and> par c = Some i. w c) =
      (\<Sum>c | c < n \<and> par c = Some i. \<Sum>j | j < n \<and> c \<in> set (anc j). f j)"
    by (intro sum.cong) auto
  then show ?case
    using less.prems assms [of i] sum_subtree [of i n f] by simp
qed

end

section \<open>The forest of an array\<close>

definition parent_idx :: "proto_node list \<Rightarrow> usize \<Rightarrow> usize option" where
  "parent_idx ns i =
     (case Option.bind (nth_opt ns i) n_parent of
        Some p \<Rightarrow> if p < i then Some p else None
      | None \<Rightarrow> None)"

lemma parent_idx_less: "parent_idx ns i = Some p \<Longrightarrow> p < i"
  by (auto simp: parent_idx_def split: option.splits if_splits)

function ancestors :: "proto_node list \<Rightarrow> usize \<Rightarrow> usize list" where
  "ancestors ns i = i # (case parent_idx ns i of Some p \<Rightarrow> ancestors ns p | None \<Rightarrow> [])"
  by pat_completeness auto
termination
  by (relation "measure snd") (auto dest: parent_idx_less)

declare ancestors.simps [simp del]

interpretation tree: parent_forest "parent_idx ns" "ancestors ns" for ns
  by unfold_locales (rule parent_idx_less, assumption, rule ancestors.simps)

lemma parent_idx_in_range:
  assumes "parent_idx ns i = Some p"
  shows "i < length ns" "p < length ns"
proof -
  show "i < length ns"
    using assms by (cases "i < length ns") (simp_all add: parent_idx_def nth_opt_def)
  then show "p < length ns"
    using parent_idx_less [OF assms] by simp
qed

text \<open>Arrays that agree on roots, slots and parent links have the same forest.\<close>

abbreviation skeleton :: "proto_node list \<Rightarrow> (hash256 \<times> slot \<times> usize option) list" where
  "skeleton ns \<equiv> map (\<lambda>n. (n_root n, n_slot n, n_parent n)) ns"

lemma skeleton_length: "skeleton ns = skeleton ns' \<Longrightarrow> length ns = length ns'"
  by (rule map_eq_imp_length_eq)

lemma skeleton_nth:
  assumes "skeleton ns = skeleton ns'" and "i < length ns"
  shows "n_root (ns ! i) = n_root (ns' ! i)" "n_slot (ns ! i) = n_slot (ns' ! i)"
    "n_parent (ns ! i) = n_parent (ns' ! i)"
proof -
  have "skeleton ns ! i = skeleton ns' ! i" using assms(1) by simp
  moreover have "i < length ns'" using assms(2) skeleton_length [OF assms(1)] by simp
  ultimately show "n_root (ns ! i) = n_root (ns' ! i)" "n_slot (ns ! i) = n_slot (ns' ! i)"
    "n_parent (ns ! i) = n_parent (ns' ! i)" using assms(2) by simp_all
qed

lemma skeleton_parent_idx:
  assumes "skeleton ns = skeleton ns'"
  shows "parent_idx ns = parent_idx ns'"
proof
  fix i
  show "parent_idx ns i = parent_idx ns' i"
    using skeleton_nth(3) [OF assms, of i] skeleton_length [OF assms]
    by (simp add: parent_idx_def nth_opt_def)
qed

lemma skeleton_ancestors:
  assumes "skeleton ns = skeleton ns'"
  shows "ancestors ns = ancestors ns'"
proof
  fix i
  show "ancestors ns i = ancestors ns' i"
  proof (induction i rule: tree.par_induct [of ns])
    case (step i)
    then show ?case
      unfolding ancestors.simps [of ns i] ancestors.simps [of ns' i]
      using fun_cong [OF skeleton_parent_idx [OF assms], of i] by (cases "parent_idx ns' i") simp_all
  qed
qed

lemma skeleton_update:
  assumes "n_root n = n_root (ns ! i)" and "n_slot n = n_slot (ns ! i)"
    and "n_parent n = n_parent (ns ! i)"
  shows "skeleton (ns[i := n]) = skeleton ns"
proof (cases "i < length ns")
  case True
  then have "(n_root n, n_slot n, n_parent n) = skeleton ns ! i" using assms by simp
  then show ?thesis by (simp only: map_update list_update_id)
next
  case False
  then have "ns[i := n] = ns" by (simp add: list_update_beyond)
  then show ?thesis by (simp only:)
qed

end
