(* ===== verification/Proto_Wf.thy ===== *)
theory Proto_Wf
  imports Proto_Tree
begin

text \<open>
  The well-formedness invariant of \<^verbatim>\<open>ProtoArray\<close> and its preservation. \<open>wf_array\<close> says that parents
  precede children, that \<^verbatim>\<open>indices\<close> maps exactly the roots of the nodes to their positions, and
  that a best child is a child and a best descendant a strict descendant. Every operation keeps it,
  also when it stops with an error, and on a well-formed array the index lookups of the operations
  cannot fail.
\<close>

named_theorems node_simps \<open>what the operations leave unchanged in a node\<close>

section \<open>The invariant\<close>

definition links_ok :: "proto_node list \<Rightarrow> bool" where
  "links_ok ns =
     (\<forall>i < length ns. case n_parent (ns ! i) of Some p \<Rightarrow> p < i | None \<Rightarrow> True)"

definition indices_ok :: "proto_node list \<Rightarrow> (hash256, usize) hashmap \<Rightarrow> bool" where
  "indices_ok ns m =
     (hm_ok m \<and> hm_len m = length ns
      \<and> (\<forall>i < length ns. hm_get m (n_root (ns ! i)) = Some i))"

definition best_links_ok ::
    "proto_node list \<Rightarrow> usize \<Rightarrow> usize option \<Rightarrow> usize option \<Rightarrow> bool" where
  "best_links_ok ns i best_child best_descendant =
     ((case best_child of
         Some c \<Rightarrow> c < length ns \<and> parent_idx ns c = Some i | None \<Rightarrow> True)
      \<and> (case best_descendant of
           Some d \<Rightarrow> i < d \<and> d < length ns \<and> i \<in> set (ancestors ns d) | None \<Rightarrow> True))"

definition wf_nodes :: "proto_node list \<Rightarrow> bool" where
  "wf_nodes ns =
     (links_ok ns
      \<and> (\<forall>i < length ns. best_links_ok ns i (n_best_child (ns ! i)) (n_best_descendant (ns ! i))))"

definition wf_array :: "proto_array \<Rightarrow> bool" where
  "wf_array pa = (wf_nodes (pa_nodes pa) \<and> indices_ok (pa_nodes pa) (pa_indices pa))"

lemma links_ok_parent_idx:
  assumes "links_ok ns" and "i < length ns"
  shows "parent_idx ns i = n_parent (ns ! i)"
proof -
  have "case n_parent (ns ! i) of Some p \<Rightarrow> p < i | None \<Rightarrow> True"
    using assms unfolding links_ok_def by blast
  then show ?thesis
    using assms(2) by (cases "n_parent (ns ! i)") (simp_all add: parent_idx_def nth_opt_def)
qed

lemma links_ok_less: "links_ok ns \<Longrightarrow> i < length ns \<Longrightarrow> n_parent (ns ! i) = Some p \<Longrightarrow> p < i"
  by (metis links_ok_parent_idx parent_idx_less)

lemma indices_ok_get:
  assumes "indices_ok ns m"
  shows "hm_get m r = Some i \<longleftrightarrow> i < length ns \<and> n_root (ns ! i) = r"
proof -
  let ?root = "\<lambda>i. n_root (ns ! i)"
  have ok: "hm_ok m" and len: "hm_len m = length ns"
    and get: "\<And>i. i < length ns \<Longrightarrow> hm_get m (?root i) = Some i"
    using assms by (auto simp: indices_ok_def)
  have "inj_on ?root {..<length ns}"
    using get by (force intro: inj_onI dest: arg_cong [where f = "hm_get m"])
  then have "card (?root ` {..<length ns}) = card {k. hm_get m k \<noteq> None}"
    using hm.len_card [OF ok] len by (simp add: card_image)
  moreover have "?root ` {..<length ns} \<subseteq> {k. hm_get m k \<noteq> None}"
    using get by auto
  ultimately have keys: "?root ` {..<length ns} = {k. hm_get m k \<noteq> None}"
    using card_subset_eq [OF hm.finite_keys] by blast
  show ?thesis
  proof
    assume r: "hm_get m r = Some i"
    then have "r \<in> ?root ` {..<length ns}" by (simp add: keys)
    then obtain k where "k < length ns" "r = ?root k" by blast
    then show "i < length ns \<and> ?root i = r" using get [of k] r by simp
  next
    assume "i < length ns \<and> ?root i = r"
    then show "hm_get m r = Some i" using get by blast
  qed
qed

lemma indices_ok_distinct:
  assumes "indices_ok ns m" and "i < length ns" and "j < length ns"
    and "n_root (ns ! i) = n_root (ns ! j)"
  shows "i = j"
  using assms(2,3,4) indices_ok_get [OF assms(1), of "n_root (ns ! i)" i]
    indices_ok_get [OF assms(1), of "n_root (ns ! i)" j] by simp

lemma wf_array_lookup:
  "wf_array pa \<Longrightarrow>
     hm_get (pa_indices pa) r = Some i \<longleftrightarrow> i < length (pa_nodes pa) \<and> n_root (pa_nodes pa ! i) = r"
  unfolding wf_array_def using indices_ok_get by blast

lemma wf_array_get_node:
  assumes "wf_array pa"
  shows "get_node pa r = Some n \<longleftrightarrow>
    (\<exists>i < length (pa_nodes pa). pa_nodes pa ! i = n \<and> n_root n = r)"
  using wf_array_lookup [OF assms]
  by (auto simp: get_node_def bind_eq_Some_conv)

lemma wf_nodes_parent_idx:
  "wf_nodes ns \<Longrightarrow> i < length ns \<Longrightarrow> parent_idx ns i = n_parent (ns ! i)"
  by (simp add: wf_nodes_def links_ok_parent_idx)

lemma wf_array_parent_idx:
  "wf_array pa \<Longrightarrow> i < length (pa_nodes pa) \<Longrightarrow>
     parent_idx (pa_nodes pa) i = n_parent (pa_nodes pa ! i)"
  by (simp add: wf_array_def wf_nodes_parent_idx)

lemma wf_nodes_best:
  "wf_nodes ns \<Longrightarrow> i < length ns \<Longrightarrow>
     best_links_ok ns i (n_best_child (ns ! i)) (n_best_descendant (ns ! i))"
  by (simp add: wf_nodes_def)

section \<open>Updates that keep the tree\<close>

lemma links_ok_skeleton:
  assumes "skeleton ns' = skeleton ns" and "links_ok ns"
  shows "links_ok ns'"
  using assms(2) skeleton_nth(3) [OF assms(1)] skeleton_length [OF assms(1)]
  by (simp add: links_ok_def)

lemma indices_ok_skeleton:
  assumes "skeleton ns' = skeleton ns" and "indices_ok ns m"
  shows "indices_ok ns' m"
  using assms(2) skeleton_nth(1) [OF assms(1)] skeleton_length [OF assms(1)]
  by (simp add: indices_ok_def)

lemma best_links_ok_skeleton:
  assumes "skeleton ns' = skeleton ns"
  shows "best_links_ok ns' = best_links_ok ns"
  unfolding best_links_ok_def fun_eq_iff
  by (simp only: skeleton_parent_idx [OF assms] skeleton_ancestors [OF assms]
      skeleton_length [OF assms] simp_thms)

lemma wf_nodes_update:
  assumes wf: "wf_nodes ns" and i: "i < length ns"
    and same: "n_root n = n_root (ns ! i)" "n_slot n = n_slot (ns ! i)"
      "n_parent n = n_parent (ns ! i)"
    and best: "best_links_ok ns i (n_best_child n) (n_best_descendant n)"
  shows "wf_nodes (ns[i := n])"
proof -
  have sk: "skeleton (ns[i := n]) = skeleton ns" using same by (rule skeleton_update)
  show ?thesis
    using wf best i links_ok_skeleton [OF sk]
    by (simp add: wf_nodes_def best_links_ok_skeleton [OF sk] nth_list_update)
qed

lemma best_links_ok_sub:
  assumes "best_links_ok ns i b d" and "b' = b \<or> b' = None" and "d' = d \<or> d' = None"
  shows "best_links_ok ns i b' d'"
  using assms by (auto simp: best_links_ok_def split: option.splits)

text \<open>An update of one node that keeps root, slot and parent and only drops best links.\<close>

definition keeps_node :: "proto_node \<Rightarrow> proto_node \<Rightarrow> bool" where
  "keeps_node n n' \<longleftrightarrow> n_root n' = n_root n \<and> n_slot n' = n_slot n \<and> n_parent n' = n_parent n
     \<and> (n_best_child n' = n_best_child n \<or> n_best_child n' = None)
     \<and> (n_best_descendant n' = n_best_descendant n \<or> n_best_descendant n' = None)"

lemma wf_set_node:
  assumes "wf_array pa" and "i < length (pa_nodes pa)" and "keeps_node (pa_nodes pa ! i) n"
  shows "wf_array (set_node pa i n)"
proof -
  have sk: "skeleton ((pa_nodes pa)[i := n]) = skeleton (pa_nodes pa)"
    using assms(3) by (intro skeleton_update) (simp_all add: keeps_node_def)
  have "wf_nodes ((pa_nodes pa)[i := n])"
    using assms by (intro wf_nodes_update)
      (auto simp: keeps_node_def wf_array_def intro: best_links_ok_sub [OF wf_nodes_best])
  then show ?thesis
    using assms(1) indices_ok_skeleton [OF sk] by (simp add: wf_array_def set_node_def)
qed

section \<open>What viability depends on\<close>

text \<open>\<open>bare\<close> forgets the best links of a node, \<open>core\<close> its weight as well.\<close>

definition bare :: "proto_node \<Rightarrow> proto_node" where
  "bare n = n\<lparr>n_best_child := None, n_best_descendant := None\<rparr>"

definition core :: "proto_node \<Rightarrow> proto_node" where
  "core n = (bare n)\<lparr>n_weight := 0\<rparr>"

definition bare_array :: "proto_array \<Rightarrow> proto_array" where
  "bare_array pa = pa\<lparr>pa_nodes := map bare (pa_nodes pa)\<rparr>"

definition core_array :: "proto_array \<Rightarrow> proto_array" where
  "core_array pa = pa\<lparr>pa_nodes := map core (pa_nodes pa),
     pa_previous_proposer_boost := proposer_boost_default, pa_prune_threshold := 0\<rparr>"

lemma core_fields [simp]:
  "n_slot (core n) = n_slot n" "n_root (core n) = n_root n" "n_parent (core n) = n_parent n"
  "n_execution_status (core n) = n_execution_status n"
  "n_justified_checkpoint (core n) = n_justified_checkpoint n"
  "n_finalized_checkpoint (core n) = n_finalized_checkpoint n"
  "n_unrealized_justified_checkpoint (core n) = n_unrealized_justified_checkpoint n"
  "n_unrealized_finalized_checkpoint (core n) = n_unrealized_finalized_checkpoint n"
  "n_builder_index (core n) = n_builder_index n"
  "n_payload_revealed (core n) = n_payload_revealed n"
  by (simp_all add: core_def bare_def)

lemma bare_fields [simp]:
  "n_slot (bare n) = n_slot n" "n_root (bare n) = n_root n" "n_parent (bare n) = n_parent n"
  "n_execution_status (bare n) = n_execution_status n" "n_weight (bare n) = n_weight n"
  by (simp_all add: bare_def)

lemma core_bare [simp]: "core (bare n) = core n" "bare (bare n) = bare n"
  by (simp_all add: core_def bare_def)

lemma nth_opt_map: "nth_opt (map f xs) i = map_option f (nth_opt xs i)"
  by (simp add: nth_opt_def)

lemma core_array_get_node: "get_node (core_array pa) r = map_option core (get_node pa r)"
  by (simp add: get_node_def core_array_def nth_opt_map split: Option.bind_splits)

lemma core_finalized_walk:
  "finalized_walk fuel (core_array pa) s (core n) = finalized_walk fuel pa s n"
proof (induction fuel arbitrary: n)
  case 0
  show ?case by simp
next
  case (Suc fuel)
  show ?case
  proof (cases "Option.bind (n_parent n) (nth_opt (pa_nodes pa))")
    case None
    then have "Option.bind (n_parent n) (nth_opt (map core (pa_nodes pa))) = None"
      by (auto simp: nth_opt_map split: Option.bind_splits)
    then show ?thesis using None by (simp add: core_array_def)
  next
    case (Some m)
    then have "Option.bind (n_parent n) (nth_opt (map core (pa_nodes pa))) = Some (core m)"
      by (auto simp: nth_opt_map split: Option.bind_splits)
    then show ?thesis using Suc Some by (simp add: core_array_def)
  qed
qed

lemma core_is_finalized:
  "is_finalized_checkpoint_or_descendant E (core_array pa) r =
   is_finalized_checkpoint_or_descendant E pa r"
  unfolding is_finalized_checkpoint_or_descendant_def core_array_get_node
  using core_finalized_walk
  by (cases "get_node pa r") (simp_all add: Let_def core_array_def)

lemma core_viable:
  "node_is_viable_for_head E (core_array pa) (core n) s = node_is_viable_for_head E pa n s"
proof -
  have "pa_justified_checkpoint (core_array pa) = pa_justified_checkpoint pa"
    "pa_finalized_checkpoint (core_array pa) = pa_finalized_checkpoint pa"
    by (simp_all add: core_array_def)
  then show ?thesis
    unfolding node_is_viable_for_head_def by (simp only: core_fields core_is_finalized)
qed

lemma viable_cong:
  assumes "core_array pa' = core_array pa" and "core n' = core n"
  shows "node_is_viable_for_head E pa' n' s = node_is_viable_for_head E pa n s"
  using core_viable [of E pa' n' s] core_viable [of E pa n s] assms by simp

lemma core_array_of_bare:
  assumes "bare_array pa' = bare_array pa"
  shows "core_array pa' = core_array pa"
proof -
  have "core_array (bare_array q) = core_array q" for q
    by (simp add: core_array_def bare_array_def o_def)
  then show ?thesis using assms by metis
qed

lemma bare_array_length: "bare_array pa' = bare_array pa \<Longrightarrow> length (pa_nodes pa') = length (pa_nodes pa)"
  by (drule arg_cong [where f = "length \<circ> pa_nodes"]) (simp add: bare_array_def)

lemma bare_array_nth:
  assumes "bare_array pa' = bare_array pa" and "i < length (pa_nodes pa)"
  shows "bare (pa_nodes pa' ! i) = bare (pa_nodes pa ! i)"
proof -
  have "pa_nodes (bare_array pa') ! i = pa_nodes (bare_array pa) ! i" using assms(1) by simp
  then show ?thesis using assms(2) bare_array_length [OF assms(1)] by (simp add: bare_array_def)
qed

lemma bare_eq_fields:
  assumes "bare n' = bare n"
  shows "n_root n' = n_root n" "n_slot n' = n_slot n" "n_parent n' = n_parent n"
    "n_weight n' = n_weight n" "n_execution_status n' = n_execution_status n"
    "core n' = core n"
  using arg_cong [OF assms, of n_root] arg_cong [OF assms, of n_slot]
    arg_cong [OF assms, of n_parent] arg_cong [OF assms, of n_weight]
    arg_cong [OF assms, of n_execution_status] arg_cong [OF assms, of core] by simp_all

section \<open>Choosing the best child\<close>

definition viable :: "eth_spec \<Rightarrow> slot \<Rightarrow> proto_array \<Rightarrow> usize \<Rightarrow> bool" where
  "viable E s pa i = node_is_viable_for_head E pa (pa_nodes pa ! i) s"

definition leads :: "eth_spec \<Rightarrow> slot \<Rightarrow> proto_array \<Rightarrow> usize \<Rightarrow> bool" where
  "leads E s pa i =
     ((case n_best_descendant (pa_nodes pa ! i) of Some d \<Rightarrow> viable E s pa d | None \<Rightarrow> False)
      \<or> viable E s pa i)"

definition score_le :: "proto_node \<Rightarrow> proto_node \<Rightarrow> bool" where
  "score_le m n \<longleftrightarrow> n_weight m < n_weight n \<or> n_weight m = n_weight n \<and> n_root m \<le> n_root n"

definition chain_end :: "proto_array \<Rightarrow> usize \<Rightarrow> usize" where
  "chain_end pa i = (case n_best_descendant (pa_nodes pa ! i) of Some d \<Rightarrow> d | None \<Rightarrow> i)"

text \<open>
  The pure content of \<^const>\<open>choose_best\<close> on a well-formed array: the new links of a parent, from its
  old links, when its child \<open>c\<close> whose chain ends in \<open>e\<close> is considered.
\<close>

definition pick ::
    "(usize \<Rightarrow> bool) \<Rightarrow> proto_node list \<Rightarrow> usize \<Rightarrow> usize
     \<Rightarrow> usize option \<times> usize option \<Rightarrow> usize option \<times> usize option" where
  "pick lead ns c e links =
     (case fst links of
        None \<Rightarrow> if lead c then (Some c, Some e) else links
      | Some b \<Rightarrow>
          if b = c then (if lead c then (Some c, Some e) else (None, None))
          else if lead c \<and> \<not> lead b then (Some c, Some e)
          else if \<not> lead c \<and> lead b then links
          else if score_le (ns ! b) (ns ! c) then (Some c, Some e) else links)"

abbreviation best_links :: "proto_array \<Rightarrow> usize \<Rightarrow> usize option \<times> usize option" where
  "best_links pa i \<equiv> (n_best_child (pa_nodes pa ! i), n_best_descendant (pa_nodes pa ! i))"

definition pick_best ::
    "eth_spec \<Rightarrow> slot \<Rightarrow> proto_array \<Rightarrow> usize \<Rightarrow> usize \<Rightarrow> usize option \<times> usize option" where
  "pick_best E s pa p c =
     pick (leads E s pa) (pa_nodes pa) c (chain_end pa c) (best_links pa p)"

definition update_best :: "eth_spec \<Rightarrow> slot \<Rightarrow> proto_array \<Rightarrow> usize \<Rightarrow> usize \<Rightarrow> proto_array" where
  "update_best E s pa p c =
     (case pick_best E s pa p c of (b, d) \<Rightarrow>
        set_node pa p ((pa_nodes pa ! p)\<lparr>n_best_child := b, n_best_descendant := d\<rparr>))"

lemma node_leads_total:
  assumes "wf_array pa" and "i < length (pa_nodes pa)"
  shows "node_leads_to_viable_head E pa (pa_nodes pa ! i) s = Inr (leads E s pa i)"
proof (cases "n_best_descendant (pa_nodes pa ! i)")
  case None
  then show ?thesis by (simp add: node_leads_to_viable_head_def leads_def viable_def)
next
  case (Some d)
  then have "d < length (pa_nodes pa)"
    using assms wf_nodes_best [of "pa_nodes pa" i] by (simp add: wf_array_def best_links_ok_def)
  then show ?thesis
    using Some by (simp add: node_leads_to_viable_head_def leads_def viable_def nth_opt_def)
qed

lemma choose_best_total:
  assumes wf: "wf_array pa" and p: "p < length (pa_nodes pa)" and c: "c < length (pa_nodes pa)"
  shows "choose_best E pa (pa_nodes pa ! p) c (pa_nodes pa ! c) s = Inr (pick_best E s pa p c)"
proof (cases "n_best_child (pa_nodes pa ! p)")
  case None
  then show ?thesis
    by (simp add: choose_best_def pick_best_def pick_def node_leads_total [OF wf c] chain_end_def Let_def
        split: option.splits)
next
  case (Some b)
  then have b: "b < length (pa_nodes pa)"
    using wf p wf_nodes_best [of "pa_nodes pa" p] by (simp add: wf_array_def best_links_ok_def)
  have to_child: "(case n_best_descendant (pa_nodes pa ! c) of None \<Rightarrow> Some c | Some d \<Rightarrow> Some d) =
      Some (chain_end pa c)"
    by (simp add: chain_end_def split: option.splits)
  show ?thesis
    using Some b
    by (auto simp: choose_best_def pick_best_def pick_def node_leads_total [OF wf c] to_child
        node_leads_total [OF wf b] nth_opt_def Let_def score_le_def)
qed

lemma maybe_update_total:
  assumes "wf_array pa" and "p < length (pa_nodes pa)" and "c < length (pa_nodes pa)"
  shows "maybe_update_best_child_and_descendant E pa p c s = Inr (update_best E s pa p c)"
  using assms choose_best_total [OF assms]
  by (simp add: maybe_update_best_child_and_descendant_def update_best_def nth_opt_def
      split: prod.splits)

lemma pick_best_cases:
  "pick_best E s pa p c \<in> {(Some c, Some (chain_end pa c)), (None, None), best_links pa p}"
  by (cases "n_best_child (pa_nodes pa ! p)") (simp_all add: pick_best_def pick_def)

lemma pick_best_links_ok:
  assumes wf: "wf_array pa" and c: "c < length (pa_nodes pa)"
    and par: "parent_idx (pa_nodes pa) c = Some p"
  shows "best_links_ok (pa_nodes pa) p (fst (pick_best E s pa p c)) (snd (pick_best E s pa p c))"
proof -
  let ?ns = "pa_nodes pa"
  have p: "p < c" "p < length ?ns" using par parent_idx_less parent_idx_in_range by blast+
  have wfn: "wf_nodes ?ns" using wf by (simp add: wf_array_def)
  have cb: "best_links_ok ?ns c (n_best_child (?ns ! c)) (n_best_descendant (?ns ! c))"
    using wfn c by (rule wf_nodes_best)
  have "c \<le> chain_end pa c \<and> chain_end pa c < length ?ns \<and> c \<in> set (ancestors ?ns (chain_end pa c))"
    using cb c by (auto simp: chain_end_def best_links_ok_def tree.self_in_anc split: option.splits)
  moreover have "p \<in> set (ancestors ?ns c)" using par by (rule tree.parent_in_anc)
  ultimately have "best_links_ok ?ns p (Some c) (Some (chain_end pa c))"
    using c par p tree.anc_trans by (auto simp: best_links_ok_def)
  moreover have "best_links_ok ?ns p (n_best_child (?ns ! p)) (n_best_descendant (?ns ! p))"
    using wfn p(2) by (rule wf_nodes_best)
  moreover have "best_links_ok ?ns p None None" by (simp add: best_links_ok_def)
  ultimately show ?thesis using pick_best_cases [of E s pa p c] by auto
qed

lemma wf_update_best:
  assumes wf: "wf_array pa" and c: "c < length (pa_nodes pa)"
    and par: "parent_idx (pa_nodes pa) c = Some p"
  shows "wf_array (update_best E s pa p c)"
proof -
  obtain b d where bd: "pick_best E s pa p c = (b, d)" by fastforce
  let ?n = "(pa_nodes pa ! p)\<lparr>n_best_child := b, n_best_descendant := d\<rparr>"
  have p: "p < length (pa_nodes pa)" using par by (rule parent_idx_in_range)
  have "wf_nodes ((pa_nodes pa)[p := ?n])"
    using pick_best_links_ok [OF wf c par, of E s] bd p wf
    by (intro wf_nodes_update) (simp_all add: wf_array_def)
  moreover have "skeleton ((pa_nodes pa)[p := ?n]) = skeleton (pa_nodes pa)"
    by (rule skeleton_update) simp_all
  then have "indices_ok ((pa_nodes pa)[p := ?n]) (pa_indices pa)"
    using wf by (simp add: wf_array_def indices_ok_skeleton)
  ultimately show ?thesis by (simp add: update_best_def bd wf_array_def set_node_def)
qed

lemma map_update_same:
  assumes "f x = f (xs ! i)"
  shows "map f (xs[i := x]) = map f xs"
proof (cases "i < length xs")
  case True
  then have "f x = map f xs ! i" using assms by simp
  then show ?thesis by (simp only: map_update list_update_id)
next
  case False
  then show ?thesis by (simp add: list_update_beyond)
qed

lemma bare_update_best [simp]: "bare_array (update_best E s pa p c) = bare_array pa"
proof -
  have "map bare ((pa_nodes pa)[p := (pa_nodes pa ! p)\<lparr>n_best_child := b, n_best_descendant := d\<rparr>])
      = map bare (pa_nodes pa)" for b d
    by (rule map_update_same) (simp add: bare_def)
  then show ?thesis
    by (simp add: update_best_def set_node_def bare_array_def split: prod.splits)
qed

text \<open>The pure content of \<^const>\<open>update_best_loop\<close>.\<close>

fun best_pass :: "eth_spec \<Rightarrow> slot \<Rightarrow> nat \<Rightarrow> proto_array \<Rightarrow> proto_array" where
  "best_pass E s 0 pa = pa"
| "best_pass E s (Suc i) pa =
     best_pass E s i
       (case n_parent (pa_nodes pa ! i) of Some p \<Rightarrow> update_best E s pa p i | None \<Rightarrow> pa)"

lemma best_pass_step:
  assumes "wf_array pa" and "i < length (pa_nodes pa)"
  shows "wf_array (case n_parent (pa_nodes pa ! i) of Some p \<Rightarrow> update_best E s pa p i | None \<Rightarrow> pa)"
    "bare_array (case n_parent (pa_nodes pa ! i) of Some p \<Rightarrow> update_best E s pa p i | None \<Rightarrow> pa)
      = bare_array pa"
  using assms wf_array_parent_idx [OF assms]
  by (auto split: option.splits intro: wf_update_best)

lemma best_pass_keeps:
  assumes "wf_array pa" and "k \<le> length (pa_nodes pa)"
  shows "wf_array (best_pass E s k pa) \<and> bare_array (best_pass E s k pa) = bare_array pa"
  using assms
proof (induction k arbitrary: pa)
  case 0
  then show ?case by simp
next
  case (Suc i)
  let ?pa = "case n_parent (pa_nodes pa ! i) of Some p \<Rightarrow> update_best E s pa p i | None \<Rightarrow> pa"
  have i: "i < length (pa_nodes pa)" using Suc.prems(2) by simp
  note step = best_pass_step [OF Suc.prems(1) i, of E s]
  have "i \<le> length (pa_nodes ?pa)" using i bare_array_length [OF step(2)] by simp
  then show ?case using Suc.IH [OF step(1)] step(2) by simp
qed

lemma update_best_loop_total:
  assumes "wf_array pa" and "k \<le> length (pa_nodes pa)"
  shows "update_best_loop E s k pa = Inr (best_pass E s k pa)"
  using assms
proof (induction k arbitrary: pa)
  case 0
  then show ?case by simp
next
  case (Suc i)
  let ?pa = "case n_parent (pa_nodes pa ! i) of Some p \<Rightarrow> update_best E s pa p i | None \<Rightarrow> pa"
  have i: "i < length (pa_nodes pa)" using Suc.prems(2) by simp
  note step = best_pass_step [OF Suc.prems(1) i, of E s]
  have "(case n_parent (pa_nodes pa ! i) of
           Some p \<Rightarrow> maybe_update_best_child_and_descendant E pa p i s | None \<Rightarrow> Inr pa) = Inr ?pa"
    using maybe_update_total [OF Suc.prems(1) _ i] wf_array_parent_idx [OF Suc.prems(1) i]
      parent_idx_in_range [of "pa_nodes pa" i]
    by (simp split: option.splits)
  moreover have "i \<le> length (pa_nodes ?pa)" using i bare_array_length [OF step(2)] by simp
  ultimately show ?case
    using Suc.IH [OF step(1)] i by (simp add: nth_opt_def)
qed

end
