(* ===== verification/Proto_Ghost.thy ===== *)
theory Proto_Ghost
  imports Proto_Wf
begin

text \<open>
  The second loop of \<^verbatim>\<open>apply_score_changes\<close> against a reference definition of GHOST: from the
  justified block, descend to the heaviest child (ties by root) among the children that have a
  viable node in their subtree. The loop reads best links that are still stale; the invariant
  \<open>partial\<close> says what it knows after each iteration.
\<close>

section \<open>The reference definition\<close>

definition reaches :: "eth_spec \<Rightarrow> slot \<Rightarrow> proto_array \<Rightarrow> usize \<Rightarrow> bool" where
  "reaches E s pa i =
     (\<exists>j < length (pa_nodes pa). viable E s pa j \<and> i \<in> set (ancestors (pa_nodes pa) j))"

definition better :: "proto_node list \<Rightarrow> usize option \<Rightarrow> usize \<Rightarrow> usize option" where
  "better ns best c =
     (case best of
        Some b \<Rightarrow> if score_le (ns ! b) (ns ! c) then Some c else Some b
      | None \<Rightarrow> Some c)"

definition ghost_child :: "(usize \<Rightarrow> bool) \<Rightarrow> proto_node list \<Rightarrow> usize \<Rightarrow> usize option" where
  "ghost_child T ns i =
     foldl (better ns) None (filter (\<lambda>c. parent_idx ns c = Some i \<and> T c) [0 ..< length ns])"

lemma score_le_refl: "score_le n n"
  by (simp add: score_le_def)

lemma score_le_trans: "score_le a b \<Longrightarrow> score_le b c \<Longrightarrow> score_le a c"
  by (auto simp: score_le_def)

lemma score_le_linear: "\<not> score_le a b \<Longrightarrow> score_le b a"
  by (auto simp: score_le_def)

lemma foldl_better:
  "(case foldl (better ns) init cs of
      None \<Rightarrow> init = None \<and> cs = []
    | Some m \<Rightarrow> (init = Some m \<or> m \<in> set cs)
        \<and> (\<forall>c. init = Some c \<or> c \<in> set cs \<longrightarrow> score_le (ns ! c) (ns ! m)))"
proof (induction cs arbitrary: init)
  case Nil
  show ?case by (auto simp: score_le_refl split: option.splits)
next
  case (Cons c cs)
  obtain b where b: "better ns init c = Some b" "init = Some b \<or> b = c"
    "score_le (ns ! c) (ns ! b)" "\<And>x. init = Some x \<Longrightarrow> score_le (ns ! x) (ns ! b)"
  proof (cases init)
    case None
    then show ?thesis using that [of c] by (simp add: better_def score_le_refl)
  next
    case (Some a)
    then show ?thesis
      using that [of c] that [of a] score_le_linear [of "ns ! a" "ns ! c"]
      by (cases "score_le (ns ! a) (ns ! c)") (simp_all add: better_def score_le_refl)
  qed
  show ?case
    using Cons.IH [of "Some b"] b by (auto split: option.splits intro: score_le_trans)
qed

lemma ghost_child_Some:
  assumes "ghost_child T ns i = Some c"
  shows "c < length ns" "parent_idx ns c = Some i" "T c"
    "\<And>c'. parent_idx ns c' = Some i \<Longrightarrow> T c' \<Longrightarrow> score_le (ns ! c') (ns ! c)"
  using assms parent_idx_in_range(1)
    foldl_better [where init = None and ns = ns
      and cs = "filter (\<lambda>c. parent_idx ns c = Some i \<and> T c) [0 ..< length ns]"]
  by (auto simp: ghost_child_def)

lemma ghost_child_None:
  "ghost_child T ns i = None \<longleftrightarrow> (\<forall>c. parent_idx ns c = Some i \<longrightarrow> \<not> T c)"
  using parent_idx_in_range(1)
    foldl_better [where init = None and ns = ns
      and cs = "filter (\<lambda>c. parent_idx ns c = Some i \<and> T c) [0 ..< length ns]"]
  by (cases "ghost_child T ns i") (auto simp: ghost_child_def filter_empty_conv)

function ghost_head :: "(usize \<Rightarrow> bool) \<Rightarrow> proto_node list \<Rightarrow> usize \<Rightarrow> usize" where
  "ghost_head T ns i =
     (case ghost_child T ns i of Some c \<Rightarrow> ghost_head T ns c | None \<Rightarrow> i)"
  by pat_completeness auto
termination
proof (relation "measure (\<lambda>(T, ns, i). length ns - i)", goal_cases)
  case (2 T ns i c)
  then show ?case
    using ghost_child_Some(1,2) [OF 2] parent_idx_less [of ns c i] by simp
qed simp

declare ghost_head.simps [simp del]

lemma ghost_head_cases:
  "ghost_child T ns i = None \<Longrightarrow> ghost_head T ns i = i"
  "ghost_child T ns i = Some c \<Longrightarrow> ghost_head T ns i = ghost_head T ns c"
  by (simp_all add: ghost_head.simps [of T ns i])

text \<open>With distinct roots the heaviest child is unique.\<close>

lemma ghost_childI:
  assumes dist: "\<And>c c'. c < length ns \<Longrightarrow> c' < length ns \<Longrightarrow>
      n_root (ns ! c) = n_root (ns ! c') \<Longrightarrow> c = c'"
    and c: "parent_idx ns c = Some i" "T c"
    and max: "\<And>c'. parent_idx ns c' = Some i \<Longrightarrow> T c' \<Longrightarrow> score_le (ns ! c') (ns ! c)"
  shows "ghost_child T ns i = Some c"
proof (cases "ghost_child T ns i")
  case None
  then show ?thesis using c by (simp add: ghost_child_None)
next
  case (Some m)
  have "score_le (ns ! c) (ns ! m)" using ghost_child_Some(4) [OF Some] c by blast
  moreover have "score_le (ns ! m) (ns ! c)" using max ghost_child_Some(2,3) [OF Some] by blast
  ultimately have "n_root (ns ! c) = n_root (ns ! m)" by (auto simp: score_le_def)
  then have "c = m" using dist ghost_child_Some(1) [OF Some] parent_idx_in_range(1) [OF c(1)] by blast
  then show ?thesis using Some by simp
qed

lemma reaches_cases:
  assumes "i < length (pa_nodes pa)"
  shows "reaches E s pa i \<longleftrightarrow>
    viable E s pa i \<or> (\<exists>c. parent_idx (pa_nodes pa) c = Some i \<and> reaches E s pa c)"
proof
  assume "reaches E s pa i"
  then obtain j where j: "j < length (pa_nodes pa)" "viable E s pa j"
    "i \<in> set (ancestors (pa_nodes pa) j)" by (auto simp: reaches_def)
  show "viable E s pa i \<or> (\<exists>c. parent_idx (pa_nodes pa) c = Some i \<and> reaches E s pa c)"
  proof (cases "i = j")
    case True
    then show ?thesis using j by simp
  next
    case False
    then show ?thesis using tree.anc_via_child [OF j(3)] j(1,2) by (auto simp: reaches_def)
  qed
next
  assume "viable E s pa i \<or> (\<exists>c. parent_idx (pa_nodes pa) c = Some i \<and> reaches E s pa c)"
  then show "reaches E s pa i"
    using assms by (auto simp: reaches_def intro: tree.self_in_anc tree.anc_trans tree.parent_in_anc)
qed

lemma ghost_head_viable:
  assumes "reaches E s pa i" and "i < length (pa_nodes pa)"
  shows "viable E s pa (ghost_head (reaches E s pa) (pa_nodes pa) i)
    \<and> ghost_head (reaches E s pa) (pa_nodes pa) i < length (pa_nodes pa)
    \<and> i \<in> set (ancestors (pa_nodes pa) (ghost_head (reaches E s pa) (pa_nodes pa) i))"
  using assms
proof (induction "reaches E s pa" "pa_nodes pa" i rule: ghost_head.induct)
  case (1 i)
  show ?case
  proof (cases "ghost_child (reaches E s pa) (pa_nodes pa) i")
    case None
    then have "viable E s pa i"
      using "1.prems" reaches_cases by (auto simp: ghost_child_None)
    then show ?thesis using "1.prems" None by (simp add: ghost_head_cases tree.self_in_anc)
  next
    case (Some c)
    note c = ghost_child_Some [OF Some]
    have "i \<in> set (ancestors (pa_nodes pa) c)" using c(2) by (rule tree.parent_in_anc)
    then show ?thesis
      using "1.hyps" [OF Some c(3,1)] tree.anc_trans by (auto simp: ghost_head_cases(2) [OF Some])
  qed
qed

section \<open>The loop\<close>

text \<open>
  What is known of the best links of node \<open>i\<close> once its children with index at least \<open>k\<close> have been
  processed: \<open>links0\<close> are its links before the loop, \<open>T\<close> is \<open>reaches\<close>.
\<close>

definition partial ::
    "(usize \<Rightarrow> bool) \<Rightarrow> proto_node list \<Rightarrow> nat \<Rightarrow> usize \<Rightarrow> usize option \<times> usize option
     \<Rightarrow> usize option \<times> usize option \<Rightarrow> bool" where
  "partial T ns k i links0 links \<longleftrightarrow>
     (\<forall>c'. k \<le> c' \<and> parent_idx ns c' = Some i \<and> T c' \<longrightarrow>
        (\<exists>b. fst links0 = Some b \<and> b < k \<and> T b \<and> score_le (ns ! c') (ns ! b))
        \<or> (\<exists>c. fst links = Some c \<and> k \<le> c \<and> T c \<and> score_le (ns ! c') (ns ! c)))
     \<and> (\<forall>c. fst links = Some c \<and> c < k \<longrightarrow> fst links0 = Some c)
     \<and> (\<forall>c. fst links = Some c \<and> k \<le> c \<and> T c \<longrightarrow> snd links = Some (ghost_head T ns c))
     \<and> ((\<forall>c. parent_idx ns c = Some i \<longrightarrow> \<not> T c) \<and> links0 = (None, None) \<longrightarrow> links = (None, None))"

lemma partialI:
  assumes "\<And>c'. k \<le> c' \<Longrightarrow> parent_idx ns c' = Some i \<Longrightarrow> T c' \<Longrightarrow>
      (\<exists>b. fst links0 = Some b \<and> b < k \<and> T b \<and> score_le (ns ! c') (ns ! b))
      \<or> (\<exists>c. fst links = Some c \<and> k \<le> c \<and> T c \<and> score_le (ns ! c') (ns ! c))"
    and "\<And>c. fst links = Some c \<Longrightarrow> c < k \<Longrightarrow> fst links0 = Some c"
    and "\<And>c. fst links = Some c \<Longrightarrow> k \<le> c \<Longrightarrow> T c \<Longrightarrow> snd links = Some (ghost_head T ns c)"
    and "(\<And>c. parent_idx ns c = Some i \<Longrightarrow> \<not> T c) \<Longrightarrow> links0 = (None, None) \<Longrightarrow>
      links = (None, None)"
  shows "partial T ns k i links0 links"
  unfolding partial_def using assms by blast

lemma partialD:
  assumes "partial T ns k i links0 links"
  shows "\<And>c'. k \<le> c' \<Longrightarrow> parent_idx ns c' = Some i \<Longrightarrow> T c' \<Longrightarrow>
      (\<exists>b. fst links0 = Some b \<and> b < k \<and> T b \<and> score_le (ns ! c') (ns ! b))
      \<or> (\<exists>c. fst links = Some c \<and> k \<le> c \<and> T c \<and> score_le (ns ! c') (ns ! c))"
    and "\<And>c. fst links = Some c \<Longrightarrow> c < k \<Longrightarrow> fst links0 = Some c"
    and "\<And>c. fst links = Some c \<Longrightarrow> k \<le> c \<Longrightarrow> T c \<Longrightarrow> snd links = Some (ghost_head T ns c)"
    and "(\<And>c. parent_idx ns c = Some i \<Longrightarrow> \<not> T c) \<Longrightarrow> links0 = (None, None) \<Longrightarrow>
      links = (None, None)"
  using assms unfolding partial_def by blast+

lemma partial_init:
  assumes "length ns \<le> k" and "\<And>b. fst links0 = Some b \<Longrightarrow> b < k"
  shows "partial T ns k i links0 links0"
proof (rule partialI)
  fix c'
  assume "k \<le> c'" "parent_idx ns c' = Some i"
  then have False using assms(1) parent_idx_in_range(1) [of ns c' i] by simp
  then show "(\<exists>b. fst links0 = Some b \<and> b < k \<and> T b \<and> score_le (ns ! c') (ns ! b))
      \<or> (\<exists>c. fst links0 = Some c \<and> k \<le> c \<and> T c \<and> score_le (ns ! c') (ns ! c))" ..
qed (use assms(2) in force)+

text \<open>Processing a child of another node changes nothing.\<close>

lemma partial_other:
  assumes inv: "partial T ns (Suc c) i links0 links" and other: "parent_idx ns c \<noteq> Some i"
    and par0: "\<And>b. fst links0 = Some b \<Longrightarrow> parent_idx ns b = Some i"
    and par: "\<And>b. fst links = Some b \<Longrightarrow> parent_idx ns b = Some i"
  shows "partial T ns c i links0 links"
proof (rule partialI)
  have less: "b < c \<longleftrightarrow> b < Suc c" "c \<le> b \<longleftrightarrow> Suc c \<le> b" if "parent_idx ns b = Some i" for b
    using that other by (cases "b = c", auto)+
  fix c'
  show "(\<exists>b. fst links0 = Some b \<and> b < c \<and> T b \<and> score_le (ns ! c') (ns ! b))
      \<or> (\<exists>d. fst links = Some d \<and> c \<le> d \<and> T d \<and> score_le (ns ! c') (ns ! d))"
    if "c \<le> c'" "parent_idx ns c' = Some i" "T c'"
    using partialD(1) [OF inv, of c'] that less(2) [of c'] par0 par less by metis
  show "fst links0 = Some c'" if "fst links = Some c'" "c' < c"
    using partialD(2) [OF inv] that by simp
  show "snd links = Some (ghost_head T ns c')" if "fst links = Some c'" "c \<le> c'" "T c'"
    using partialD(3) [OF inv that(1)] that less(2) par by blast
next
  show "links = (None, None)" if "\<And>c. parent_idx ns c = Some i \<Longrightarrow> \<not> T c" "links0 = (None, None)"
    using partialD(4) [OF inv] that by blast
qed

text \<open>Choosing the processed child: it is maximal unless the stale best child dominates.\<close>

lemma partial_take:
  assumes inv: "partial T ns (Suc c) p links0 links"
    and par: "parent_idx ns c = Some p"
    and T: "T c" and e: "e = ghost_head T ns c"
    and le: "\<And>b. fst links = Some b \<Longrightarrow> c < b \<Longrightarrow> T b \<Longrightarrow> score_le (ns ! b) (ns ! c)"
  shows "partial T ns c p links0 (Some c, Some e)"
proof (rule partialI)
  fix c'
  assume c': "c \<le> c'" "parent_idx ns c' = Some p" "T c'"
  show "(\<exists>b. fst links0 = Some b \<and> b < c \<and> T b \<and> score_le (ns ! c') (ns ! b))
      \<or> (\<exists>d. fst (Some c, Some e) = Some d \<and> c \<le> d \<and> T d \<and> score_le (ns ! c') (ns ! d))"
  proof (cases "c' = c")
    case True
    then show ?thesis using T by (simp add: score_le_refl)
  next
    case False
    then consider b where "fst links0 = Some b" "b < Suc c" "T b" "score_le (ns ! c') (ns ! b)"
      | d where "fst links = Some d" "c < d" "T d" "score_le (ns ! c') (ns ! d)"
      using partialD(1) [OF inv, of c'] c' by (auto simp: Suc_le_eq)
    then show ?thesis
    proof cases
      case 1
      then show ?thesis using T by (cases "b = c") auto
    next
      case 2
      then show ?thesis using le score_le_trans T by auto
    qed
  qed
qed (use par T e in auto)

text \<open>Keeping the links, or moving to a child that leads nowhere.\<close>

lemma partial_keep:
  assumes inv: "partial T ns (Suc c) p links0 links"
    and par: "parent_idx ns c = Some p" "\<And>b. fst links = Some b \<Longrightarrow> b \<noteq> c"
    and le: "T c \<Longrightarrow> \<exists>b. fst links = Some b \<and> T b \<and> score_le (ns ! c) (ns ! b)"
  shows "partial T ns c p links0 links"
proof (rule partialI)
  fix c'
  assume c': "c \<le> c'" "parent_idx ns c' = Some p" "T c'"
  show "(\<exists>b. fst links0 = Some b \<and> b < c \<and> T b \<and> score_le (ns ! c') (ns ! b))
      \<or> (\<exists>d. fst links = Some d \<and> c \<le> d \<and> T d \<and> score_le (ns ! c') (ns ! d))"
  proof -
    have *: ?thesis if "fst links = Some b" "T b" "score_le (ns ! c') (ns ! b)" for b
      using that partialD(2) [OF inv, of b] by (cases "b < c") auto
    show ?thesis
    proof (cases "c' = c")
      case True
      then show ?thesis using le c' * by blast
    next
      case False
      then consider b where "fst links0 = Some b" "b < Suc c" "T b" "score_le (ns ! c') (ns ! b)"
        | d where "fst links = Some d" "c < d" "T d" "score_le (ns ! c') (ns ! d)"
        using partialD(1) [OF inv, of c'] c' by (auto simp: Suc_le_eq)
      then show ?thesis
      proof cases
        case 1
        then show ?thesis
        proof (cases "b = c")
          case True
          then obtain d where "fst links = Some d" "T d" "score_le (ns ! c) (ns ! d)"
            using le 1 by blast
          then show ?thesis using * score_le_trans 1 True by blast
        qed auto
      qed (use * in blast)
    qed
  qed
next
  show "snd links = Some (ghost_head T ns b)" if "fst links = Some b" "c \<le> b" "T b" for b
    using partialD(3) [OF inv that(1)] that par(2) [OF that(1)] by simp
qed (use partialD(2,4) [OF inv] in auto)

lemma partial_drop:
  assumes inv: "partial T ns (Suc c) p links0 links"
    and par: "parent_idx ns c = Some p" and nT: "\<not> T c"
    and best: "\<And>b. fst links = Some b \<Longrightarrow> c < b \<Longrightarrow> \<not> T b"
    and new: "links' = (None, None) \<or> links' = (Some c, Some e) \<and> links \<noteq> (None, None)"
  shows "partial T ns c p links0 links'"
proof (rule partialI)
  fix c'
  assume c': "c \<le> c'" "parent_idx ns c' = Some p" "T c'"
  then have "Suc c \<le> c'" using nT by (cases "c' = c") auto
  then obtain b where b: "fst links0 = Some b" "b < Suc c" "T b" "score_le (ns ! c') (ns ! b)"
    using partialD(1) [OF inv, of c'] c' best by (auto simp: Suc_le_eq)
  then have "b < c" using nT by (cases "b = c") auto
  then show "(\<exists>b. fst links0 = Some b \<and> b < c \<and> T b \<and> score_le (ns ! c') (ns ! b))
      \<or> (\<exists>d. fst links' = Some d \<and> c \<le> d \<and> T d \<and> score_le (ns ! c') (ns ! d))"
    using b by blast
next
  show "links' = (None, None)" if "\<And>c. parent_idx ns c = Some p \<Longrightarrow> \<not> T c" "links0 = (None, None)"
    using partialD(4) [OF inv] that new by blast
qed (use new nT in auto)

lemma partial_pick:
  assumes inv: "partial T ns (Suc c) p links0 links"
    and par: "parent_idx ns c = Some p"
    and lead_c: "lead c = T c" and e: "T c \<Longrightarrow> e = ghost_head T ns c"
    and lead_T: "\<And>b. fst links = Some b \<Longrightarrow> lead b \<Longrightarrow> T b"
    and lead_done: "\<And>b. fst links = Some b \<Longrightarrow> c < b \<Longrightarrow> lead b = T b"
  shows "partial T ns c p links0 (pick lead ns c e links)"
proof (cases "fst links")
  case None
  then show ?thesis
    using partial_take [OF inv par] partial_keep [OF inv par] lead_c e
    by (auto simp: pick_def)
next
  case (Some b)
  note take = partial_take [OF inv par] and keep = partial_keep [OF inv par]
    and drop = partial_drop [OF inv par]
  show ?thesis
  proof (cases "b = c")
    case True
    then show ?thesis using Some take drop lead_c e by (auto simp: pick_def)
  next
    case False
    show ?thesis
    proof (cases "T c")
      case True
      have "partial T ns c p links0 (Some c, Some e)"
        if "\<not> lead b \<or> score_le (ns ! b) (ns ! c)"
        using that True e Some lead_done by (intro take) auto
      moreover have "partial T ns c p links0 links" if "lead b" "\<not> score_le (ns ! b) (ns ! c)"
        using that True Some False lead_T score_le_linear by (intro keep) auto
      ultimately show ?thesis
        using Some False True lead_c by (auto simp: pick_def)
    next
      case nT: False
      have "partial T ns c p links0 links"
        using nT Some False by (intro keep) auto
      moreover have "partial T ns c p links0 (Some c, Some e)" if "\<not> lead b"
        using that nT Some lead_done by (intro drop) auto
      ultimately show ?thesis
        using Some False nT lead_c by (auto simp: pick_def)
    qed
  qed
qed

definition clean_leaves :: "eth_spec \<Rightarrow> slot \<Rightarrow> proto_array \<Rightarrow> bool" where
  "clean_leaves E s pa \<longleftrightarrow>
     (\<forall>i < length (pa_nodes pa).
        viable E s pa i \<and> ghost_child (reaches E s pa) (pa_nodes pa) i = None \<longrightarrow>
        n_best_child (pa_nodes pa ! i) = None \<and> n_best_descendant (pa_nodes pa ! i) = None)"

section \<open>Finished nodes\<close>

lemma bare_skeleton:
  assumes "bare_array pa' = bare_array pa"
  shows "skeleton (pa_nodes pa') = skeleton (pa_nodes pa)"
proof -
  have "map bare (pa_nodes pa') = map bare (pa_nodes pa)"
    using arg_cong [OF assms, of pa_nodes] by (simp add: bare_array_def)
  then have "skeleton (map bare (pa_nodes pa')) = skeleton (map bare (pa_nodes pa))" by simp
  then show ?thesis by (simp add: o_def)
qed

lemma bare_viable:
  assumes "bare_array pa' = bare_array pa" and "i < length (pa_nodes pa)"
  shows "viable E s pa' i = viable E s pa i"
  unfolding viable_def
  by (rule viable_cong [OF core_array_of_bare [OF assms(1)]
        bare_eq_fields(6) [OF bare_array_nth [OF assms]]])

lemma bare_reaches:
  assumes "bare_array pa' = bare_array pa"
  shows "reaches E s pa' = reaches E s pa"
  unfolding reaches_def fun_eq_iff skeleton_ancestors [OF bare_skeleton [OF assms]]
    bare_array_length [OF assms]
  using bare_viable [OF assms] by blast

lemma leads_reaches:
  assumes "wf_array pa" and "i < length (pa_nodes pa)" and "leads E s pa i"
  shows "reaches E s pa i"
proof (cases "viable E s pa i")
  case True
  then show ?thesis using assms(2) by (auto simp: reaches_def intro: tree.self_in_anc)
next
  case False
  then obtain d where d: "n_best_descendant (pa_nodes pa ! i) = Some d" "viable E s pa d"
    using assms(3) by (auto simp: leads_def split: option.splits)
  then have "d < length (pa_nodes pa)" "i \<in> set (ancestors (pa_nodes pa) d)"
    using assms(1,2) wf_nodes_best [of "pa_nodes pa" i]
    by (auto simp: wf_array_def best_links_ok_def)
  then show ?thesis using d(2) by (auto simp: reaches_def)
qed

lemma wf_best_child:
  assumes "wf_array pa" and "i < length (pa_nodes pa)" and "n_best_child (pa_nodes pa ! i) = Some c"
  shows "parent_idx (pa_nodes pa) c = Some i"
  using assms wf_nodes_best [of "pa_nodes pa" i] by (simp add: wf_array_def best_links_ok_def)

lemma partial_done_child:
  assumes wf0: "wf_array pa0" and i: "i < length (pa_nodes pa0)" and k: "k \<le> Suc i"
    and inv: "partial T (pa_nodes pa0) k i (best_links pa0 i) links"
    and m: "ghost_child T (pa_nodes pa0) i = Some m"
    and par: "\<And>c. fst links = Some c \<Longrightarrow> parent_idx (pa_nodes pa0) c = Some i"
  shows "links = (Some m, Some (ghost_head T (pa_nodes pa0) m))"
proof -
  let ?ns = "pa_nodes pa0"
  have no_stale: "\<not> (\<exists>b. fst (best_links pa0 i) = Some b \<and> b < k \<and> T b \<and> score_le n (?ns ! b))" for n
    using wf_best_child [OF wf0 i] parent_idx_less [of ?ns _ i] k by fastforce
  have dom: "\<exists>c. fst links = Some c \<and> k \<le> c \<and> T c \<and> score_le (?ns ! c') (?ns ! c)"
    if "parent_idx ?ns c' = Some i" "T c'" for c'
    using partialD(1) [OF inv _ that] no_stale [of "?ns ! c'"] parent_idx_less [OF that(1)] k by auto
  obtain c where c: "fst links = Some c" "k \<le> c" "T c"
    using dom [OF ghost_child_Some(2,3) [OF m]] by blast
  have "ghost_child T ?ns i = Some c"
  proof (rule ghost_childI)
    show "score_le (?ns ! c') (?ns ! c)" if "parent_idx ?ns c' = Some i" "T c'" for c'
      using dom [OF that] c(1) by auto
    show "a = b" if "a < length ?ns" "b < length ?ns" "n_root (?ns ! a) = n_root (?ns ! b)" for a b
      using wf0 that indices_ok_distinct by (auto simp: wf_array_def)
  qed (use par c in auto)
  then have "c = m" using m by simp
  then show ?thesis using partialD(3) [OF inv c] c(1) by (cases links) simp
qed

lemma partial_done:
  assumes wf0: "wf_array pa0" and wf: "wf_array pa" and bare: "bare_array pa = bare_array pa0"
    and clean: "clean_leaves E s pa0" and i: "i < length (pa_nodes pa0)" and k: "k \<le> Suc i"
    and inv: "partial (reaches E s pa0) (pa_nodes pa0) k i (best_links pa0 i) (best_links pa i)"
  shows "leads E s pa i = reaches E s pa0 i"
    and "reaches E s pa0 i \<Longrightarrow> chain_end pa i = ghost_head (reaches E s pa0) (pa_nodes pa0) i"
proof -
  let ?T = "reaches E s pa0" and ?ns = "pa_nodes pa0"
  have i': "i < length (pa_nodes pa)" using i bare_array_length [OF bare] by simp
  have leads_T: "?T i" if "leads E s pa i"
    using leads_reaches [OF wf i' that] bare_reaches [OF bare] by simp
  have "leads E s pa i = ?T i \<and> (?T i \<longrightarrow> chain_end pa i = ghost_head ?T ?ns i)"
  proof (cases "ghost_child ?T ?ns i")
    case (Some m)
    have links: "best_links pa i = (Some m, Some (ghost_head ?T ?ns m))"
    proof (rule partial_done_child [OF wf0 i k inv Some])
      fix c
      assume "fst (best_links pa i) = Some c"
      then show "parent_idx ?ns c = Some i"
        using wf_best_child [OF wf i'] skeleton_parent_idx [OF bare_skeleton [OF bare]] by simp
    qed
    note m = ghost_child_Some [OF Some]
    have "viable E s pa (ghost_head ?T ?ns m)"
      using ghost_head_viable [OF m(3,1)] bare_viable [OF bare] by simp
    then show ?thesis
      using links leads_T ghost_head_cases(2) [OF Some] by (auto simp: leads_def chain_end_def)
  next
    case None
    then have T_viable: "?T i = viable E s pa0 i"
      using reaches_cases [OF i] by (auto simp: ghost_child_None)
    have "chain_end pa i = i" if "?T i"
    proof -
      have "best_links pa0 i = (None, None)"
        using clean None that T_viable i by (auto simp: clean_leaves_def)
      then have "best_links pa i = (None, None)"
        using partialD(4) [OF inv] None by (simp add: ghost_child_None)
      then show ?thesis by (simp add: chain_end_def)
    qed
    moreover have "leads E s pa i" if "?T i"
      using that T_viable bare_viable [OF bare i] by (simp add: leads_def)
    ultimately show ?thesis using leads_T ghost_head_cases(1) [OF None] by auto
  qed
  then show "leads E s pa i = ?T i" "?T i \<Longrightarrow> chain_end pa i = ghost_head ?T ?ns i" by auto
qed

lemma best_links_update_best:
  assumes "p < length (pa_nodes pa)"
  shows "best_links (update_best E s pa p c) i =
    (if i = p then pick_best E s pa p c else best_links pa i)"
  using assms by (simp add: update_best_def set_node_def nth_list_update split: prod.splits)

lemma score_le_bare:
  assumes "bare_array pa = bare_array pa0" and "a < length (pa_nodes pa0)" "b < length (pa_nodes pa0)"
  shows "score_le (pa_nodes pa ! a) (pa_nodes pa ! b) = score_le (pa_nodes pa0 ! a) (pa_nodes pa0 ! b)"
  using bare_eq_fields(1,4) [OF bare_array_nth [OF assms(1,2)]]
    bare_eq_fields(1,4) [OF bare_array_nth [OF assms(1,3)]] by (simp add: score_le_def)

lemma pick_cong:
  assumes "\<And>b. fst links = Some b \<Longrightarrow> score_le (ns ! b) (ns ! c) = score_le (ns' ! b) (ns' ! c)"
  shows "pick lead ns c e links = pick lead ns' c e links"
  using assms by (auto simp: pick_def split: option.splits)

text \<open>One iteration of the loop keeps \<^const>\<open>partial\<close> for every node.\<close>

lemma partial_step:
  assumes wf0: "wf_array pa0" and wf: "wf_array pa" and bare: "bare_array pa = bare_array pa0"
    and clean: "clean_leaves E s pa0" and c: "c < length (pa_nodes pa0)"
    and inv: "\<And>i. i < length (pa_nodes pa0) \<Longrightarrow>
      partial (reaches E s pa0) (pa_nodes pa0) (Suc c) i (best_links pa0 i) (best_links pa i)"
    and i: "i < length (pa_nodes pa0)"
  defines "pa' \<equiv> (case n_parent (pa_nodes pa ! c) of Some p \<Rightarrow> update_best E s pa p c | None \<Rightarrow> pa)"
  shows "partial (reaches E s pa0) (pa_nodes pa0) c i (best_links pa0 i) (best_links pa' i)"
proof -
  let ?T = "reaches E s pa0" and ?ns = "pa_nodes pa0"
  have len: "length (pa_nodes pa) = length ?ns" using bare by (rule bare_array_length)
  have par: "parent_idx (pa_nodes pa) = parent_idx ?ns"
    using bare_skeleton [OF bare] by (rule skeleton_parent_idx)
  have par_c: "n_parent (pa_nodes pa ! c) = parent_idx ?ns c"
    using wf_array_parent_idx [OF wf] c len par by simp
  have child: "parent_idx ?ns b = Some i" if "fst (best_links pa i) = Some b" for b
    using wf_best_child [OF wf, of i b] that i len par by simp
  have child0: "parent_idx ?ns b = Some i" if "fst (best_links pa0 i) = Some b" for b
    using wf_best_child [OF wf0 i, of b] that by simp
  show ?thesis
  proof (cases "parent_idx ?ns c = Some i")
    case True
    have links: "best_links pa' i = pick (leads E s pa) (pa_nodes pa) c (chain_end pa c) (best_links pa i)"
      using True par_c best_links_update_best [of i pa E s c i] i len
      by (simp add: pa'_def pick_best_def)
    also have "\<dots> = pick (leads E s pa) ?ns c (chain_end pa c) (best_links pa i)"
    proof (rule pick_cong)
      fix b
      assume "fst (best_links pa i) = Some b"
      then have "b < length ?ns" using child parent_idx_in_range(1) by blast
      then show "score_le (pa_nodes pa ! b) (pa_nodes pa ! c) = score_le (?ns ! b) (?ns ! c)"
        using score_le_bare [OF bare _ c] by blast
    qed
    finally have links: "best_links pa' i = pick (leads E s pa) ?ns c (chain_end pa c) (best_links pa i)" .
    show ?thesis
      unfolding links
    proof (rule partial_pick [OF inv [OF i] True])
      show "leads E s pa c = ?T c" "?T c \<Longrightarrow> chain_end pa c = ghost_head ?T ?ns c"
        using partial_done [OF wf0 wf bare clean c _ inv [OF c]] by auto
      fix b
      assume b: "fst (best_links pa i) = Some b"
      then have b': "b < length ?ns" using child parent_idx_in_range(1) by blast
      show "?T b" if "leads E s pa b"
        using leads_reaches [OF wf _ that] b' len bare_reaches [OF bare] by simp
      show "leads E s pa b = ?T b" if "c < b"
        using partial_done(1) [OF wf0 wf bare clean b' _ inv [OF b']] that by simp
    qed
  next
    case False
    have "best_links pa' i = best_links pa i"
    proof (cases "parent_idx ?ns c")
      case None
      then show ?thesis by (simp add: pa'_def par_c)
    next
      case (Some p)
      then have "p < length (pa_nodes pa)" "i \<noteq> p"
        using False parent_idx_in_range(2) [OF Some] len by auto
      then show ?thesis
        using best_links_update_best [of p pa E s c i] Some par_c by (simp add: pa'_def)
    qed
    then show ?thesis
      using partial_other [OF inv [OF i] False child0 child] by simp
  qed
qed

lemma best_pass_partial:
  assumes wf0: "wf_array pa0" and clean: "clean_leaves E s pa0"
    and "wf_array pa" and "bare_array pa = bare_array pa0" and "k \<le> length (pa_nodes pa0)"
    and "\<And>i. i < length (pa_nodes pa0) \<Longrightarrow>
      partial (reaches E s pa0) (pa_nodes pa0) k i (best_links pa0 i) (best_links pa i)"
  shows "\<forall>i < length (pa_nodes pa0).
      partial (reaches E s pa0) (pa_nodes pa0) 0 i (best_links pa0 i)
        (best_links (best_pass E s k pa) i)"
  using assms(3-)
proof (induction k arbitrary: pa)
  case 0
  then show ?case by simp
next
  case (Suc c)
  let ?pa = "case n_parent (pa_nodes pa ! c) of Some p \<Rightarrow> update_best E s pa p c | None \<Rightarrow> pa"
  have c: "c < length (pa_nodes pa0)" "c < length (pa_nodes pa)"
    using Suc.prems(3) bare_array_length [OF Suc.prems(2)] by auto
  note step = best_pass_step [OF Suc.prems(1) c(2), of E s]
  have "partial (reaches E s pa0) (pa_nodes pa0) c i (best_links pa0 i) (best_links ?pa i)"
    if "i < length (pa_nodes pa0)" for i
    by (rule partial_step [OF wf0 Suc.prems(1,2) clean c(1) Suc.prems(4) that])
  then show ?case
    using Suc.IH [OF step(1)] step(2) Suc.prems(2) c(1) by simp
qed

lemma best_pass_ghost:
  assumes wf: "wf_array pa" and clean: "clean_leaves E s pa" and i: "i < length (pa_nodes pa)"
    and T: "reaches E s pa i"
  shows "chain_end (best_pass E s (length (pa_nodes pa)) pa) i =
    ghost_head (reaches E s pa) (pa_nodes pa) i"
proof -
  let ?n = "length (pa_nodes pa)"
  have "partial (reaches E s pa) (pa_nodes pa) ?n i (best_links pa i) (best_links pa i)"
    if "i < ?n" for i
    using wf_best_child [OF wf that] parent_idx_in_range(1) by (intro partial_init) auto
  then have inv: "partial (reaches E s pa) (pa_nodes pa) 0 i (best_links pa i)
      (best_links (best_pass E s ?n pa) i)"
    using best_pass_partial [OF wf clean wf] i by blast
  have "wf_array (best_pass E s ?n pa)" "bare_array (best_pass E s ?n pa) = bare_array pa"
    using best_pass_keeps [OF wf, of ?n E s] by auto
  then show ?thesis using partial_done(2) [OF wf _ _ clean i _ inv] T by simp
qed

lemma find_head_after_pass:
  assumes wf: "wf_array pa" and clean: "clean_leaves E s pa"
    and j: "hm_get (pa_indices pa) root = Some j"
    and valid: "\<not> is_invalid (n_execution_status (pa_nodes pa ! j))"
    and T: "reaches E s pa j"
  shows "find_head E (best_pass E s (length (pa_nodes pa)) pa) root s =
    Inr (n_root (pa_nodes pa ! ghost_head (reaches E s pa) (pa_nodes pa) j))"
proof -
  let ?pa = "best_pass E s (length (pa_nodes pa)) pa" and ?h = "ghost_head (reaches E s pa) (pa_nodes pa) j"
  have keeps: "wf_array ?pa" "bare_array ?pa = bare_array pa"
    using best_pass_keeps [OF wf, of _ E s] by auto
  have j': "j < length (pa_nodes pa)" using wf_array_lookup [OF wf] j by blast
  have h: "viable E s pa ?h" "?h < length (pa_nodes pa)"
    using ghost_head_viable [OF T j'] by auto
  have "pa_indices ?pa = pa_indices pa"
    using arg_cong [OF keeps(2), of pa_indices] by (simp add: bare_array_def)
  moreover have "length (pa_nodes ?pa) = length (pa_nodes pa)" using keeps(2) by (rule bare_array_length)
  moreover have "(case n_best_descendant (pa_nodes ?pa ! j) of Some d \<Rightarrow> d | None \<Rightarrow> j) = ?h"
    using best_pass_ghost [OF wf clean j' T] by (simp add: chain_end_def)
  moreover have "node_is_viable_for_head E ?pa (pa_nodes ?pa ! ?h) s"
    using h bare_viable [OF keeps(2)] by (simp add: viable_def)
  moreover note bare_eq_fields(1) [OF bare_array_nth [OF keeps(2) h(2)]]
    bare_eq_fields(5) [OF bare_array_nth [OF keeps(2) j']]
  ultimately show ?thesis
    using j j' h valid by (simp add: find_head_def nth_opt_def Let_def)
qed

end
