(* ===== verification/Proto_Weights.thy ===== *)
theory Proto_Weights
  imports Proto_Wf Vote_Tracker
begin

text \<open>
  The weights of the array against the votes. \<open>weights_for\<close> is the local consistency of the stored
  weights: a node whose payload is not invalid weighs its own votes, its proposer boost and its
  children. \<^verbatim>\<open>compute_deltas\<close> computes the change of the own votes, and the first loop of
  \<^verbatim>\<open>apply_score_changes\<close> turns weights consistent with the old votes into weights consistent with
  the new ones; neither overflows while the stake fits an \<^verbatim>\<open>i64\<close>.
\<close>

section \<open>One step of the weight loop\<close>

definition boost_score :: "eth_spec \<Rightarrow> chain_spec \<Rightarrow> justified_balances \<Rightarrow> u64 option" where
  "boost_score E spec balances =
     (case proposer_score_boost spec of
        None \<Rightarrow> Some 0
      | Some pct \<Rightarrow> calculate_committee_fraction E balances pct)"

definition boost_of :: "hash256 \<Rightarrow> u64 \<Rightarrow> proto_node \<Rightarrow> int" where
  "boost_of root score node = (if root \<noteq> 0 \<and> root = n_root node then uint score else 0)"

lemma in_i64_diff: "0 \<le> a \<Longrightarrow> a < 2 ^ 63 \<Longrightarrow> 0 \<le> b \<Longrightarrow> b < 2 ^ 63 \<Longrightarrow> in_i64 (a - b)"
  by (simp add: in_i64_def)

lemma in_i64_nonneg: "0 \<le> a \<Longrightarrow> a < 2 ^ 63 \<Longrightarrow> in_i64 a"
  by (simp add: in_i64_def)

lemma checked_sub_i64_uint:
  assumes "in_i64 d" and "uint w < 2 ^ 63" and "in_i64 (d - uint w)"
  shows "checked_sub_i64 (word_of_int d) w = Some (word_of_int (d - uint w))"
  using checked_sub_i64_of_int [of d "uint w"] assms in_i64_nonneg [of "uint w"] by simp

lemma checked_add_i64_uint:
  assumes "in_i64 d" and "uint w < 2 ^ 63" and "in_i64 (d + uint w)"
  shows "checked_add_i64 (word_of_int d) w = Some (word_of_int (d + uint w))"
  using checked_add_i64_of_int [of d "uint w"] assms in_i64_nonneg [of "uint w"] by simp

lemma apply_delta_ok:
  assumes "\<not> is_invalid (n_execution_status node)"
    and "0 \<le> W" and "W < 2 ^ 63" and "uint (n_weight node) < 2 ^ 63"
  shows "apply_delta i node (word_of_int (W - uint (n_weight node))) = Inr (word_of_int W)"
proof -
  let ?w = "n_weight node" and ?d = "W - uint (n_weight node)"
  have d: "sint (word_of_int ?d :: i64) = ?d"
    using assms in_i64_diff [of W "uint ?w"] by (intro sint_of_int_i64) simp
  show ?thesis
  proof (cases "?d < 0")
    case True
    have "unsigned_abs (word_of_int ?d) = word_of_int (- ?d)"
      using True d by (simp add: unsigned_abs_def)
    moreover have "checked_sub ?w (word_of_int (- ?d)) = Some (word_of_int (uint ?w - (- ?d)))"
      using True assms(2) by (intro checked_sub_of_int) auto
    ultimately show ?thesis using True d assms(1) by (simp add: apply_delta_def)
  next
    case False
    then have "checked_add ?w (word_of_int ?d) = Some (word_of_int (uint ?w + ?d))"
      using assms(3) by (intro checked_add_of_int) auto
    then show ?thesis using False d assms(1) by (simp add: apply_delta_def)
  qed
qed

lemma boosted_delta_invalid:
  assumes "is_invalid (n_execution_status node)" and "uint (n_weight node) < 2 ^ 63"
  shows "boosted_delta E spec balances boost_root prev i node deltas score =
    Inr (word_of_int (- uint (n_weight node)), score)"
proof -
  have "checked_sub_i64 (word_of_int 0) (n_weight node) = Some (word_of_int (0 - uint (n_weight node)))"
    using assms(2) in_i64_diff [of 0 "uint (n_weight node)"]
    by (intro checked_sub_i64_uint) (simp_all add: in_i64_def)
  then show ?thesis using assms(1) by (simp add: boosted_delta_def split: option.splits)
qed

lemma boosted_delta_valid:
  assumes valid: "\<not> is_invalid (n_execution_status node)"
    and d: "nth_opt deltas i = Some (word_of_int d)"
    and d_eq: "d = (W - boost_of boost_root sc node) -
      (uint (n_weight node) - boost_of (pb_root prev) (pb_score prev) node)"
    and sc: "boost_score E spec balances = Some sc"
    and W: "W < 2 ^ 63" "boost_of boost_root sc node \<le> W"
    and w: "uint (n_weight node) < 2 ^ 63"
      "boost_of (pb_root prev) (pb_score prev) node \<le> uint (n_weight node)"
  shows "boosted_delta E spec balances boost_root prev i node deltas score =
    Inr (word_of_int (W - uint (n_weight node)),
         if boost_root \<noteq> 0 \<and> boost_root = n_root node \<and> proposer_score_boost spec \<noteq> None
         then sc else score)"
proof -
  let ?bo = "boost_of (pb_root prev) (pb_score prev) node" and ?bo' = "boost_of boost_root sc node"
  let ?w = "uint (n_weight node)"
  have pos: "0 \<le> ?bo" "0 \<le> ?bo'" by (simp_all add: boost_of_def)
  have in_d: "in_i64 d" unfolding d_eq using W w pos by (intro in_i64_diff) auto
  have in_d1: "in_i64 (d - ?bo)" unfolding d_eq using W w pos by (simp add: in_i64_def)
  have in_d2: "in_i64 (d - ?bo + ?bo')" unfolding d_eq using W w pos by (simp add: in_i64_def)
  have d1: "(if pb_root prev \<noteq> 0 \<and> pb_root prev = n_root node
      then ok_or (checked_sub_i64 (word_of_int d) (pb_score prev)) (DeltaOverflow i)
      else Inr (word_of_int d)) = Inr (word_of_int (d - ?bo))"
    using checked_sub_i64_uint [of d "pb_score prev"] in_d in_d1 w
    by (cases "pb_root prev \<noteq> 0 \<and> pb_root prev = n_root node") (auto simp: boost_of_def)
  have d2: "ok_or (checked_add_i64 (word_of_int (d - ?bo)) sc) (DeltaOverflow i) =
      Inr (word_of_int (d - ?bo + ?bo'))" if "boost_root \<noteq> 0" "boost_root = n_root node"
    using checked_add_i64_uint [of "d - ?bo" sc] in_d1 in_d2 W that
    by (simp add: boost_of_def del: of_int_diff of_int_add)
  have eq: "d - ?bo + ?bo' = W - ?w" by (simp add: d_eq)
  have bo'0: "d - ?bo = W - ?w" if "\<not> (boost_root \<noteq> 0 \<and> boost_root = n_root node)"
  proof -
    have "?bo' = 0" using that by (auto simp: boost_of_def)
    then show ?thesis using eq by simp
  qed
  show ?thesis
  proof (cases "proposer_score_boost spec")
    case None
    then have "sc = 0" using sc by (simp add: boost_score_def)
    then have "?bo' = 0" by (simp add: boost_of_def)
    then have "d - ?bo = W - ?w" using eq by simp
    then show ?thesis
      using None valid d d1 by (simp add: boosted_delta_def del: of_int_diff nth_opt_eq_Some)
  next
    case (Some pct)
    then have "calculate_committee_fraction E balances pct = Some sc"
      using sc by (simp add: boost_score_def)
    note frac = this
    show ?thesis
    proof (cases "boost_root \<noteq> 0 \<and> boost_root = n_root node")
      case True
      then have "n_root node \<noteq> 0" "boost_root = n_root node" by auto
      then show ?thesis
        using Some frac valid d d1 d2 eq
        by (simp add: boosted_delta_def del: of_int_diff of_int_add nth_opt_eq_Some)
    next
      case False
      then consider "boost_root = 0" | "boost_root \<noteq> n_root node" by blast
      then show ?thesis
        using Some valid d d1 bo'0 [OF False]
        by cases (simp_all add: boosted_delta_def del: of_int_diff of_int_add nth_opt_eq_Some)
    qed
  qed
qed

text \<open>The score recorded by the loop after a node has been visited.\<close>

definition score_after :: "chain_spec \<Rightarrow> hash256 \<Rightarrow> u64 \<Rightarrow> proto_node \<Rightarrow> u64 \<Rightarrow> u64" where
  "score_after spec boost_root sc node score =
     (if \<not> is_invalid (n_execution_status node) \<and> boost_root \<noteq> 0 \<and> boost_root = n_root node
        \<and> proposer_score_boost spec \<noteq> None
      then sc else score)"

text \<open>
  What one iteration needs of a node: \<open>d\<close> is its pending delta and \<open>W\<close> the weight it should get.
\<close>

definition target_ok ::
    "hash256 \<Rightarrow> u64 \<Rightarrow> proposer_boost \<Rightarrow> proto_node \<Rightarrow> int \<Rightarrow> int \<Rightarrow> bool" where
  "target_ok boost_root sc prev node d W \<longleftrightarrow>
     n_root node \<noteq> 0 \<and> 0 \<le> W \<and> W < 2 ^ 63 \<and> uint (n_weight node) < 2 ^ 63
     \<and> (if is_invalid (n_execution_status node) then W = 0
        else boost_of boost_root sc node \<le> W
          \<and> boost_of (pb_root prev) (pb_score prev) node \<le> uint (n_weight node)
          \<and> d = (W - boost_of boost_root sc node) -
                (uint (n_weight node) - boost_of (pb_root prev) (pb_score prev) node))"

lemma apply_weight_step_ok:
  assumes i: "i < length (pa_nodes pa)" and len: "length deltas = length (pa_nodes pa)"
    and d: "deltas ! i = word_of_int d"
    and target: "target_ok boost_root sc (pa_previous_proposer_boost pa) (pa_nodes pa ! i) d W"
    and par: "\<And>p. n_parent (pa_nodes pa ! i) = Some p \<Longrightarrow> p < length deltas"
    and sc: "boost_score E spec balances = Some sc"
  shows "apply_weight_step E spec balances boost_root i (pa, deltas, score) =
    Inr (set_node pa i ((pa_nodes pa ! i)\<lparr>n_weight := word_of_int W\<rparr>),
         (case n_parent (pa_nodes pa ! i) of
            None \<Rightarrow> deltas
          | Some p \<Rightarrow> deltas[p := deltas ! p + word_of_int (W - uint (n_weight (pa_nodes pa ! i)))]),
         score_after spec boost_root sc (pa_nodes pa ! i) score)"
proof -
  let ?n = "pa_nodes pa ! i"
  have dn: "nth_opt deltas i = Some (word_of_int d)" using i len d by (simp add: nth_opt_def)
  have "boosted_delta E spec balances boost_root (pa_previous_proposer_boost pa) i ?n deltas score =
      Inr (word_of_int (W - uint (n_weight ?n)), score_after spec boost_root sc ?n score)
    \<and> apply_delta i ?n (word_of_int (W - uint (n_weight ?n))) = Inr (word_of_int W)"
  proof (cases "is_invalid (n_execution_status ?n)")
    case True
    then show ?thesis
      using target boosted_delta_invalid [OF True]
      by (simp add: target_ok_def score_after_def apply_delta_def)
  next
    case False
    then show ?thesis
      using target boosted_delta_valid [OF False dn _ sc] apply_delta_ok [OF False]
      by (simp add: target_ok_def score_after_def del: of_int_diff)
  qed
  moreover have "n_root ?n \<noteq> 0" using target by (simp add: target_ok_def)
  ultimately show ?thesis
    using i par by (auto simp: apply_weight_step_def nth_opt_def Let_def simp del: of_int_diff
        split: option.splits)
qed

section \<open>The weight loop\<close>

text \<open>
  The state of the loop when the nodes from \<open>k\<close> on have been visited: \<open>W\<close> are the weights to
  reach and \<open>\<delta>\<close> the deltas at the start.
\<close>

definition set_weights :: "(usize \<Rightarrow> int) \<Rightarrow> nat \<Rightarrow> proto_node list \<Rightarrow> proto_node list" where
  "set_weights W k ns =
     map (\<lambda>i. if k \<le> i then (ns ! i)\<lparr>n_weight := word_of_int (W i)\<rparr> else ns ! i) [0 ..< length ns]"

definition pending :: "(usize \<Rightarrow> int) \<Rightarrow> (usize \<Rightarrow> int) \<Rightarrow> nat \<Rightarrow> proto_node list \<Rightarrow> usize \<Rightarrow> int" where
  "pending \<delta> W k ns p =
     \<delta> p + (\<Sum>c | k \<le> c \<and> c < length ns \<and> parent_idx ns c = Some p. W c - uint (n_weight (ns ! c)))"

lemma length_set_weights [simp]: "length (set_weights W k ns) = length ns"
  by (simp add: set_weights_def)

lemma set_weights_nth:
  "i < length ns \<Longrightarrow>
     set_weights W k ns ! i = (if k \<le> i then (ns ! i)\<lparr>n_weight := word_of_int (W i)\<rparr> else ns ! i)"
  by (simp add: set_weights_def)

lemma set_weights_none: "set_weights W (length ns) ns = ns"
  by (rule nth_equalityI) (simp_all add: set_weights_nth)

lemma set_weights_step:
  "i < length ns \<Longrightarrow>
     (set_weights W (Suc i) ns)[i := (ns ! i)\<lparr>n_weight := word_of_int (W i)\<rparr>] = set_weights W i ns"
  by (rule nth_equalityI) (auto simp: set_weights_nth nth_list_update)

lemma pending_start: "pending \<delta> W (length ns) ns p = \<delta> p"
proof -
  have "{c. length ns \<le> c \<and> c < length ns \<and> parent_idx ns c = Some p} = {}" by auto
  then show ?thesis unfolding pending_def by (simp only: sum.empty add_0_right)
qed

lemma pending_step:
  assumes "c < length ns"
  shows "pending \<delta> W c ns p = pending \<delta> W (Suc c) ns p +
    (if parent_idx ns c = Some p then W c - uint (n_weight (ns ! c)) else 0)"
proof -
  let ?A = "{x. Suc c \<le> x \<and> x < length ns \<and> parent_idx ns x = Some p}"
  have fin: "finite ?A" by simp
  have "{x. c \<le> x \<and> x < length ns \<and> parent_idx ns x = Some p} =
      (if parent_idx ns c = Some p then insert c ?A else ?A)"
    using assms by (auto simp: Suc_le_eq le_less)
  then show ?thesis using fin by (simp add: pending_def)
qed

lemma pending_children:
  "pending \<delta> W i ns i = pending \<delta> W 0 ns i" "pending \<delta> W (Suc i) ns i = pending \<delta> W 0 ns i"
proof -
  have "{c. k \<le> c \<and> c < length ns \<and> parent_idx ns c = Some i} =
      {c. 0 \<le> c \<and> c < length ns \<and> parent_idx ns c = Some i}" if "k \<le> Suc i" for k
    using that by (auto dest: parent_idx_less)
  then show "pending \<delta> W i ns i = pending \<delta> W 0 ns i"
    "pending \<delta> W (Suc i) ns i = pending \<delta> W 0 ns i" by (simp_all add: pending_def)
qed

text \<open>
  The loop reaches the target weights when each of them is what the node's pending delta asks for
  once all its children have been visited.
\<close>

definition deltas_at :: "(usize \<Rightarrow> int) \<Rightarrow> (usize \<Rightarrow> int) \<Rightarrow> nat \<Rightarrow> proto_node list \<Rightarrow> i64 list" where
  "deltas_at \<delta> W k ns = map (\<lambda>p. word_of_int (pending \<delta> W k ns p)) [0 ..< length ns]"

fun score_from :: "chain_spec \<Rightarrow> hash256 \<Rightarrow> u64 \<Rightarrow> proto_node list \<Rightarrow> nat \<Rightarrow> u64 \<Rightarrow> u64" where
  "score_from spec boost_root sc ns 0 score = score"
| "score_from spec boost_root sc ns (Suc i) score =
     score_from spec boost_root sc ns i (score_after spec boost_root sc (ns ! i) score)"

lemma deltas_at_step:
  assumes "links_ok ns" and "c < length ns"
  shows "(case n_parent (ns ! c) of
      None \<Rightarrow> deltas_at \<delta> W (Suc c) ns
    | Some p \<Rightarrow> (deltas_at \<delta> W (Suc c) ns)
        [p := deltas_at \<delta> W (Suc c) ns ! p + word_of_int (W c - uint (n_weight (ns ! c)))]) =
    deltas_at \<delta> W c ns"
proof (cases "n_parent (ns ! c)")
  case None
  then have "pending \<delta> W c ns p = pending \<delta> W (Suc c) ns p" for p
    using links_ok_parent_idx [OF assms] pending_step [OF assms(2)] by simp
  then show ?thesis using None by (simp add: deltas_at_def)
next
  case (Some p)
  then have par: "parent_idx ns c = Some p" using links_ok_parent_idx [OF assms] by simp
  have p: "p < length ns" using par by (rule parent_idx_in_range)
  have "deltas_at \<delta> W (Suc c) ns ! p + word_of_int (W c - uint (n_weight (ns ! c))) =
      word_of_int (pending \<delta> W c ns p)"
    using p par pending_step [OF assms(2), of \<delta> W p] by (simp add: deltas_at_def)
  moreover have "pending \<delta> W c ns q = pending \<delta> W (Suc c) ns q" if "q \<noteq> p" for q
    using that par pending_step [OF assms(2), of \<delta> W q] by simp
  ultimately show ?thesis
    using Some p by (intro nth_equalityI) (auto simp: deltas_at_def nth_list_update)
qed

lemma apply_weight_loop_ok:
  assumes links: "links_ok (pa_nodes pa)"
    and target: "\<And>i. i < length (pa_nodes pa) \<Longrightarrow>
      target_ok boost_root sc (pa_previous_proposer_boost pa) (pa_nodes pa ! i)
        (pending \<delta> W 0 (pa_nodes pa) i) (W i)"
    and sc: "boost_score E spec balances = Some sc"
    and k: "k \<le> length (pa_nodes pa)"
  shows "apply_weight_loop E spec balances boost_root k
      (pa\<lparr>pa_nodes := set_weights W k (pa_nodes pa)\<rparr>, deltas_at \<delta> W k (pa_nodes pa), score) =
    Inr (pa\<lparr>pa_nodes := set_weights W 0 (pa_nodes pa)\<rparr>, deltas_at \<delta> W 0 (pa_nodes pa),
         score_from spec boost_root sc (pa_nodes pa) k score)"
  using k
proof (induction k arbitrary: score)
  case 0
  then show ?case by simp
next
  case (Suc i)
  let ?ns = "pa_nodes pa" and ?pa = "pa\<lparr>pa_nodes := set_weights W (Suc i) (pa_nodes pa)\<rparr>"
  have i: "i < length ?ns" using Suc.prems by simp
  have node: "pa_nodes ?pa ! i = ?ns ! i" using i by (simp add: set_weights_nth)
  have "apply_weight_step E spec balances boost_root i (?pa, deltas_at \<delta> W (Suc i) ?ns, score) =
      Inr (set_node ?pa i ((?ns ! i)\<lparr>n_weight := word_of_int (W i)\<rparr>),
           (case n_parent (?ns ! i) of
              None \<Rightarrow> deltas_at \<delta> W (Suc i) ?ns
            | Some p \<Rightarrow> (deltas_at \<delta> W (Suc i) ?ns)
                [p := deltas_at \<delta> W (Suc i) ?ns ! p + word_of_int (W i - uint (n_weight (?ns ! i)))]),
           score_after spec boost_root sc (?ns ! i) score)"
    unfolding node [symmetric]
  proof (rule apply_weight_step_ok [where d = "pending \<delta> W 0 ?ns i"])
    show "deltas_at \<delta> W (Suc i) ?ns ! i = word_of_int (pending \<delta> W 0 ?ns i)"
      using i by (simp add: deltas_at_def pending_children)
    show "target_ok boost_root sc (pa_previous_proposer_boost ?pa) (pa_nodes ?pa ! i)
        (pending \<delta> W 0 ?ns i) (W i)"
      using target [OF i] unfolding node by simp
    show "p < length (deltas_at \<delta> W (Suc i) ?ns)" if "n_parent (pa_nodes ?pa ! i) = Some p" for p
      using that links_ok_less [OF links i, of p] i unfolding node by (simp add: deltas_at_def)
  qed (use i sc in \<open>simp_all add: deltas_at_def\<close>)
  moreover have "set_node ?pa i ((?ns ! i)\<lparr>n_weight := word_of_int (W i)\<rparr>) =
      pa\<lparr>pa_nodes := set_weights W i ?ns\<rparr>"
    using set_weights_step [OF i, of W] by (simp add: set_node_def)
  ultimately show ?case
    using Suc.IH [of "score_after spec boost_root sc (?ns ! i) score"] i
    by (simp add: deltas_at_step [OF links i] del: of_int_diff)
qed

lemma score_from_eq:
  assumes "k \<le> length ns"
  shows "score_from spec boost_root sc ns k score =
    (if proposer_score_boost spec \<noteq> None \<and> boost_root \<noteq> 0
        \<and> (\<exists>i < k. \<not> is_invalid (n_execution_status (ns ! i)) \<and> n_root (ns ! i) = boost_root)
     then sc else score)"
  using assms
proof (induction k arbitrary: score)
  case 0
  then show ?case by simp
next
  case (Suc i)
  then show ?case by (auto simp: score_after_def less_Suc_eq)
qed

end
