(* ===== verification/Vote_Deltas.thy ===== *)
theory Vote_Deltas
  imports Proto_Weights
begin

text \<open>
  \<^verbatim>\<open>compute_deltas\<close>: what it computes, that it cannot fail while the stake fits an \<^verbatim>\<open>i64\<close>, and that
  its effect on the votes is that of \<^verbatim>\<open>apply_vote_updates\<close>.
\<close>

section \<open>The weight of a set of votes\<close>

fun weight_of :: "hash256 \<Rightarrow> u64 list \<Rightarrow> usize \<Rightarrow> vote_tracker list \<Rightarrow> int" where
  "weight_of r balances k [] = 0"
| "weight_of r balances k (v # vs) =
     (if vt_current_root v = r then uint (nth_or balances k 0) else 0)
     + weight_of r balances (Suc k) vs"

fun stake :: "u64 list \<Rightarrow> usize \<Rightarrow> vote_tracker list \<Rightarrow> int" where
  "stake balances k [] = 0"
| "stake balances k (v # vs) = uint (nth_or balances k 0) + stake balances (Suc k) vs"

lemma weight_of_nonneg: "0 \<le> weight_of r balances k vs"
  by (induction vs arbitrary: k) auto

lemma stake_nonneg: "0 \<le> stake balances k vs"
  by (induction vs arbitrary: k) auto

lemma weight_of_le_stake: "weight_of r balances k vs \<le> stake balances k vs"
  by (induction vs arbitrary: k) (auto simp: add_increasing)

section \<open>Adjusting one delta\<close>

text \<open>The vector of deltas with given values.\<close>

definition delta_vec :: "(usize \<Rightarrow> int) \<Rightarrow> nat \<Rightarrow> i64 list" where
  "delta_vec x n = map (\<lambda>i. word_of_int (x i)) [0 ..< n]"

lemma delta_vec_update:
  "i < n \<Longrightarrow> (delta_vec x n)[i := word_of_int y] = delta_vec (\<lambda>j. if j = i then y else x j) n"
  by (rule nth_equalityI) (auto simp: delta_vec_def nth_list_update)

lemma delta_vec_cong: "(\<And>i. i < n \<Longrightarrow> x i = y i) \<Longrightarrow> delta_vec x n = delta_vec y n"
  by (simp add: delta_vec_def)

lemma nth_opt_delta_vec: "i < n \<Longrightarrow> nth_opt (delta_vec x n) i = Some (word_of_int (x i))"
  by (simp add: delta_vec_def nth_opt_def)

lemma adjust_delta_ok:
  assumes idx: "indices_ok ns m"
    and opr: "\<And>i. i < length ns \<Longrightarrow> checked_op (word_of_int (x i)) amount = Some (word_of_int (f (x i)))"
  shows "adjust_delta checked_op (delta_vec x (length ns)) (hm_get m r) amount =
    Inr (delta_vec (\<lambda>i. if n_root (ns ! i) = r then f (x i) else x i) (length ns))"
proof (cases "hm_get m r")
  case None
  then have "n_root (ns ! i) \<noteq> r" if "i < length ns" for i
    using that idx by (auto simp: indices_ok_def)
  then have "delta_vec x (length ns) =
      delta_vec (\<lambda>i. if n_root (ns ! i) = r then f (x i) else x i) (length ns)"
    by (intro delta_vec_cong) auto
  then show ?thesis using None by (simp add: adjust_delta_def)
next
  case (Some j)
  then have j: "j < length ns" "n_root (ns ! j) = r" using indices_ok_get [OF idx] by auto
  have "n_root (ns ! i) = r \<longleftrightarrow> i = j" if "i < length ns" for i
    using indices_ok_distinct [OF idx that j(1)] j(2) by (cases "i = j") auto
  then have "(delta_vec x (length ns))[j := word_of_int (f (x j))] =
      delta_vec (\<lambda>i. if n_root (ns ! i) = r then f (x i) else x i) (length ns)"
    unfolding delta_vec_update [OF j(1)] by (intro delta_vec_cong) simp
  then show ?thesis
    using Some opr [OF j(1)] nth_opt_delta_vec [OF j(1), of x]
    by (simp add: adjust_delta_def del: nth_opt_eq_Some)
qed

lemma adjust_sub_ok:
  assumes "indices_ok ns m" and "uint amount < 2 ^ 63"
    and "\<And>i. i < length ns \<Longrightarrow> in_i64 (x i) \<and> in_i64 (x i - uint amount)"
  shows "adjust_delta checked_sub_i64 (delta_vec x (length ns)) (hm_get m r) amount =
    Inr (delta_vec (\<lambda>i. if n_root (ns ! i) = r then x i - uint amount else x i) (length ns))"
  using assms checked_sub_i64_uint by (intro adjust_delta_ok) auto

lemma adjust_add_ok:
  assumes "indices_ok ns m" and "uint amount < 2 ^ 63"
    and "\<And>i. i < length ns \<Longrightarrow> in_i64 (x i) \<and> in_i64 (x i + uint amount)"
  shows "adjust_delta checked_add_i64 (delta_vec x (length ns)) (hm_get m r) amount =
    Inr (delta_vec (\<lambda>i. if n_root (ns ! i) = r then x i + uint amount else x i) (length ns))"
  using assms checked_add_i64_uint by (intro adjust_delta_ok) auto

lemma in_i64_window:
  assumes "- A \<le> x" "x \<le> B" "0 \<le> a" "A + a < 2 ^ 63" "0 \<le> b" "B + b < 2 ^ 63"
  shows "in_i64 x" "in_i64 (x - a)" "in_i64 (x + b)"  "in_i64 (x - a + b)"
proof -
  have "- (2 ^ 63) \<le> x - a" "x - a \<le> x" "x \<le> x + b" "x + b < 2 ^ 63" "x - a \<le> x - a + b"
    "x - a + b \<le> x + b"
    using assms by linarith+
  then show "in_i64 x" "in_i64 (x - a)" "in_i64 (x + b)" "in_i64 (x - a + b)"
    unfolding in_i64_def by linarith+
qed

section \<open>One vote\<close>

abbreviation root_nonzero :: "proto_node list \<Rightarrow> bool" where
  "root_nonzero ns \<equiv> (\<forall>n \<in> set ns. n_root n \<noteq> 0)"

text \<open>What a vote contributes to the node with root \<open>r\<close>.\<close>

abbreviation vote_for :: "vote_tracker \<Rightarrow> hash256 \<Rightarrow> u64 \<Rightarrow> int" where
  "vote_for v r balance \<equiv> (if vt_current_root v = r then uint balance else 0)"

lemma compute_delta_step_ok:
  fixes v :: vote_tracker and equivocating :: "u64 list"
  assumes idx: "indices_ok ns m" and nz: "root_nonzero ns"
    and x: "\<And>i. i < length ns \<Longrightarrow> - A \<le> x i \<and> x i \<le> B"
    and A: "0 \<le> A" "A + uint (nth_or old_balances k 0) < 2 ^ 63"
    and B: "0 \<le> B" "B + uint (nth_or new_balances k 0) < 2 ^ 63"
  defines "v' \<equiv> apply_vote_update old_balances new_balances equivocating k v"
  shows "compute_delta_step m old_balances new_balances equivocating k v (delta_vec x (length ns)) =
    Inr (delta_vec (\<lambda>i. x i - vote_for v (n_root (ns ! i)) (nth_or old_balances k 0)
                          + vote_for v' (n_root (ns ! i)) (nth_or new_balances k 0)) (length ns), v')"
proof -
  let ?old = "nth_or old_balances k 0" and ?new = "nth_or new_balances k 0"
  have nz: "n_root (ns ! i) \<noteq> 0" if "i < length ns" for i using nz that by auto
  have window: "in_i64 (x i)" "in_i64 (x i - uint ?old)" "in_i64 (x i + uint ?new)"
    "in_i64 (x i - uint ?old + uint ?new)" if "i < length ns" for i
    using x [OF that] A(2) B(2) in_i64_window [of A "x i" B "uint ?old" "uint ?new"] by auto
  have sub: "adjust_delta checked_sub_i64 (delta_vec x (length ns)) (hm_get m r) ?old =
      Inr (delta_vec (\<lambda>i. if n_root (ns ! i) = r then x i - uint ?old else x i) (length ns))" for r
  proof (rule adjust_sub_ok [OF idx])
    show "uint ?old < 2 ^ 63" using A by linarith
  qed (use window in blast)
  let ?y = "\<lambda>r i. if n_root (ns ! i) = r then x i - uint ?old else x i"
  have add: "adjust_delta checked_add_i64 (delta_vec (?y r) (length ns)) (hm_get m r') ?new =
      Inr (delta_vec (\<lambda>i. if n_root (ns ! i) = r' then ?y r i + uint ?new else ?y r i) (length ns))"
    for r r'
  proof (rule adjust_add_ok [OF idx])
    show "uint ?new < 2 ^ 63" using B by linarith
  qed (use window in simp)
  show ?thesis
    unfolding compute_delta_step_def v'_def apply_vote_update_def Let_def sub
    using nz by (auto simp: add intro!: delta_vec_cong)
qed

section \<open>All votes\<close>

lemma compute_deltas_loop_ok:
  fixes vs :: "vote_tracker list" and equivocating :: "u64 list"
  assumes idx: "indices_ok ns m" and nz: "root_nonzero ns"
    and "\<And>i. i < length ns \<Longrightarrow> - A \<le> x i \<and> x i \<le> B"
    and "0 \<le> A" "A + stake old_balances k vs < 2 ^ 63"
    and "0 \<le> B" "B + stake new_balances k vs < 2 ^ 63"
  defines "vs' \<equiv> apply_vote_updates_loop old_balances new_balances equivocating k vs"
  shows "compute_deltas_loop m old_balances new_balances equivocating k vs (delta_vec x (length ns)) =
    Inr (delta_vec (\<lambda>i. x i - weight_of (n_root (ns ! i)) old_balances k vs
                          + weight_of (n_root (ns ! i)) new_balances k vs') (length ns), vs')"
  unfolding vs'_def using assms(3-7)
proof (induction vs arbitrary: k x A B)
  case Nil
  then show ?case by simp
next
  case (Cons v vs)
  let ?old = "nth_or old_balances k 0" and ?new = "nth_or new_balances k 0"
  let ?v' = "apply_vote_update old_balances new_balances equivocating k v"
  let ?x = "\<lambda>i. x i - vote_for v (n_root (ns ! i)) ?old + vote_for ?v' (n_root (ns ! i)) ?new"
  have nn: "0 \<le> stake old_balances (Suc k) vs" "0 \<le> stake new_balances (Suc k) vs"
    by (rule stake_nonneg)+
  have pos: "0 \<le> uint ?old" "0 \<le> uint ?new" by simp_all
  have step: "compute_delta_step m old_balances new_balances equivocating k v
      (delta_vec x (length ns)) = Inr (delta_vec ?x (length ns), ?v')"
    using Cons.prems nn by (intro compute_delta_step_ok [OF idx nz, of A x B]) auto
  have bounds: "- (A + uint ?old) \<le> ?x i \<and> ?x i \<le> B + uint ?new" if "i < length ns" for i
  proof -
    have vote: "0 \<le> vote_for w r b \<and> vote_for w r b \<le> uint b" for w r b by simp
    show ?thesis
      using Cons.prems(1) [OF that] vote [of v "n_root (ns ! i)" ?old]
        vote [of ?v' "n_root (ns ! i)" ?new] by linarith
  qed
  have "compute_deltas_loop m old_balances new_balances equivocating (Suc k) vs
      (delta_vec ?x (length ns)) =
    Inr (delta_vec (\<lambda>i. ?x i - weight_of (n_root (ns ! i)) old_balances (Suc k) vs
        + weight_of (n_root (ns ! i)) new_balances (Suc k)
            (apply_vote_updates_loop old_balances new_balances equivocating (Suc k) vs)) (length ns),
      apply_vote_updates_loop old_balances new_balances equivocating (Suc k) vs)"
    using Cons.prems pos nn by (intro Cons.IH [OF bounds]) auto
  then show ?case using step by (auto intro!: delta_vec_cong)
qed

lemma compute_deltas_ok:
  fixes votes :: "vote_tracker list" and equivocating :: "u64 list"
  assumes "indices_ok ns m" and "root_nonzero ns"
    and "stake old_balances 0 votes < 2 ^ 63" and "stake new_balances 0 votes < 2 ^ 63"
  defines "votes' \<equiv> apply_vote_updates votes old_balances new_balances equivocating"
  shows "compute_deltas m votes old_balances new_balances equivocating =
    Inr (delta_vec (\<lambda>i. weight_of (n_root (ns ! i)) new_balances 0 votes'
                        - weight_of (n_root (ns ! i)) old_balances 0 votes) (length ns), votes')"
proof -
  have zero: "replicate (hm_len m) (0 :: i64) = delta_vec (\<lambda>i. 0) (length ns)"
    using assms(1) by (intro nth_equalityI) (auto simp: indices_ok_def delta_vec_def)
  show ?thesis
    using compute_deltas_loop_ok [OF assms(1,2), of 0 "\<lambda>i. 0" 0 old_balances 0 votes
        new_balances equivocating] assms(3,4)
    by (simp add: compute_deltas_def zero votes'_def apply_vote_updates_def)
qed

end
