(* ===== verification/Lmd_Ghost.thy ===== *)
theory Lmd_Ghost
  imports Proto_Ghost Vote_Deltas Fork_Choice
begin

text \<open>
  Head selection before Gloas as a whole: \<^verbatim>\<open>compute_deltas\<close>, both loops of
  \<^verbatim>\<open>apply_score_changes\<close> and \<^verbatim>\<open>find_head\<close> implement LMD-GHOST over the latest messages.
\<close>

section \<open>The weight a block should have\<close>

function ghost_weight :: "(usize \<Rightarrow> int) \<Rightarrow> proto_node list \<Rightarrow> usize \<Rightarrow> int" where
  "ghost_weight own ns i =
     (if is_invalid (n_execution_status (ns ! i)) then 0
      else own i + sum_list (map (ghost_weight own ns)
             (filter (\<lambda>c. parent_idx ns c = Some i) [0 ..< length ns])))"
  by pat_completeness auto
termination
  by (relation "measure (\<lambda>(own, ns, i). length ns - i)") (auto dest: parent_idx_less)

declare ghost_weight.simps [simp del]

lemma ghost_weight_rec:
  "ghost_weight own ns i =
     (if is_invalid (n_execution_status (ns ! i)) then 0
      else own i + (\<Sum>c | c < length ns \<and> parent_idx ns c = Some i. ghost_weight own ns c))"
proof -
  have "sum_list (map f (filter P [0 ..< n])) = (\<Sum>c | c < n \<and> P c. f c)"
    for f :: "nat \<Rightarrow> int" and P n
    by (simp add: sum_list_distinct_conv_sum_set conj_commute)
  then show ?thesis by (subst ghost_weight.simps) simp
qed

lemma ghost_weight_nonneg:
  assumes "\<And>i. 0 \<le> own i"
  shows "0 \<le> ghost_weight own ns i"
proof (induction "length ns - i" arbitrary: i rule: less_induct)
  case less
  have "0 \<le> ghost_weight own ns c" if "c < length ns" "parent_idx ns c = Some i" for c
    using less that parent_idx_less [OF that(2)] by auto
  then show ?case
    using assms [of i] by (subst ghost_weight_rec) (auto intro!: add_nonneg_nonneg sum_nonneg)
qed

lemma own_le_ghost_weight:
  assumes "\<And>i. 0 \<le> own i" and "\<not> is_invalid (n_execution_status (ns ! i))"
  shows "own i \<le> ghost_weight own ns i"
proof -
  have "0 \<le> (\<Sum>c | c < length ns \<and> parent_idx ns c = Some i. ghost_weight own ns c)"
    using ghost_weight_nonneg [of own] assms(1) by (intro sum_nonneg) auto
  then show ?thesis using assms(2) by (subst ghost_weight_rec) simp
qed

lemma ghost_weight_le:
  assumes "\<And>i. 0 \<le> own i"
  shows "i < length ns \<Longrightarrow>
    ghost_weight own ns i \<le> (\<Sum>j | j < length ns \<and> i \<in> set (ancestors ns j). own j)"
proof (induction "length ns - i" arbitrary: i rule: less_induct)
  case less
  have child: "ghost_weight own ns c \<le> (\<Sum>j | j < length ns \<and> c \<in> set (ancestors ns j). own j)"
    if "c < length ns" "parent_idx ns c = Some i" for c
    using that less.prems parent_idx_less [OF that(2)] by (intro less.hyps) auto
  have "(\<Sum>c | c < length ns \<and> parent_idx ns c = Some i. ghost_weight own ns c) \<le>
      (\<Sum>c | c < length ns \<and> parent_idx ns c = Some i.
        \<Sum>j | j < length ns \<and> c \<in> set (ancestors ns j). own j)"
    using child by (intro sum_mono) auto
  moreover have "0 \<le> (\<Sum>j | j < length ns \<and> i \<in> set (ancestors ns j). own j)"
    using assms by (intro sum_nonneg) auto
  ultimately show ?case
    using tree.sum_subtree [OF less.prems, of own ns] by (subst ghost_weight_rec) simp
qed

text \<open>
  When the descendants of an invalid block are invalid, the weight is the sum of what the valid
  blocks of the subtree have of their own.
\<close>

definition invalid_like_parent :: "proto_node list \<Rightarrow> usize \<Rightarrow> bool" where
  "invalid_like_parent ns i =
     (case Option.bind (parent_idx ns i) (nth_opt ns) of
        Some parent \<Rightarrow>
          is_invalid (n_execution_status parent) \<longrightarrow> is_invalid (n_execution_status (ns ! i))
      | None \<Rightarrow> True)"

definition invalid_closed :: "proto_node list \<Rightarrow> bool" where
  "invalid_closed ns = list_all (invalid_like_parent ns) [0 ..< length ns]"

lemma invalid_closedD:
  assumes "invalid_closed ns" and "parent_idx ns c = Some i"
    and "is_invalid (n_execution_status (ns ! i))"
  shows "is_invalid (n_execution_status (ns ! c))"
proof -
  have "invalid_like_parent ns c"
    using assms(1) parent_idx_in_range(1) [OF assms(2)] by (simp add: invalid_closed_def list_all_iff)
  then show ?thesis
    using assms(2,3) parent_idx_in_range(2) [OF assms(2)]
    by (simp add: invalid_like_parent_def nth_opt_def)
qed

lemma ghost_weight_subtree:
  assumes closed: "invalid_closed ns" and i: "i < length ns"
  shows "ghost_weight own ns i =
    (\<Sum>j | j < length ns \<and> i \<in> set (ancestors ns j).
       if is_invalid (n_execution_status (ns ! j)) then 0 else own j)"
proof (rule tree.local_sum_is_subtree_sum [where f = "\<lambda>j. if is_invalid (n_execution_status (ns ! j)) then 0 else own j", OF _ i])
  fix i
  assume i: "i < length ns"
  show "ghost_weight own ns i = (if is_invalid (n_execution_status (ns ! i)) then 0 else own i)
      + (\<Sum>c | c < length ns \<and> parent_idx ns c = Some i. ghost_weight own ns c)"
  proof (cases "is_invalid (n_execution_status (ns ! i))")
    case True
    have "ghost_weight own ns c = 0" if "c < length ns" "parent_idx ns c = Some i" for c
      using invalid_closedD [OF closed that(2) True] by (subst ghost_weight_rec) simp
    then show ?thesis using True by (subst ghost_weight_rec) simp
  next
    case False
    then show ?thesis by (subst ghost_weight_rec) simp
  qed
qed

section \<open>Own weights\<close>

definition own_weight ::
    "proposer_boost \<Rightarrow> vote_tracker list \<Rightarrow> u64 list \<Rightarrow> proto_node list \<Rightarrow> usize \<Rightarrow> int" where
  "own_weight boost votes balances ns i =
     weight_of (n_root (ns ! i)) balances 0 votes + boost_of (pb_root boost) (pb_score boost) (ns ! i)"

lemma own_weight_nonneg: "0 \<le> own_weight boost votes balances ns i"
  by (simp add: own_weight_def boost_of_def weight_of_nonneg)

lemma sum_if_inj:
  assumes "finite A" and "\<And>i j. i \<in> A \<Longrightarrow> j \<in> A \<Longrightarrow> f i = f j \<Longrightarrow> i = j" and "(0 :: int) \<le> v"
  shows "(\<Sum>i \<in> A. if f i = r then v else 0) \<le> v"
proof (cases "\<exists>i \<in> A. f i = r")
  case True
  then obtain i where i: "i \<in> A" "f i = r" by blast
  then have "(\<Sum>j \<in> A. if f j = r then v else 0) = (\<Sum>j \<in> A. if j = i then v else 0)"
    using assms(2) by (intro sum.cong) auto
  then show ?thesis using i assms(1) by simp
next
  case False
  then have "(\<Sum>j \<in> A. if f j = r then v else 0) = 0" by (intro sum.neutral) auto
  then show ?thesis using assms(3) by simp
qed

lemma sum_weight_of_le:
  assumes "finite A" and "\<And>i j. i \<in> A \<Longrightarrow> j \<in> A \<Longrightarrow> f i = f j \<Longrightarrow> i = j"
  shows "(\<Sum>i \<in> A. weight_of (f i) balances k votes) \<le> stake balances k votes"
proof (induction votes arbitrary: k)
  case Nil
  show ?case by simp
next
  case (Cons v votes)
  have "(\<Sum>i \<in> A. if f i = vt_current_root v then uint (nth_or balances k 0) else 0)
      \<le> uint (nth_or balances k 0)"
    using assms by (intro sum_if_inj) auto
  then show ?case using Cons.IH [of "Suc k"] by (simp add: sum.distrib eq_commute)
qed

lemma sum_own_weight_le:
  assumes "indices_ok ns m" and "A \<subseteq> {..<length ns}"
  shows "(\<Sum>i \<in> A. own_weight boost votes balances ns i) \<le>
    stake balances 0 votes + uint (pb_score boost)"
proof -
  have fin: "finite A" using assms(2) finite_subset by blast
  have inj: "i = j" if "i \<in> A" "j \<in> A" "n_root (ns ! i) = n_root (ns ! j)" for i j
    using indices_ok_distinct [OF assms(1)] that assms(2) by auto
  have "(\<Sum>i \<in> A. boost_of (pb_root boost) (pb_score boost) (ns ! i)) \<le>
      (\<Sum>i \<in> A. if n_root (ns ! i) = pb_root boost then uint (pb_score boost) else 0)"
    by (intro sum_mono) (auto simp: boost_of_def)
  also have "\<dots> \<le> uint (pb_score boost)"
    by (rule sum_if_inj [where f = "\<lambda>i. n_root (ns ! i)", OF fin]) (blast intro: inj, rule uint_ge_0)
  finally have boost: "(\<Sum>i \<in> A. boost_of (pb_root boost) (pb_score boost) (ns ! i)) \<le> uint (pb_score boost)" .
  have "(\<Sum>i \<in> A. weight_of (n_root (ns ! i)) balances 0 votes) \<le> stake balances 0 votes"
    by (rule sum_weight_of_le [where f = "\<lambda>i. n_root (ns ! i)", OF fin]) (blast intro: inj)
  then show ?thesis
    using boost unfolding own_weight_def sum.distrib by linarith
qed

section \<open>Consistency of the stored weights\<close>

definition weights_for :: "vote_tracker list \<Rightarrow> u64 list \<Rightarrow> proto_array \<Rightarrow> bool" where
  "weights_for votes balances pa \<longleftrightarrow>
     (\<forall>i < length (pa_nodes pa).
        uint (n_weight (pa_nodes pa ! i)) < 2 ^ 63
        \<and> (\<not> is_invalid (n_execution_status (pa_nodes pa ! i)) \<longrightarrow>
             uint (n_weight (pa_nodes pa ! i)) =
               own_weight (pa_previous_proposer_boost pa) votes balances (pa_nodes pa) i
               + (\<Sum>c | c < length (pa_nodes pa) \<and> parent_idx (pa_nodes pa) c = Some i.
                    uint (n_weight (pa_nodes pa ! c)))))"

text \<open>The weights that the next round should store.\<close>

definition next_weight ::
    "proto_array \<Rightarrow> hash256 \<Rightarrow> u64 \<Rightarrow> vote_tracker list \<Rightarrow> u64 list \<Rightarrow> usize \<Rightarrow> int" where
  "next_weight pa boost_root sc votes balances =
     ghost_weight (own_weight \<lparr>pb_root = boost_root, pb_score = sc\<rparr> votes balances (pa_nodes pa))
       (pa_nodes pa)"

lemma next_weight_bounds:
  assumes "wf_array pa" and "i < length (pa_nodes pa)"
    and "stake balances 0 votes + uint sc < 2 ^ 63"
  shows "0 \<le> next_weight pa boost_root sc votes balances i"
    "next_weight pa boost_root sc votes balances i < 2 ^ 63"
proof -
  let ?own = "own_weight \<lparr>pb_root = boost_root, pb_score = sc\<rparr> votes balances (pa_nodes pa)"
  show "0 \<le> next_weight pa boost_root sc votes balances i"
    unfolding next_weight_def by (intro ghost_weight_nonneg own_weight_nonneg)
  have "next_weight pa boost_root sc votes balances i \<le>
      (\<Sum>j | j < length (pa_nodes pa) \<and> i \<in> set (ancestors (pa_nodes pa) j). ?own j)"
    unfolding next_weight_def by (intro ghost_weight_le own_weight_nonneg assms(2))
  also have "\<dots> \<le> stake balances 0 votes + uint sc"
    using sum_own_weight_le [of "pa_nodes pa" "pa_indices pa"
        "{j. j < length (pa_nodes pa) \<and> i \<in> set (ancestors (pa_nodes pa) j)}"
        "\<lparr>pb_root = boost_root, pb_score = sc\<rparr>" votes balances] assms(1)
    by (simp add: wf_array_def Collect_conj_eq Int_lower1 lessThan_def)
  finally show "next_weight pa boost_root sc votes balances i < 2 ^ 63"
    using assms(3) by linarith
qed

lemma next_weight_target:
  fixes boost_root :: hash256
  assumes wf: "wf_array pa" and nz: "root_nonzero (pa_nodes pa)"
    and old: "weights_for votes old_balances pa" and i: "i < length (pa_nodes pa)"
    and bound: "stake new_balances 0 votes' + uint sc < 2 ^ 63"
  defines "W \<equiv> next_weight pa boost_root sc votes' new_balances"
    and "\<delta> \<equiv> (\<lambda>i. weight_of (n_root (pa_nodes pa ! i)) new_balances 0 votes'
                    - weight_of (n_root (pa_nodes pa ! i)) old_balances 0 votes)"
  shows "target_ok boost_root sc (pa_previous_proposer_boost pa) (pa_nodes pa ! i)
    (pending \<delta> W 0 (pa_nodes pa) i) (W i)"
proof -
  let ?ns = "pa_nodes pa" and ?prev = "pa_previous_proposer_boost pa"
  let ?C = "{c. c < length ?ns \<and> parent_idx ?ns c = Some i}"
  have W: "0 \<le> W i" "W i < 2 ^ 63"
    unfolding W_def by (intro next_weight_bounds [OF wf i bound])+
  have w: "uint (n_weight (?ns ! i)) < 2 ^ 63" using old i by (simp add: weights_for_def)
  have "n_root (?ns ! i) \<noteq> 0" using nz i by simp
  moreover have "W i = 0" if "is_invalid (n_execution_status (?ns ! i))"
    using that unfolding W_def next_weight_def by (subst ghost_weight_rec) simp
  moreover have "boost_of boost_root sc (?ns ! i) \<le> W i
      \<and> boost_of (pb_root ?prev) (pb_score ?prev) (?ns ! i) \<le> uint (n_weight (?ns ! i))
      \<and> pending \<delta> W 0 ?ns i = (W i - boost_of boost_root sc (?ns ! i)) -
          (uint (n_weight (?ns ! i)) - boost_of (pb_root ?prev) (pb_score ?prev) (?ns ! i))"
    if valid: "\<not> is_invalid (n_execution_status (?ns ! i))"
  proof -
    have rec: "W i = weight_of (n_root (?ns ! i)) new_balances 0 votes'
        + boost_of boost_root sc (?ns ! i) + (\<Sum>c \<in> ?C. W c)"
      using valid unfolding W_def next_weight_def
      by (subst ghost_weight_rec) (simp add: own_weight_def)
    have w_eq: "uint (n_weight (?ns ! i)) = weight_of (n_root (?ns ! i)) old_balances 0 votes
        + boost_of (pb_root ?prev) (pb_score ?prev) (?ns ! i) + (\<Sum>c \<in> ?C. uint (n_weight (?ns ! c)))"
      using old i valid by (simp add: weights_for_def own_weight_def)
    have pend: "pending \<delta> W 0 ?ns i = weight_of (n_root (?ns ! i)) new_balances 0 votes'
        - weight_of (n_root (?ns ! i)) old_balances 0 votes
        + ((\<Sum>c \<in> ?C. W c) - (\<Sum>c \<in> ?C. uint (n_weight (?ns ! c))))"
      by (simp add: pending_def \<delta>_def sum_subtractf)
    have "0 \<le> (\<Sum>c \<in> ?C. W c)"
      unfolding W_def using next_weight_bounds(1) [OF wf _ bound] by (intro sum_nonneg) auto
    moreover have "0 \<le> (\<Sum>c \<in> ?C. uint (n_weight (?ns ! c)))" by (intro sum_nonneg) auto
    moreover note weight_of_nonneg [of "n_root (?ns ! i)" new_balances 0 votes']
      weight_of_nonneg [of "n_root (?ns ! i)" old_balances 0 votes]
    ultimately show ?thesis using rec w_eq pend by linarith
  qed
  ultimately show ?thesis using W w by (simp add: target_ok_def)
qed

section \<open>Applying the score changes\<close>

text \<open>The array between the two loops of \<^verbatim>\<open>apply_score_changes\<close>.\<close>

definition rescored ::
    "proto_array \<Rightarrow> checkpoint \<Rightarrow> checkpoint \<Rightarrow> hash256 \<Rightarrow> u64 \<Rightarrow> (usize \<Rightarrow> int) \<Rightarrow> proto_array" where
  "rescored pa jc fin boost_root score W =
     (set_checkpoints jc fin pa)
       \<lparr>pa_nodes := set_weights W 0 (pa_nodes pa),
        pa_previous_proposer_boost := \<lparr>pb_root = boost_root, pb_score = score\<rparr>\<rparr>"

lemma set_checkpoints_simps [simp]:
  "pa_nodes (set_checkpoints jc fin pa) = pa_nodes pa"
  "pa_indices (set_checkpoints jc fin pa) = pa_indices pa"
  "pa_previous_proposer_boost (set_checkpoints jc fin pa) = pa_previous_proposer_boost pa"
  "pa_justified_checkpoint (set_checkpoints jc fin pa) = jc"
  "pa_finalized_checkpoint (set_checkpoints jc fin pa) = fin"
  by (simp_all add: set_checkpoints_def)

lemma rescored_simps [simp]:
  "pa_nodes (rescored pa jc fin boost_root score W) = set_weights W 0 (pa_nodes pa)"
  "pa_indices (rescored pa jc fin boost_root score W) = pa_indices pa"
  "pa_previous_proposer_boost (rescored pa jc fin boost_root score W) =
     \<lparr>pb_root = boost_root, pb_score = score\<rparr>"
  by (simp_all add: rescored_def)

lemma set_weights_skeleton: "skeleton (set_weights W k ns) = skeleton ns"
  by (rule nth_equalityI) (simp_all add: set_weights_nth)

lemma wf_rescored:
  assumes "wf_array pa"
  shows "wf_array (rescored pa jc fin boost_root score W)"
proof -
  let ?ns = "set_weights W 0 (pa_nodes pa)"
  note sk = set_weights_skeleton [of W 0 "pa_nodes pa"]
  have "wf_nodes ?ns"
    using assms links_ok_skeleton [OF sk]
    by (simp add: wf_array_def wf_nodes_def best_links_ok_skeleton [OF sk] set_weights_nth)
  then show ?thesis
    using assms indices_ok_skeleton [OF sk] by (simp add: wf_array_def)
qed

lemma core_rescored:
  "core_array (rescored pa jc fin boost_root score W) = core_array (set_checkpoints jc fin pa)"
proof -
  have "map core (set_weights W 0 (pa_nodes pa)) = map core (pa_nodes pa)"
    by (rule nth_equalityI) (simp_all add: set_weights_nth core_def bare_def)
  then show ?thesis by (simp add: core_array_def rescored_def)
qed

lemma apply_score_changes_ok:
  assumes wf: "wf_array pa"
    and target: "\<And>i. i < length (pa_nodes pa) \<Longrightarrow>
      target_ok boost_root sc (pa_previous_proposer_boost pa) (pa_nodes pa ! i)
        (pending \<delta> W 0 (pa_nodes pa) i) (W i)"
    and sc: "boost_score E spec balances = Some sc"
  shows "apply_score_changes E pa (delta_vec \<delta> (length (pa_nodes pa))) jc fin balances boost_root
      current_slot spec =
    Inr (best_pass E current_slot (length (pa_nodes pa))
      (rescored pa jc fin boost_root
        (score_from spec boost_root sc (pa_nodes pa) (length (pa_nodes pa)) 0) W))"
proof -
  let ?ns = "pa_nodes pa" and ?pa = "set_checkpoints jc fin pa"
  have len: "length (delta_vec \<delta> (length ?ns)) = hm_len (pa_indices pa)"
    using wf by (simp add: delta_vec_def wf_array_def indices_ok_def)
  have start: "delta_vec \<delta> (length ?ns) = deltas_at \<delta> W (length ?ns) ?ns"
    by (simp add: delta_vec_def deltas_at_def pending_start)
  have same: "?pa\<lparr>pa_nodes := ?ns\<rparr> = ?pa" by (simp add: set_checkpoints_def)
  have links: "links_ok (pa_nodes ?pa)" using wf by (simp add: wf_array_def wf_nodes_def)
  have "apply_weight_loop E spec balances boost_root (length ?ns)
      (?pa, delta_vec \<delta> (length ?ns), 0) =
    Inr (?pa\<lparr>pa_nodes := set_weights W 0 ?ns\<rparr>, deltas_at \<delta> W 0 ?ns,
         score_from spec boost_root sc ?ns (length ?ns) 0)"
    using apply_weight_loop_ok [OF links _ sc, of boost_root \<delta> W "length ?ns" 0] target
    by (simp add: start set_weights_none same)
  moreover have "update_best_loop E current_slot (length ?ns) (rescored pa jc fin boost_root score W)
      = Inr (best_pass E current_slot (length ?ns) (rescored pa jc fin boost_root score W))" for score
    by (rule update_best_loop_total [OF wf_rescored [OF wf]]) simp
  ultimately show ?thesis
    using len unfolding apply_score_changes_def set_checkpoints_def [symmetric]
    by (simp add: Let_def rescored_def)
qed

lemma recorded_boost:
  assumes "i < length ns" and "\<not> is_invalid (n_execution_status (ns ! i))"
    and "boost_score E spec balances = Some sc"
  shows "boost_of boost_root (score_from spec boost_root sc ns (length ns) 0) (ns ! i) =
    boost_of boost_root sc (ns ! i)"
proof (cases "proposer_score_boost spec")
  case None
  then have "sc = 0" using assms(3) by (simp add: boost_score_def)
  then show ?thesis using None by (simp add: score_from_eq boost_of_def)
next
  case (Some pct)
  then show ?thesis using assms(1,2) by (auto simp: score_from_eq boost_of_def)
qed

text \<open>After the loops the stored weights are consistent with the new votes and balances.\<close>

lemma weights_for_rescored:
  fixes boost_root :: hash256
  assumes wf: "wf_array pa" and bound: "stake balances 0 votes + uint sc < 2 ^ 63"
    and sc: "boost_score E spec justified = Some sc"
  defines "W \<equiv> next_weight pa boost_root sc votes balances"
  shows "weights_for votes balances
    (rescored pa jc fin boost_root (score_from spec boost_root sc (pa_nodes pa) (length (pa_nodes pa)) 0) W)"
proof -
  let ?ns = "pa_nodes pa" and ?ns' = "set_weights W 0 (pa_nodes pa)"
  let ?score = "score_from spec boost_root sc ?ns (length ?ns) 0"
  have W: "uint (word_of_int (W i) :: u64) = W i" "W i < 2 ^ 63" if "i < length ?ns" for i
  proof -
    have "0 \<le> W i" "W i < 2 ^ 63"
      unfolding W_def by (intro next_weight_bounds [OF wf that bound])+
    then show "uint (word_of_int (W i) :: u64) = W i" "W i < 2 ^ 63"
      by (simp_all add: uint_word_of_int_eq take_bit_int_eq_self)
  qed
  have weight: "uint (n_weight (?ns' ! i)) = W i" if "i < length ?ns" for i
    using that W by (simp add: set_weights_nth)
  have "uint (n_weight (?ns' ! i)) = own_weight \<lparr>pb_root = boost_root, pb_score = ?score\<rparr> votes balances ?ns' i
      + (\<Sum>c | c < length ?ns \<and> parent_idx ?ns' c = Some i. uint (n_weight (?ns' ! c)))"
    if i: "i < length ?ns" and valid: "\<not> is_invalid (n_execution_status (?ns ! i))" for i
  proof -
    have "own_weight \<lparr>pb_root = boost_root, pb_score = ?score\<rparr> votes balances ?ns' i =
        own_weight \<lparr>pb_root = boost_root, pb_score = sc\<rparr> votes balances ?ns i"
      using recorded_boost [OF i valid sc, of boost_root] i
      by (simp add: own_weight_def set_weights_nth boost_of_def)
    moreover have "(\<Sum>c | c < length ?ns \<and> parent_idx ?ns' c = Some i. uint (n_weight (?ns' ! c))) =
        (\<Sum>c | c < length ?ns \<and> parent_idx ?ns c = Some i. W c)"
      using weight by (intro sum.cong) (auto simp: skeleton_parent_idx [OF set_weights_skeleton])
    moreover have "W i = own_weight \<lparr>pb_root = boost_root, pb_score = sc\<rparr> votes balances ?ns i
        + (\<Sum>c | c < length ?ns \<and> parent_idx ?ns c = Some i. W c)"
      using valid unfolding W_def next_weight_def by (subst ghost_weight_rec) simp
    ultimately show ?thesis using weight [OF i] by simp
  qed
  moreover have "uint (n_weight (?ns' ! i)) < 2 ^ 63" if "i < length ?ns" for i
    using weight [OF that] W(2) [OF that] by simp
  moreover have "n_execution_status (?ns' ! i) = n_execution_status (?ns ! i)"
    if "i < length ?ns" for i using that by (simp add: set_weights_nth)
  ultimately show ?thesis
    unfolding weights_for_def rescored_simps length_set_weights by (intro allI conjI impI) auto
qed

section \<open>The head\<close>

text \<open>The votes after a round, and the array between the two loops of that round.\<close>

definition next_votes :: "fork_choice \<Rightarrow> justified_balances \<Rightarrow> u64 list \<Rightarrow> vote_tracker list" where
  "next_votes fc new_balances equivocating =
     apply_vote_updates (fc_votes fc) (effective_balances (fc_balances fc))
       (effective_balances new_balances) equivocating"

definition scored_array ::
    "fork_choice \<Rightarrow> checkpoint \<Rightarrow> checkpoint \<Rightarrow> justified_balances \<Rightarrow> hash256 \<Rightarrow> u64 list
     \<Rightarrow> chain_spec \<Rightarrow> u64 \<Rightarrow> proto_array" where
  "scored_array fc jc fin new_balances boost_root equivocating spec sc =
     (let pa = fc_proto_array fc
      in rescored pa jc fin boost_root
           (score_from spec boost_root sc (pa_nodes pa) (length (pa_nodes pa)) 0)
           (next_weight pa boost_root sc (next_votes fc new_balances equivocating)
              (effective_balances new_balances)))"

lemma stake_length: "length vs = length vs' \<Longrightarrow> stake balances k vs = stake balances k vs'"
  by (induction vs vs' arbitrary: k rule: list_induct2) simp_all

lemma stake_next_votes: "stake balances 0 (next_votes fc new_balances equivocating) = stake balances 0 (fc_votes fc)"
  by (rule stake_length) (simp add: next_votes_def apply_vote_updates_def)

text \<open>The preconditions of a round.\<close>

definition round_ok :: "eth_spec \<Rightarrow> fork_choice \<Rightarrow> justified_balances \<Rightarrow> chain_spec \<Rightarrow> u64 \<Rightarrow> bool" where
  "round_ok E fc new_balances spec sc \<longleftrightarrow>
     wf_array (fc_proto_array fc) \<and> root_nonzero (pa_nodes (fc_proto_array fc))
     \<and> weights_for (fc_votes fc) (effective_balances (fc_balances fc)) (fc_proto_array fc)
     \<and> stake (effective_balances (fc_balances fc)) 0 (fc_votes fc) < 2 ^ 63
     \<and> stake (effective_balances new_balances) 0 (fc_votes fc) + uint sc < 2 ^ 63
     \<and> boost_score E spec new_balances = Some sc"

lemma compute_and_apply_ok:
  assumes "round_ok E fc new_balances spec sc"
  shows "\<exists>deltas. compute_deltas (pa_indices (fc_proto_array fc)) (fc_votes fc)
        (effective_balances (fc_balances fc)) (effective_balances new_balances) equivocating =
      Inr (deltas, next_votes fc new_balances equivocating)
    \<and> apply_score_changes E (fc_proto_array fc) deltas jc fin new_balances boost_root current_slot spec =
      Inr (best_pass E current_slot (length (pa_nodes (fc_proto_array fc)))
        (scored_array fc jc fin new_balances boost_root equivocating spec sc))"
proof -
  let ?pa = "fc_proto_array fc" and ?old = "effective_balances (fc_balances fc)"
    and ?new = "effective_balances new_balances" and ?votes' = "next_votes fc new_balances equivocating"
  let ?\<delta> = "\<lambda>i. weight_of (n_root (pa_nodes ?pa ! i)) ?new 0 ?votes'
                - weight_of (n_root (pa_nodes ?pa ! i)) ?old 0 (fc_votes fc)"
  have wf: "wf_array ?pa" and nz: "root_nonzero (pa_nodes ?pa)"
    and old: "weights_for (fc_votes fc) ?old ?pa" and st: "stake ?old 0 (fc_votes fc) < 2 ^ 63"
    and st': "stake ?new 0 (fc_votes fc) + uint sc < 2 ^ 63"
    and sc: "boost_score E spec new_balances = Some sc"
    using assms by (auto simp: round_ok_def)
  have "stake ?new 0 (fc_votes fc) < 2 ^ 63" using st' uint_ge_0 [of sc] by linarith
  then have "compute_deltas (pa_indices ?pa) (fc_votes fc) ?old ?new equivocating =
      Inr (delta_vec ?\<delta> (length (pa_nodes ?pa)), ?votes')"
    using compute_deltas_ok [of "pa_nodes ?pa" "pa_indices ?pa" ?old "fc_votes fc" ?new equivocating]
      wf nz st by (simp add: wf_array_def next_votes_def)
  moreover have "apply_score_changes E ?pa (delta_vec ?\<delta> (length (pa_nodes ?pa))) jc fin new_balances
      boost_root current_slot spec =
    Inr (best_pass E current_slot (length (pa_nodes ?pa))
      (scored_array fc jc fin new_balances boost_root equivocating spec sc))"
    unfolding scored_array_def Let_def
    using next_weight_target [OF wf nz old _ st' [folded stake_next_votes [of _ fc new_balances equivocating]]]
    by (intro apply_score_changes_ok [OF wf _ sc]) blast
  ultimately show ?thesis by blast
qed

text \<open>The fork choice after the round.\<close>

definition after_round ::
    "eth_spec \<Rightarrow> fork_choice \<Rightarrow> checkpoint \<Rightarrow> checkpoint \<Rightarrow> justified_balances \<Rightarrow> hash256
     \<Rightarrow> u64 list \<Rightarrow> slot \<Rightarrow> chain_spec \<Rightarrow> u64 \<Rightarrow> fork_choice" where
  "after_round E fc jc fin new_balances boost_root equivocating current_slot spec sc =
     (maybe_update_balances
        (fc\<lparr>fc_votes := next_votes fc new_balances equivocating,
            fc_proto_array := best_pass E current_slot (length (pa_nodes (fc_proto_array fc)))
              (scored_array fc jc fin new_balances boost_root equivocating spec sc)\<rparr>)
        new_balances)\<lparr>fc_gloas_head_payload_status := None\<rparr>"

lemma find_head_ffg_eq:
  assumes "round_ok E fc new_balances spec sc"
  shows "fc_find_head_ffg E fc jc fin new_balances boost_root equivocating current_slot spec =
    (let fc' = after_round E fc jc fin new_balances boost_root equivocating current_slot spec sc
     in case find_head E (fc_proto_array fc') (cp_root jc) current_slot of
          Inl e \<Rightarrow> Inl (FindHeadError e, fc')
        | Inr head \<Rightarrow> Inr (head, fc'))"
  using compute_and_apply_ok [OF assms, of equivocating jc fin boost_root current_slot]
  by (auto simp: fc_find_head_ffg_def lift_pa_def after_round_def Let_def split: sum.splits)

end
