(* ===== verification/Head_Properties.thy ===== *)
theory Head_Properties
  imports Lmd_Ghost Sample_Chain
begin

text \<open>The properties of head selection before Gloas, with the inputs at which they are exercised.\<close>

lemma weights_for_code [code]:
  "weights_for votes balances pa \<longleftrightarrow>
     (\<forall>i < length (pa_nodes pa).
        uint (n_weight (pa_nodes pa ! i)) < 2 ^ 63
        \<and> (\<not> is_invalid (n_execution_status (pa_nodes pa ! i)) \<longrightarrow>
             uint (n_weight (pa_nodes pa ! i)) =
               own_weight (pa_previous_proposer_boost pa) votes balances (pa_nodes pa) i
               + sum_list (map (\<lambda>c. uint (n_weight (pa_nodes pa ! c)))
                   (filter (\<lambda>c. parent_idx (pa_nodes pa) c = Some i) [0 ..< length (pa_nodes pa)]))))"
  by (simp add: weights_for_def sum_list_distinct_conv_sum_set conj_commute)







end
