(* ===== verification/Proto_Invariant.thy ===== *)
theory Proto_Invariant
  imports Proto_Wf Guarded_Steps
begin

text \<open>
  Every operation of \<^verbatim>\<open>ProtoArray\<close> keeps \<^const>\<open>wf_array\<close>, also when it stops with an error half
  way, and pruning cannot fail on a well-formed array.
\<close>

section \<open>Scores\<close>

lemma wf_array_cong:
  assumes "pa_nodes pa' = pa_nodes pa" and "pa_indices pa' = pa_indices pa"
  shows "wf_array pa' = wf_array pa"
  by (simp add: wf_array_def assms)

lemma wf_array_fields [simp]:
  "wf_array (pa\<lparr>pa_justified_checkpoint := j\<rparr>) = wf_array pa"
  "wf_array (pa\<lparr>pa_finalized_checkpoint := f\<rparr>) = wf_array pa"
  "wf_array (pa\<lparr>pa_previous_proposer_boost := b\<rparr>) = wf_array pa"
  "wf_array (pa\<lparr>pa_prune_threshold := t\<rparr>) = wf_array pa"
  by (simp_all add: wf_array_def)

lemma wf_set_weight:
  assumes "wf_array pa" and "i < length (pa_nodes pa)"
  shows "wf_array (set_node pa i ((pa_nodes pa ! i)\<lparr>n_weight := w\<rparr>))"
  using assms by (intro wf_set_node) (simp_all add: keeps_node_def)

lemma wf_set_status:
  assumes "wf_array pa" and "i < length (pa_nodes pa)"
  shows "wf_array (set_node pa i ((pa_nodes pa ! i)\<lparr>n_execution_status := st\<rparr>))"
  using assms by (intro wf_set_node) (simp_all add: keeps_node_def)

lemma length_set_node [simp]: "length (pa_nodes (set_node pa i n)) = length (pa_nodes pa)"
  by (simp add: set_node_def)

lemma indices_set_node [simp]: "pa_indices (set_node pa i n) = pa_indices pa"
  by (simp add: set_node_def)

lemma apply_weight_step_wf:
  assumes wf: "wf_array (fst s)"
  shows "case apply_weight_step E spec balances boost_root i s of
      Inl (_, pa) \<Rightarrow> wf_array pa | Inr (pa, _, _) \<Rightarrow> wf_array pa"
proof -
  obtain pa deltas sc where s: "s = (pa, deltas, sc)" by (cases s)
  show ?thesis
  proof (cases "i < length (pa_nodes pa)")
    case False
    then show ?thesis using wf s by (simp add: apply_weight_step_def nth_opt_def)
  next
    case True
    let ?node = "pa_nodes pa ! i"
    let ?d = "boosted_delta E spec balances boost_root (pa_previous_proposer_boost pa) i ?node deltas sc"
    show ?thesis
      using wf wf_set_weight [of pa i] True
      by (cases ?d; cases "apply_delta i ?node (fst (projr ?d))")
        (auto simp: s apply_weight_step_def nth_opt_def Let_def split: option.splits)
  qed
qed

lemma apply_weight_loop_wf:
  assumes "wf_array (fst s)"
  shows "case apply_weight_loop E spec balances boost_root k s of
      Inl (_, pa) \<Rightarrow> wf_array pa | Inr (pa, _, _) \<Rightarrow> wf_array pa"
  using assms
proof (induction k arbitrary: s)
  case 0
  then show ?case by (cases s) simp
next
  case (Suc i)
  show ?case
  proof (cases "apply_weight_step E spec balances boost_root i s")
    case (Inl e)
    then show ?thesis using apply_weight_step_wf [OF Suc.prems, of E spec balances boost_root i] by simp
  next
    case (Inr s')
    then have "wf_array (fst s')"
      using apply_weight_step_wf [OF Suc.prems, of E spec balances boost_root i] by (cases s') simp
    then show ?thesis using Suc.IH Inr by simp
  qed
qed

lemma apply_score_changes_wf:
  assumes wf: "wf_array pa"
  shows "after wf_array (apply_score_changes E pa deltas jc fin balances boost_root s spec)"
proof -
  let ?pa1 = "if jc \<noteq> pa_justified_checkpoint pa \<or> fin \<noteq> pa_finalized_checkpoint pa
    then pa\<lparr>pa_justified_checkpoint := jc, pa_finalized_checkpoint := fin\<rparr> else pa"
  let ?r = "apply_weight_loop E spec balances boost_root (length (pa_nodes ?pa1)) (?pa1, deltas, 0)"
  have "case ?r of Inl (_, pa) \<Rightarrow> wf_array pa | Inr (pa, _, _) \<Rightarrow> wf_array pa"
    using wf by (intro apply_weight_loop_wf) simp
  moreover have "after wf_array (update_best_loop E s (length (pa_nodes q))
      (q\<lparr>pa_previous_proposer_boost := b\<rparr>))" if "wf_array q" for q b
    using that by (simp add: update_best_loop_total best_pass_keeps)
  ultimately show ?thesis
    using wf unfolding apply_score_changes_def Let_def
    by (cases ?r) (auto split: if_splits)
qed

section \<open>Payload statuses\<close>

lemma validation_by_index_wf:
  assumes "wf_array pa"
  shows "after wf_array (propagate_execution_payload_validation_by_index pa i)"
  using assms
proof (induction pa i rule: propagate_execution_payload_validation_by_index.induct)
  case (1 pa i)
  show ?case
  proof (cases "i < length (pa_nodes pa)")
    case False
    then show ?thesis
      using 1 by (subst propagate_execution_payload_validation_by_index.simps) (simp add: nth_opt_def)
  next
    case True
    show ?thesis
      using True "1.prems" "1.IH" wf_set_status [OF "1.prems" True]
      by (subst propagate_execution_payload_validation_by_index.simps)
        (auto simp: nth_opt_def Let_def split: execution_status.splits option.splits)
  qed
qed

lemma invalidate_ancestor_step_wf:
  assumes wf: "wf_array pa"
  shows "case invalidate_ancestor_step iop r lva i (pa, dead) of
      Inl (_, pa') \<Rightarrow> wf_array pa' | Inr ((pa', _), _) \<Rightarrow> wf_array pa'"
proof (cases "i < length (pa_nodes pa)")
  case False
  then show ?thesis using wf by (simp add: invalidate_ancestor_step_def nth_opt_def)
next
  case True
  have keep: "wf_array (set_node pa i n)" if "keeps_node (pa_nodes pa ! i) n" for n
    using wf True that by (rule wf_set_node)
  show ?thesis
    using True wf
    by (auto simp: invalidate_ancestor_step_def nth_opt_def Let_def keeps_node_def
        split: option.splits execution_status.splits intro!: keep)
qed

lemma invalidate_ancestors_wf:
  assumes "wf_array pa"
  shows "case invalidate_ancestors k iop r lva i (pa, dead) of
      Inl (_, pa') \<Rightarrow> wf_array pa' | Inr (pa', _) \<Rightarrow> wf_array pa'"
  using assms
proof (induction k arbitrary: i pa dead)
  case 0
  then show ?case by simp
next
  case (Suc k)
  show ?case
    using invalidate_ancestor_step_wf [OF Suc.prems, of iop r lva i dead] Suc.IH
    by (cases "invalidate_ancestor_step iop r lva i (pa, dead)") (auto split: option.splits)
qed

lemma invalidate_descendant_step_wf:
  assumes wf: "wf_array pa"
  shows "case invalidate_descendant_step i (pa, dead) of
      Inl (_, pa') \<Rightarrow> wf_array pa' | Inr (pa', _) \<Rightarrow> wf_array pa'"
proof (cases "i < length (pa_nodes pa)")
  case False
  then show ?thesis using wf by (simp add: invalidate_descendant_step_def nth_opt_def)
next
  case True
  then show ?thesis
    using wf wf_set_status [OF wf True]
    by (auto simp: invalidate_descendant_step_def nth_opt_def split: option.splits execution_status.splits)
qed

lemma invalidate_descendants_wf:
  assumes "wf_array pa"
  shows "case invalidate_descendants is (pa, dead) of
      Inl (_, pa') \<Rightarrow> wf_array pa' | Inr (pa', _) \<Rightarrow> wf_array pa'"
  using assms
proof (induction "is" arbitrary: pa dead)
  case Nil
  then show ?case by simp
next
  case (Cons i "is")
  show ?case
    using invalidate_descendant_step_wf [OF Cons.prems, of i dead] Cons.IH
    by (cases "invalidate_descendant_step i (pa, dead)") auto
qed

lemma validation_wf:
  assumes "wf_array pa"
  shows "after wf_array (propagate_execution_payload_validation pa r)"
  using assms validation_by_index_wf
  by (simp add: propagate_execution_payload_validation_def after_with_state split: sum.splits)

lemma invalidation_wf:
  assumes wf: "wf_array pa"
  shows "after wf_array (propagate_execution_payload_invalidation E pa iop)"
proof (cases "hm_get (pa_indices pa) (op_block_root iop)")
  case None
  then show ?thesis using wf by (simp add: propagate_execution_payload_invalidation_def)
next
  case (Some i)
  let ?lva_root = "Option.bind (op_latest_valid_ancestor iop)
    (execution_block_hash_to_beacon_block_root pa)"
  let ?lva = "case ?lva_root of None \<Rightarrow> False
    | Some r \<Rightarrow> is_descendant pa r (op_block_root iop) \<and> is_finalized_checkpoint_or_descendant E pa r"
  let ?r = "invalidate_ancestors (length (pa_nodes pa)) iop (op_block_root iop) ?lva i (pa, {})"
  have anc: "case ?r of Inl (_, pa') \<Rightarrow> wf_array pa' | Inr (pa', _) \<Rightarrow> wf_array pa'"
    using wf by (rule invalidate_ancestors_wf)
  have "after wf_array (bind_r (invalidate_descendants is (q, dead)) (\<lambda>(pa2, _). Inr pa2))"
    if "wf_array q" for q "is" dead
    using invalidate_descendants_wf [OF that, of "is" dead]
    by (cases "invalidate_descendants is (q, dead)") auto
  then show ?thesis
    using Some anc
    by (cases ?r) (auto simp: propagate_execution_payload_invalidation_def Let_def after_with_state
        split: sum.splits)
qed

section \<open>Appending a node\<close>

lemma parent_idx_append:
  "i < length ns \<Longrightarrow> parent_idx (ns @ ms) i = parent_idx ns i"
  by (simp add: parent_idx_def nth_opt_def nth_append)

lemma ancestors_append:
  "i < length ns \<Longrightarrow> ancestors (ns @ ms) i = ancestors ns i"
proof (induction i rule: tree.par_induct [of ns])
  case (step i)
  then show ?case
    using parent_idx_in_range(2) [of ns i]
    unfolding ancestors.simps [of "ns @ ms" i] ancestors.simps [of ns i]
    by (simp add: parent_idx_append split: option.splits)
qed

lemma best_links_ok_append:
  assumes "best_links_ok ns i b d"
  shows "best_links_ok (ns @ ms) i b d"
  using assms by (auto simp: best_links_ok_def parent_idx_append ancestors_append split: option.splits)

lemma wf_nodes_append:
  assumes wf: "wf_nodes ns" and par: "\<And>p. n_parent n = Some p \<Longrightarrow> p < length ns"
    and leaf: "n_best_child n = None" "n_best_descendant n = None"
  shows "wf_nodes (ns @ [n])"
proof -
  have "best_links_ok (ns @ [n]) i (n_best_child ((ns @ [n]) ! i)) (n_best_descendant ((ns @ [n]) ! i))"
    if "i < length (ns @ [n])" for i
  proof (cases "i < length ns")
    case True
    then show ?thesis using wf_nodes_best [OF wf True] by (simp add: nth_append best_links_ok_append)
  next
    case False
    then have "(ns @ [n]) ! i = n" using that by (simp add: nth_append less_Suc_eq)
    then show ?thesis using leaf by (simp add: best_links_ok_def)
  qed
  moreover have "links_ok (ns @ [n])"
    using wf par by (auto simp: wf_nodes_def links_ok_def nth_append less_Suc_eq split: option.splits)
  ultimately show ?thesis by (simp add: wf_nodes_def)
qed

lemma indices_ok_append:
  assumes ok: "indices_ok ns m" and fresh: "hm_get m (n_root n) = None"
  shows "indices_ok (ns @ [n]) (hm_insert m (n_root n) (length ns))"
proof -
  have "hm_ok m" "hm_len m = length ns" using ok by (simp_all add: indices_ok_def)
  moreover have "n_root (ns ! i) \<noteq> n_root n" if "i < length ns" for i
    using ok fresh that by (auto simp: indices_ok_def)
  ultimately show ?thesis
    using ok fresh
    by (auto simp: indices_ok_def hm.get_ins hm.ok_ins hm.len_ins_fresh nth_append less_Suc_eq)
qed

lemma node_of_block_fields [simp]:
  "n_root (node_of_block pa b) = b_root b" "n_slot (node_of_block pa b) = b_slot b"
  "n_parent (node_of_block pa b) = Option.bind (b_parent_root b) (hm_get (pa_indices pa))"
  "n_best_child (node_of_block pa b) = None" "n_best_descendant (node_of_block pa b) = None"
  "n_weight (node_of_block pa b) = 0" "n_execution_status (node_of_block pa b) = b_execution_status b"
  by (simp_all add: node_of_block_def)

text \<open>The array with the node of a new block, before the links of its parent are updated.\<close>

definition appended :: "proto_array \<Rightarrow> block \<Rightarrow> proto_array" where
  "appended pa b = pa\<lparr>pa_indices := hm_insert (pa_indices pa) (b_root b) (length (pa_nodes pa)),
     pa_nodes := pa_nodes pa @ [node_of_block pa b]\<rparr>"

lemma wf_node_of_block_parent:
  assumes "wf_array pa" and "n_parent (node_of_block pa b) = Some p"
  shows "p < length (pa_nodes pa)"
  using assms by (auto simp: bind_eq_Some_conv wf_array_lookup)

lemma wf_appended:
  assumes wf: "wf_array pa" and fresh: "\<not> hm_contains_key (pa_indices pa) (b_root b)"
  shows "wf_array (appended pa b)"
proof -
  have "wf_nodes (pa_nodes pa @ [node_of_block pa b])"
    using wf wf_node_of_block_parent [OF wf] by (intro wf_nodes_append) (simp_all add: wf_array_def)
  moreover have "indices_ok (pa_nodes pa @ [node_of_block pa b])
      (hm_insert (pa_indices pa) (b_root b) (length (pa_nodes pa)))"
    using indices_ok_append [of "pa_nodes pa" "pa_indices pa" "node_of_block pa b"] wf fresh
    by (simp add: wf_array_def hm_contains_key_def)
  ultimately show ?thesis by (simp add: appended_def wf_array_def)
qed

text \<open>What \<^const>\<open>on_block\<close> does on a well-formed array, branch by branch.\<close>

lemma on_block_known:
  "hm_contains_key (pa_indices pa) (b_root b) \<Longrightarrow> on_block E pa b s = Inr pa"
  by (simp add: on_block_def)

lemma on_block_no_parent:
  "\<not> hm_contains_key (pa_indices pa) (b_root b) \<Longrightarrow> n_parent (node_of_block pa b) = None \<Longrightarrow>
     on_block E pa b s = Inr (appended pa b)"
  by (simp add: on_block_def appended_def)

lemma on_block_parent:
  assumes wf: "wf_array pa" and fresh: "\<not> hm_contains_key (pa_indices pa) (b_root b)"
    and par: "n_parent (node_of_block pa b) = Some p"
  shows "on_block E pa b s =
    (if is_invalid (n_execution_status (pa_nodes pa ! p))
     then Inl (ParentExecutionStatusIsInvalid (b_root b) (n_root (pa_nodes pa ! p)), pa)
     else let pa' = update_best E s (appended pa b) p (length (pa_nodes pa))
          in if is_valid_and_post_bellatrix (b_execution_status b)
             then propagate_execution_payload_validation_by_index pa' p else Inr pa')"
proof -
  have p: "p < length (pa_nodes pa)" using wf_node_of_block_parent [OF wf par] .
  have "maybe_update_best_child_and_descendant E (appended pa b) p (length (pa_nodes pa)) s =
      Inr (update_best E s (appended pa b) p (length (pa_nodes pa)))"
    using p by (intro maybe_update_total wf_appended [OF wf fresh]) (simp_all add: appended_def)
  then show ?thesis
    using p fresh par by (simp add: on_block_def nth_opt_def appended_def Let_def)
qed

lemma appended_parent_idx:
  assumes "wf_array pa" and "n_parent (node_of_block pa b) = Some p"
  shows "parent_idx (pa_nodes (appended pa b)) (length (pa_nodes pa)) = Some p"
  using wf_node_of_block_parent [OF assms] assms(2)
  by (simp add: parent_idx_def appended_def nth_opt_def)

lemma on_block_wf:
  assumes wf: "wf_array pa"
  shows "after wf_array (on_block E pa b s)"
proof (cases "hm_contains_key (pa_indices pa) (b_root b)")
  case True
  then show ?thesis using wf by (simp add: on_block_known)
next
  case fresh: False
  show ?thesis
  proof (cases "n_parent (node_of_block pa b)")
    case None
    then show ?thesis using fresh wf by (simp add: on_block_no_parent wf_appended)
  next
    case (Some p)
    have "wf_array (update_best E s (appended pa b) p (length (pa_nodes pa)))"
      using appended_parent_idx [OF wf Some]
      by (intro wf_update_best wf_appended [OF wf fresh]) (simp_all add: appended_def)
    then show ?thesis
      using wf validation_by_index_wf unfolding on_block_parent [OF wf fresh Some] by (simp add: Let_def)
  qed
qed

end
