(* ===== verification/Proto_Prune.thy ===== *)
theory Proto_Prune
  imports Proto_Invariant
begin

text \<open>
  \<^verbatim>\<open>maybe_prune\<close> on a well-formed array: it cannot fail on a known root, it keeps exactly the nodes
  from the finalized one on, renumbered, and the result is well formed again.
\<close>

section \<open>The renumbered nodes\<close>

definition shifted :: "usize \<Rightarrow> proto_node \<Rightarrow> proto_node" where
  "shifted f n = n\<lparr>
     n_parent := Option.bind (n_parent n) (\<lambda>p. if f \<le> p then Some (p - f) else None),
     n_best_child := map_option (\<lambda>c. c - f) (n_best_child n),
     n_best_descendant := map_option (\<lambda>d. d - f) (n_best_descendant n)\<rparr>"

definition pruned_nodes :: "usize \<Rightarrow> proto_node list \<Rightarrow> proto_node list" where
  "pruned_nodes f ns = map (shifted f) (drop f ns)"

lemma shifted_fields [simp]:
  "n_root (shifted f n) = n_root n" "n_slot (shifted f n) = n_slot n"
  "n_parent (shifted f n) = Option.bind (n_parent n) (\<lambda>p. if f \<le> p then Some (p - f) else None)"
  "n_best_child (shifted f n) = map_option (\<lambda>c. c - f) (n_best_child n)"
  "n_best_descendant (shifted f n) = map_option (\<lambda>d. d - f) (n_best_descendant n)"
  by (simp_all add: shifted_def)

lemma length_pruned_nodes [simp]: "length (pruned_nodes f ns) = length ns - f"
  by (simp add: pruned_nodes_def)

lemma nth_pruned_nodes [simp]: "i < length ns - f \<Longrightarrow> pruned_nodes f ns ! i = shifted f (ns ! (f + i))"
  by (simp add: pruned_nodes_def)

lemma shift_node_ok:
  assumes "\<And>c. n_best_child n = Some c \<Longrightarrow> f \<le> c" and "\<And>d. n_best_descendant n = Some d \<Longrightarrow> f \<le> d"
  shows "shift_node f n = Inr (shifted f n)"
  using assms
  by (cases "n_parent n"; cases "n_best_child n"; cases "n_best_descendant n")
    (simp_all add: shift_node_def shift_parent_def shifted_def Let_def)

lemma shift_nodes_ok:
  assumes "\<And>n. n \<in> set ns \<Longrightarrow> shift_node f n = Inr (shifted f n)"
  shows "shift_nodes f ns = Inr (map (shifted f) ns)"
  using assms by (induction ns) simp_all

lemma wf_nodes_shift_nodes:
  assumes wf: "wf_nodes ns"
  shows "shift_nodes f (drop f ns) = Inr (pruned_nodes f ns)"
  unfolding pruned_nodes_def
proof (intro shift_nodes_ok shift_node_ok)
  fix n c
  assume n: "n \<in> set (drop f ns)"
  then obtain k where "k < length ns - f" "n = ns ! (f + k)" by (auto simp: in_set_conv_nth)
  then obtain i where ok: "best_links_ok ns i (n_best_child n) (n_best_descendant n)" and f: "f \<le> i"
    using wf_nodes_best [OF wf, of "f + k"] by fastforce
  show "f \<le> c" if "n_best_child n = Some c"
    using ok f that parent_idx_less [of ns c i] by (auto simp: best_links_ok_def)
  show "f \<le> c" if "n_best_descendant n = Some c"
    using ok f that by (auto simp: best_links_ok_def)
qed

section \<open>The renumbered tree\<close>

lemma pruned_parent_idx:
  assumes "i < length ns - f"
  shows "parent_idx (pruned_nodes f ns) i =
    Option.bind (parent_idx ns (f + i)) (\<lambda>p. if f \<le> p then Some (p - f) else None)"
  using assms
  by (cases "n_parent (ns ! (f + i))") (auto simp: parent_idx_def nth_opt_def)

lemma pruned_ancestors:
  assumes "f + i \<in> set (ancestors ns j)" and "f \<le> j" and "j < length ns"
  shows "i \<in> set (ancestors (pruned_nodes f ns) (j - f))"
  using assms
proof (induction j rule: tree.par_induct [of ns])
  case (step j)
  show ?case
  proof (cases "f + i = j")
    case True
    then show ?thesis using tree.self_in_anc by auto
  next
    case False
    then obtain p where p: "parent_idx ns j = Some p" "f + i \<in> set (ancestors ns p)"
      using step.prems(1) tree.strict_anc_via_parent by blast
    then have "f \<le> p" "p < j" using tree.anc_le [of "f + i" ns p] parent_idx_less by fastforce+
    then have "i \<in> set (ancestors (pruned_nodes f ns) (p - f))"
      using step p by (intro step.IH) auto
    moreover have "parent_idx (pruned_nodes f ns) (j - f) = Some (p - f)"
      using step.prems p \<open>f \<le> p\<close> by (subst pruned_parent_idx) simp_all
    ultimately show ?thesis by (metis tree.anc_trans tree.parent_in_anc)
  qed
qed

lemma wf_pruned_nodes:
  assumes wf: "wf_nodes ns"
  shows "wf_nodes (pruned_nodes f ns)"
proof -
  have links: "best_links_ok (pruned_nodes f ns) i (n_best_child (pruned_nodes f ns ! i))
      (n_best_descendant (pruned_nodes f ns ! i))" if i: "i < length ns - f" for i
  proof -
    have ok: "best_links_ok ns (f + i) (n_best_child (ns ! (f + i))) (n_best_descendant (ns ! (f + i)))"
      using wf i by (intro wf_nodes_best) simp_all
    have "c - f < length ns - f \<and> parent_idx (pruned_nodes f ns) (c - f) = Some i"
      if "n_best_child (ns ! (f + i)) = Some c" for c
    proof -
      have c: "c < length ns" "parent_idx ns c = Some (f + i)" "f + i < c"
        using ok that parent_idx_less [of ns c "f + i"] by (auto simp: best_links_ok_def)
      then show ?thesis by (subst pruned_parent_idx) simp_all
    qed
    moreover have "i < d - f \<and> d - f < length ns - f \<and> i \<in> set (ancestors (pruned_nodes f ns) (d - f))"
      if "n_best_descendant (ns ! (f + i)) = Some d" for d
    proof -
      have d: "f + i < d" "d < length ns" "f + i \<in> set (ancestors ns d)"
        using ok that by (auto simp: best_links_ok_def)
      have "i < d - f" "d - f < length ns - f" using d by linarith+
      then show ?thesis using pruned_ancestors [OF d(3)] d by simp
    qed
    ultimately show ?thesis
      using i by (cases "n_best_child (ns ! (f + i))"; cases "n_best_descendant (ns ! (f + i))")
        (simp_all add: best_links_ok_def)
  qed
  have "p < i" if i: "i < length ns - f" and p: "n_parent (pruned_nodes f ns ! i) = Some p" for i p
  proof -
    obtain q where q: "n_parent (ns ! (f + i)) = Some q" "f \<le> q" "p = q - f"
      using i p by (auto simp: bind_eq_Some_conv split: if_splits)
    have "links_ok ns" "f + i < length ns" using wf i by (simp_all add: wf_nodes_def)
    then have "q < f + i" using q(1) by (rule links_ok_less)
    then show ?thesis using q by simp
  qed
  then have "links_ok (pruned_nodes f ns)" by (auto simp: links_ok_def split: option.splits)
  then show ?thesis using links by (simp add: wf_nodes_def)
qed

section \<open>The renumbered indices\<close>

lemma prune_indices_ok:
  assumes "\<And>i. i \<in> set is \<Longrightarrow> i < length (pa_nodes pa)"
  shows "prune_indices is pa = Inr (pa\<lparr>pa_indices :=
    fold (\<lambda>k m. hm_remove m k) (map (\<lambda>i. n_root (pa_nodes pa ! i)) is) (pa_indices pa)\<rparr>)"
  using assms by (induction "is" arbitrary: pa) (simp_all add: nth_opt_def)

lemma shift_indices_ok:
  assumes "\<And>r i. (r, i) \<in> set m \<Longrightarrow> f \<le> i"
  shows "shift_indices f m = Inr (map (\<lambda>(r, i). (r, i - f)) m)"
  using assms
proof (induction m)
  case Nil
  show ?case by simp
next
  case (Cons e m)
  have "shift_indices f m = Inr (map (\<lambda>(r, i). (r, i - f)) m)"
    using Cons.prems by (intro Cons.IH) auto
  moreover have "f \<le> snd e" using Cons.prems [of "fst e" "snd e"] by simp
  ultimately show ?case by (cases e) simp
qed

lemma hm_get_mem: "hm_ok m \<Longrightarrow> (r, i) \<in> set m \<longleftrightarrow> hm_get m r = Some i"
  by (simp add: hm_ok_def hm_get_def)

lemma hm_get_map_values:
  "hm_get (map (\<lambda>(r, i). (r, g i)) m) k = map_option g (hm_get m k)"
  by (simp add: hm_get_def map_of_map)

lemma hm_ok_map_values: "hm_ok (map (\<lambda>(r, i). (r, g i)) m) = hm_ok m"
  by (simp add: hm_ok_def o_def case_prod_beta)

lemma wf_root_inj:
  assumes "wf_array pa" and "i < length (pa_nodes pa)" and "j < length (pa_nodes pa)"
    and "n_root (pa_nodes pa ! i) = n_root (pa_nodes pa ! j)"
  shows "i = j"
  using assms indices_ok_distinct unfolding wf_array_def by blast

text \<open>The entries left once the roots of the first \<open>f\<close> nodes are removed.\<close>

definition kept_indices :: "usize \<Rightarrow> proto_array \<Rightarrow> (hash256, usize) hashmap" where
  "kept_indices f pa = fold (\<lambda>k m. hm_remove m k)
     (map (\<lambda>i. n_root (pa_nodes pa ! i)) [0 ..< f]) (pa_indices pa)"

lemma kept_indices_get:
  assumes wf: "wf_array pa" and f: "f \<le> length (pa_nodes pa)"
  shows "hm_ok (kept_indices f pa)"
    "hm_get (kept_indices f pa) r = Some i \<longleftrightarrow>
       f \<le> i \<and> i < length (pa_nodes pa) \<and> n_root (pa_nodes pa ! i) = r"
proof -
  let ?ns = "pa_nodes pa" and ?m = "pa_indices pa"
  have ok: "hm_ok ?m" using wf by (simp add: wf_array_def indices_ok_def)
  note get = hm.get_fold_rem [OF ok, of "map (\<lambda>i. n_root (?ns ! i)) [0 ..< f]"]
  show "hm_ok (kept_indices f pa)" using get by (simp add: kept_indices_def)
  have gone: "r \<in> set (map (\<lambda>i. n_root (?ns ! i)) [0 ..< f]) \<longleftrightarrow> i < f"
    if i: "i < length ?ns" "n_root (?ns ! i) = r"
  proof
    assume "r \<in> set (map (\<lambda>i. n_root (?ns ! i)) [0 ..< f])"
    then obtain j where "j < f" "n_root (?ns ! j) = r" by auto
    moreover have "i = j" using wf_root_inj [OF wf i(1), of j] calculation i f by simp
    ultimately show "i < f" by simp
  next
    assume "i < f"
    then show "r \<in> set (map (\<lambda>i. n_root (?ns ! i)) [0 ..< f])" using i by auto
  qed
  have "hm_get (kept_indices f pa) r = Some i \<longleftrightarrow>
      r \<notin> set (map (\<lambda>i. n_root (?ns ! i)) [0 ..< f]) \<and> hm_get ?m r = Some i"
    using get [of r] by (simp add: kept_indices_def)
  then show "hm_get (kept_indices f pa) r = Some i \<longleftrightarrow> f \<le> i \<and> i < length ?ns \<and> n_root (?ns ! i) = r"
    using gone wf_array_lookup [OF wf, of r i] by (meson not_le)
qed

lemma indices_ok_pruned:
  assumes wf: "wf_array pa" and f: "f \<le> length (pa_nodes pa)"
  shows "indices_ok (pruned_nodes f (pa_nodes pa))
    (map (\<lambda>(r, i). (r, i - f)) (kept_indices f pa))"
proof -
  let ?ns = "pa_nodes pa" and ?m = "map (\<lambda>(r, i). (r, i - f)) (kept_indices f pa)"
  have ok: "hm_ok ?m" using kept_indices_get(1) [OF assms] by (simp add: hm_ok_map_values)
  have get: "hm_get ?m r = Some i \<longleftrightarrow> i < length ?ns - f \<and> n_root (?ns ! (f + i)) = r" for r i
  proof -
    have "hm_get ?m r = Some i \<longleftrightarrow> hm_get (kept_indices f pa) r = Some (f + i)"
    proof (cases "hm_get (kept_indices f pa) r")
      case None
      then show ?thesis by (simp add: hm_get_map_values)
    next
      case (Some k)
      then have "f \<le> k" by (simp only: kept_indices_get(2) [OF assms])
      then show ?thesis using Some by (auto simp: hm_get_map_values)
    qed
    also have "\<dots> \<longleftrightarrow> i < length ?ns - f \<and> n_root (?ns ! (f + i)) = r"
      unfolding kept_indices_get(2) [OF assms] by (simp add: less_diff_conv add.commute)
    finally show ?thesis .
  qed
  let ?key = "\<lambda>i. n_root (?ns ! (f + i))"
  have "hm_len ?m = card (?key ` {..<length ?ns - f})"
  proof (rule hm.len_eq_card_image [OF ok])
    show "hm_get ?m k \<noteq> None \<longleftrightarrow> k \<in> ?key ` {..<length ?ns - f}" for k
      unfolding not_None_eq get by auto
  qed
  also have "\<dots> = length ?ns - f"
  proof -
    have "inj_on ?key {..<length ?ns - f}"
    proof (rule inj_onI)
      fix i j
      assume "i \<in> {..<length ?ns - f}" "j \<in> {..<length ?ns - f}" "?key i = ?key j"
      then show "i = j" using wf_root_inj [OF wf, of "f + i" "f + j"] by (simp add: less_diff_conv add.commute)
    qed
    then show ?thesis by (simp add: card_image)
  qed
  finally show ?thesis using ok get by (simp add: indices_ok_def)
qed

section \<open>Pruning\<close>

definition pruned_array :: "usize \<Rightarrow> proto_array \<Rightarrow> proto_array" where
  "pruned_array f pa = pa\<lparr>pa_nodes := pruned_nodes f (pa_nodes pa),
     pa_indices := map (\<lambda>(r, i). (r, i - f)) (kept_indices f pa)\<rparr>"

lemma pruned_array_nodes [simp]: "pa_nodes (pruned_array f pa) = pruned_nodes f (pa_nodes pa)"
  by (simp add: pruned_array_def)

lemma wf_pruned_array:
  assumes "wf_array pa" and "f \<le> length (pa_nodes pa)"
  shows "wf_array (pruned_array f pa)"
  using assms indices_ok_pruned [OF assms] wf_pruned_nodes [of "pa_nodes pa" f]
  by (simp add: wf_array_def pruned_array_def)

lemma maybe_prune_eq:
  assumes wf: "wf_array pa"
  shows "maybe_prune pa r =
    (case hm_get (pa_indices pa) r of
       None \<Rightarrow> Inl (FinalizedNodeUnknown r, pa)
     | Some f \<Rightarrow> Inr (if f < pa_prune_threshold pa then pa else pruned_array f pa))"
proof (cases "hm_get (pa_indices pa) r")
  case None
  then show ?thesis by (simp add: maybe_prune_def)
next
  case (Some f)
  let ?ns = "pa_nodes pa"
  have f: "f < length ?ns" using wf_array_lookup [OF wf] Some by blast
  have "prune_indices [0 ..< f] pa = Inr (pa\<lparr>pa_indices := kept_indices f pa\<rparr>)"
    using f by (subst prune_indices_ok) (simp_all add: kept_indices_def)
  moreover have "shift_indices f (kept_indices f pa) = Inr (map (\<lambda>(r, i). (r, i - f)) (kept_indices f pa))"
    using kept_indices_get [OF wf, of f] f by (intro shift_indices_ok) (simp add: hm_get_mem)
  moreover have "shift_nodes f (drop f ?ns) = Inr (pruned_nodes f ?ns)"
    using wf by (intro wf_nodes_shift_nodes) (simp add: wf_array_def)
  ultimately show ?thesis
    using Some by (simp add: maybe_prune_def pruned_array_def Let_def)
qed

lemma maybe_prune_wf:
  assumes wf: "wf_array pa"
  shows "after wf_array (maybe_prune pa r)"
proof (cases "hm_get (pa_indices pa) r")
  case None
  then show ?thesis using wf by (simp add: maybe_prune_eq)
next
  case (Some f)
  then have "f < length (pa_nodes pa)" using wf_array_lookup [OF wf] by blast
  then show ?thesis using wf Some by (simp add: maybe_prune_eq wf_pruned_array)
qed

lemma pruned_get_node:
  assumes wf: "wf_array pa" and f: "hm_get (pa_indices pa) r = Some f"
    and i: "hm_get (pa_indices pa) q = Some i"
  shows "get_node (pruned_array f pa) q =
    (if i < f then None else Some (shifted f (pa_nodes pa ! i)))"
proof -
  have fl: "f \<le> length (pa_nodes pa)" and i': "i < length (pa_nodes pa)" "n_root (pa_nodes pa ! i) = q"
    using wf_array_lookup [OF wf] f i by (simp_all add: less_imp_le)
  note wf' = wf_pruned_array [OF wf fl]
  show ?thesis
  proof (cases "i < f")
    case True
    have "n_root (pa_nodes pa ! (f + j)) \<noteq> q" if "j < length (pa_nodes pa) - f" for j
      using True i' that wf_root_inj [OF wf, of i "f + j"] by (auto simp: less_diff_conv add.commute)
    then have "get_node (pruned_array f pa) q \<noteq> Some n" for n
      unfolding wf_array_get_node [OF wf'] by fastforce
    then show ?thesis using True by (cases "get_node (pruned_array f pa) q") auto
  next
    case False
    then have "i - f < length (pa_nodes pa) - f" "f + (i - f) = i" using i' by simp_all
    then show ?thesis
      using False i' by (auto simp: wf_array_get_node [OF wf'] intro!: exI [of _ "i - f"])
  qed
qed

end
