(* ===== verification/Fork_Choice_System.thy ===== *)
theory Fork_Choice_System
  imports Proto_Prune Fork_Choice
begin

text \<open>
  \<^verbatim>\<open>ProtoArrayForkChoice\<close> as a transition system: one constructor of \<open>fc_op\<close> per public operation
  that changes the state, one step per call, and the states reachable from \<^verbatim>\<open>new\<close>. A call that
  returns an error is a step too, to the state it leaves behind. The array of every reachable state
  is well formed.
\<close>

section \<open>The operations\<close>

datatype fc_op =
    OpValidation hash256
  | OpInvalidation invalidation_operation
  | OpAttestation usize hash256 epoch slot bool
  | OpBlock block slot
  | OpFindHead checkpoint checkpoint justified_balances hash256 "u64 list" slot chain_spec
  | OpSetAllOptimistic chain_spec
  | OpPrune hash256
  | OpSetPruneThreshold usize
  | OpReload justified_balances

fun drop_head :: "(fc_error \<times> fork_choice) + hash256 \<times> fork_choice \<Rightarrow> (fc_error, fork_choice) outcome" where
  "drop_head (Inl x) = Inl x"
| "drop_head (Inr (_, fc)) = Inr fc"

fun fc_apply :: "eth_spec \<Rightarrow> fc_op \<Rightarrow> fork_choice \<Rightarrow> (fc_error, fork_choice) outcome" where
  "fc_apply E (OpValidation r) fc = process_execution_payload_validation fc r"
| "fc_apply E (OpInvalidation iop) fc = process_execution_payload_invalidation E fc iop"
| "fc_apply E (OpAttestation v r e s p) fc = Inr (process_attestation fc v r e s p)"
| "fc_apply E (OpBlock b s) fc = process_block E fc b s"
| "fc_apply E (OpFindHead jc fin bal boost eq s spec) fc =
     drop_head (fc_find_head E fc jc fin bal boost eq s spec)"
| "fc_apply E (OpSetAllOptimistic spec) fc = set_all_blocks_to_optimistic E fc spec"
| "fc_apply E (OpPrune r) fc = fc_maybe_prune fc r"
| "fc_apply E (OpSetPruneThreshold t) fc = Inr (set_prune_threshold fc t)"
| "fc_apply E (OpReload bal) fc = Inr (from_container (as_ssz_container fc) bal)"

definition fc_init :: "eth_spec \<Rightarrow> fork_choice \<Rightarrow> bool" where
  "fc_init E fc =
     (\<exists>current_slot slot state_root jc fin cur nxt status.
        fork_choice_new E current_slot slot state_root jc fin cur nxt status = Inr fc)"

section \<open>Gloas head selection leaves the array alone\<close>

fun after_head :: "(fork_choice \<Rightarrow> bool) \<Rightarrow> (fc_error \<times> fork_choice) + hash256 \<times> fork_choice \<Rightarrow> bool" where
  "after_head P (Inl (e, fc)) = P fc"
| "after_head P (Inr (h, fc)) = P fc"

lemma after_drop_head [simp]: "after P (drop_head r) = after_head P r"
proof (cases r)
  case (Inl x)
  then show ?thesis by (cases x) simp
next
  case (Inr x)
  then show ?thesis by (cases x) simp
qed

abbreviation fc_core :: "fork_choice \<Rightarrow> proto_array \<times> vote_tracker list \<times> justified_balances" where
  "fc_core fc \<equiv> (fc_proto_array fc, fc_votes fc, fc_balances fc)"

lemma find_head_gloas_loop_core:
  "after_head (\<lambda>fc'. fc_core fc' = fc_core fc)
     (find_head_gloas_loop fuel E fc boost_root apply_boost s spec head cache)"
proof (induction fuel arbitrary: fc head cache)
  case 0
  show ?case by simp
next
  case (Suc fuel)
  let ?cs = "collect_gloas_children (fc_proto_array fc) head (fc_gloas_filtered_buf fc)
    (Some (fc_gloas_children_buf fc))"
  let ?fc = "fc\<lparr>fc_gloas_children_result_buf := ?cs\<rparr>"
  have "fc_core ?fc = fc_core fc" by simp
  then have IH: "after_head (\<lambda>fc'. fc_core fc' = fc_core fc)
      (find_head_gloas_loop fuel E ?fc boost_root apply_boost s spec best cache')" for best cache'
    using Suc.IH [of ?fc best cache'] by (simp only:)
  obtain scored cache' where "score_children E ?fc boost_root apply_boost s spec ?cs [] = (scored, cache')"
    by fastforce
  then show ?case using IH by (auto simp: Let_def split: option.splits)
qed

lemma find_head_gloas_core:
  "after_head (\<lambda>fc'. fc_core fc' = fc_core fc) (find_head_gloas E fc jc boost_root eq s spec)"
proof -
  let ?fc = "(prepare_gloas E fc s)\<lparr>fc_gloas_ancestor_cache_buf := []\<rparr>"
  have "fc_core ?fc = fc_core fc" by (simp add: prepare_gloas_def)
  then show ?thesis
    unfolding find_head_gloas_def Let_def
    using find_head_gloas_loop_core [where fc = ?fc] by (simp only:)
qed

section \<open>The invariant\<close>

abbreviation fc_wf :: "fork_choice \<Rightarrow> bool" where
  "fc_wf fc \<equiv> wf_array (fc_proto_array fc)"

lemma after_mono: "after P r \<Longrightarrow> (\<And>s. P s \<Longrightarrow> Q s) \<Longrightarrow> after Q r"
  by (cases r) auto

lemma after_head_mono: "after_head P r \<Longrightarrow> (\<And>s. P s \<Longrightarrow> Q s) \<Longrightarrow> after_head Q r"
  by (cases r) auto

lemma lift_pa_wf: "after wf_array r \<Longrightarrow> after fc_wf (lift_pa f fc r)"
  by (cases r) (auto simp: lift_pa_def)

lemma maybe_update_balances_array [simp]:
  "fc_proto_array (maybe_update_balances fc b) = fc_proto_array fc"
  "fc_votes (maybe_update_balances fc b) = fc_votes fc"
  by (simp_all add: maybe_update_balances_def)

lemma set_checkpoints_wf [simp]: "wf_array (set_checkpoints jc fin pa) = wf_array pa"
  by (simp add: set_checkpoints_def)

lemma find_head_ffg_wf:
  assumes "fc_wf fc"
  shows "after_head fc_wf (fc_find_head_ffg E fc jc fin bal boost eq s spec)"
proof (cases "compute_deltas (pa_indices (fc_proto_array fc)) (fc_votes fc)
    (effective_balances (fc_balances fc)) (effective_balances bal) eq")
  case (Inl x)
  then show ?thesis using assms by (cases x) (simp add: fc_find_head_ffg_def)
next
  case (Inr x)
  obtain deltas votes where x: "x = (deltas, votes)" by (cases x)
  let ?r = "apply_score_changes E (fc_proto_array fc) deltas jc fin bal boost s spec"
  have "after wf_array ?r" using assms by (rule apply_score_changes_wf)
  moreover have "after_head fc_wf (bind_r (with_state q m) (\<lambda>h. Inr (h, q)))" if "fc_wf q" for q m
    using that by (cases m) simp_all
  ultimately show ?thesis
    using Inr x by (cases ?r) (auto simp: fc_find_head_ffg_def lift_pa_def Let_def)
qed

lemma find_head_wf:
  assumes "fc_wf fc"
  shows "after_head fc_wf (fc_find_head E fc jc fin bal boost eq s spec)"
proof (cases "is_gloas_slot E spec s")
  case True
  show ?thesis
    unfolding fc_find_head_def fc_find_head_gloas_def Let_def if_P [OF True]
    by (rule after_head_mono [OF find_head_gloas_core]) (simp add: assms)
next
  case False
  then show ?thesis using find_head_ffg_wf [OF assms] by (simp add: fc_find_head_def)
qed

lemma add_weight_to_chain_wf:
  assumes "wf_array pa"
  shows "after wf_array (add_weight_to_chain k pa i w)"
  using assms
proof (induction k arbitrary: pa i)
  case 0
  then show ?case by simp
next
  case (Suc k)
  show ?case
  proof (cases "i < length (pa_nodes pa)")
    case False
    then show ?thesis using Suc.prems by (simp add: nth_opt_def)
  next
    case True
    then show ?thesis
      using Suc.prems Suc.IH wf_set_weight [OF Suc.prems True]
      by (auto simp: nth_opt_def Let_def split: option.splits)
  qed
qed

lemma restore_invalid_node_wf:
  assumes "fc_wf fc" and i: "i < length (pa_nodes (fc_proto_array fc))"
    and node: "node = pa_nodes (fc_proto_array fc) ! i"
  shows "after wf_array (restore_invalid_node E spec fc i node h)"
proof -
  have "wf_array (set_node (fc_proto_array fc) i (node\<lparr>n_execution_status := Optimistic h\<rparr>))"
    unfolding node using assms by (intro wf_set_status)
  then show ?thesis
    by (auto simp: restore_invalid_node_def Let_def add_weight_to_chain_wf split: option.splits)
qed

lemma set_optimistic_loop_wf:
  assumes "fc_wf fc"
  shows "after fc_wf (set_optimistic_loop E spec k fc)"
  using assms
proof (induction k arbitrary: fc)
  case 0
  then show ?case by simp
next
  case (Suc i)
  let ?pa = "fc_proto_array fc" and ?node = "pa_nodes (fc_proto_array fc) ! i"
  show ?case
  proof (cases "i < length (pa_nodes ?pa)")
    case False
    then show ?thesis using Suc.prems by (simp add: nth_opt_def)
  next
    case True
    have "after wf_array (restore_invalid_node E spec fc i ?node h)" for h
      using restore_invalid_node_wf [OF Suc.prems True refl] .
    moreover have "wf_array (set_node ?pa i (?node\<lparr>n_execution_status := st\<rparr>))" for st
      using Suc.prems True by (rule wf_set_status)
    ultimately have "after wf_array (case n_execution_status ?node of
        Invalid h \<Rightarrow> restore_invalid_node E spec fc i ?node h
      | Valid h \<Rightarrow> Inr (set_node ?pa i (?node\<lparr>n_execution_status := Optimistic h\<rparr>))
      | Optimistic h \<Rightarrow> Inr (set_node ?pa i (?node\<lparr>n_execution_status := Optimistic h\<rparr>))
      | Irrelevant _ \<Rightarrow> Inr ?pa)" (is "after wf_array ?r")
      using Suc.prems by (simp split: execution_status.splits)
    then show ?thesis
      using True Suc.IH by (cases ?r) (auto simp: nth_opt_def)
  qed
qed

section \<open>Serialisation\<close>

lemma hm_insert_fresh: "k \<notin> fst ` set m \<Longrightarrow> hm_insert m k v = m @ [(k, v)]"
  by (induction m) (auto simp: hm_insert_def)

lemma rebuild_indices_from:
  assumes "distinct (map fst (acc @ m))"
  shows "fold (\<lambda>(k, v) m. hm_insert m k v) m acc = acc @ m"
  using assms
proof (induction m arbitrary: acc)
  case Nil
  then show ?case by simp
next
  case (Cons e m)
  obtain k v where e: "e = (k, v)" by (cases e)
  have "hm_insert acc k v = acc @ [(k, v)]"
    using Cons.prems e by (intro hm_insert_fresh) auto
  then show ?case using Cons.IH [of "acc @ [e]"] Cons.prems e by simp
qed

lemma reload_eq:
  assumes "hm_ok (pa_indices (fc_proto_array fc))"
  shows "from_container (as_ssz_container fc) bal = from_parts (fc_proto_array fc) (fc_votes fc) bal"
  using rebuild_indices_from [of "[]" "pa_indices (fc_proto_array fc)"] assms
  by (cases "fc_proto_array fc") (simp add: from_container_def as_ssz_container_def Let_def hm_ok_def)

section \<open>Every operation keeps the invariant\<close>

lemma fc_apply_wf:
  assumes "fc_wf fc"
  shows "after fc_wf (fc_apply E a fc)"
proof (cases a)
  case (OpReload bal)
  then show ?thesis
    using assms by (simp add: reload_eq wf_array_def indices_ok_def from_parts_def)
next
  case (OpBlock b s)
  then show ?thesis
    using assms on_block_wf [OF assms] by (simp add: process_block_def lift_pa_wf)
qed (use assms in \<open>simp_all add: process_execution_payload_validation_def
       process_execution_payload_invalidation_def process_attestation_def fc_maybe_prune_def
       set_prune_threshold_def set_all_blocks_to_optimistic_def lift_pa_wf validation_wf
       invalidation_wf maybe_prune_wf find_head_wf set_optimistic_loop_wf\<close>)

lemma empty_proto_array_wf: "wf_array (empty_proto_array jc fin)"
  by (simp add: empty_proto_array_def wf_array_def wf_nodes_def links_ok_def indices_ok_def hm.ok_emp
      hm_len_def)

lemma fc_init_wf:
  assumes "fc_init E fc"
  shows "fc_wf fc"
proof -
  obtain b jc fin s pa where "on_block E (empty_proto_array jc fin) b s = Inr pa"
    and fc: "fc = from_parts pa [] justified_balances_default"
    using assms by (auto simp: fc_init_def fork_choice_new_def result_simps)
  then have "wf_array pa" using on_block_wf [OF empty_proto_array_wf, of E jc fin b s] by simp
  then show ?thesis by (simp add: fc from_parts_def)
qed

interpretation fc_system: guarded_system "fc_init E" "fc_apply E" fc_wf for E
  by unfold_locales (simp_all add: fc_init_wf fc_apply_wf)

abbreviation fc_reachable :: "eth_spec \<Rightarrow> fork_choice \<Rightarrow> bool" where
  "fc_reachable E \<equiv> fc_system.reachable E"

text \<open>A run of the system, in executable form.\<close>

fun fc_run :: "eth_spec \<Rightarrow> fc_op list \<Rightarrow> fork_choice \<Rightarrow> fork_choice" where
  "fc_run E [] fc = fc"
| "fc_run E (a # as) fc = fc_run E as (case fc_apply E a fc of Inl (_, fc') \<Rightarrow> fc' | Inr fc' \<Rightarrow> fc')"

lemma fc_run_eq: "fc_run E as fc = fc_system.run E as fc"
  by (induction as arbitrary: fc) simp_all

end
