(* ===== verification/Gloas_Head.thy ===== *)
theory Gloas_Head
  imports Gloas_Fork_Choice Proto_Ghost
begin

text \<open>
  The optimisations of the Gloas head selection against plain definitions: the ancestor cache, the
  reused children index, the list of active votes with its 32-bit indices, the bottom-up viability
  pass and the saturating sums compute what the definitions of this theory say, and the loop follows
  the best virtual node at every level and always ends.
\<close>

section \<open>The ancestor cache\<close>

definition cache_ok :: "proto_array \<Rightarrow> ancestor_cache \<Rightarrow> bool" where
  "cache_ok pa cache =
     (\<forall>r s a. hm_get cache (r, s) = Some a \<longrightarrow> a = get_ancestor_gloas pa r s)"

lemma cache_ok_empty: "cache_ok pa []"
  by (simp add: cache_ok_def hm.get_emp)

lemma cached_vote:
  assumes "cache_ok pa cache"
  shows "fst (is_supporting_vote_gloas_cached pa node vote s cache) =
      is_supporting_vote_gloas_at_slot pa node vote s"
    "cache_ok pa (snd (is_supporting_vote_gloas_cached pa node vote s cache))"
  using assms
  by (auto simp: is_supporting_vote_gloas_cached_def is_supporting_vote_gloas_at_slot_def cache_ok_def
      Let_def hm.get_ins split: option.splits)

section \<open>Sums that saturate\<close>

abbreviation sat64 :: "nat \<Rightarrow> nat" where
  "sat64 n \<equiv> min n (2 ^ 64 - 1)"

lemma sat64_add: "sat64 (sat64 a + b) = sat64 (a + b)"
  by (simp add: min_def)

fun supporting_sum ::
    "proto_array \<Rightarrow> vote_tracker list \<Rightarrow> gloas_node \<Rightarrow> slot \<Rightarrow> (u32 \<times> u64) list \<Rightarrow> nat" where
  "supporting_sum pa votes node s [] = 0"
| "supporting_sum pa votes node s ((i, b) # av) =
     (if is_supporting_vote_gloas_at_slot pa node (votes ! unat i) s then unat b else 0)
     + supporting_sum pa votes node s av"

lemma sum_supporting_eq:
  assumes "cache_ok pa cache"
  shows "unat (fst (sum_supporting pa votes node s av w cache)) =
      sat64 (unat w + supporting_sum pa votes node s av)
    \<and> cache_ok pa (snd (sum_supporting pa votes node s av w cache))"
  using assms
proof (induction av arbitrary: w cache)
  case Nil
  then show ?case using unat_u64_less [of w] by (simp add: min_def)
next
  case (Cons a av)
  obtain i b where a: "a = (i, b)" by (cases a)
  let ?r = "is_supporting_vote_gloas_cached pa node (votes ! unat i) s cache"
  note r = cached_vote [OF Cons.prems, of node "votes ! unat i" s]
  have "unat (fst (sum_supporting pa votes node s av w (snd ?r))) =
      sat64 (unat w + supporting_sum pa votes node s av)
    \<and> cache_ok pa (snd (sum_supporting pa votes node s av w (snd ?r)))" for w
    by (rule Cons.IH [OF r(2)])
  then show ?case
    using r(1) sat64_add [of "unat w + unat b"]
    by (simp add: a split_beta unat_saturating_add add.assoc)
qed

section \<open>The weight of a virtual node\<close>

definition gloas_support ::
    "proto_array \<Rightarrow> vote_tracker list \<Rightarrow> u64 list \<Rightarrow> gloas_node \<Rightarrow> slot \<Rightarrow> nat" where
  "gloas_support pa votes balances node s =
     (\<Sum>i < length votes.
        if vt_current_root (votes ! i) \<noteq> 0
          \<and> is_supporting_vote_gloas_at_slot pa node (votes ! i) s
        then unat (nth_or balances i 0) else 0)"

definition gloas_boost ::
    "eth_spec \<Rightarrow> fork_choice \<Rightarrow> gloas_node \<Rightarrow> hash256 \<Rightarrow> bool \<Rightarrow> slot \<Rightarrow> chain_spec \<Rightarrow> slot \<Rightarrow> nat" where
  "gloas_boost E fc node boost_root apply_boost current_slot spec s =
     (if boost_root \<noteq> 0 \<and> apply_boost
        \<and> is_supporting_vote_gloas_at_slot (fc_proto_array fc) node
            (boost_vote boost_root current_slot) s
      then (case Option.bind (proposer_score_boost spec)
                   (calculate_committee_fraction E (fc_balances fc)) of
              Some score \<Rightarrow> unat score
            | None \<Rightarrow> 0)
      else 0)"

definition gloas_weight ::
    "eth_spec \<Rightarrow> fork_choice \<Rightarrow> hash256 \<Rightarrow> bool \<Rightarrow> slot \<Rightarrow> chain_spec \<Rightarrow> gloas_node \<Rightarrow> nat" where
  "gloas_weight E fc boost_root apply_boost current_slot spec node =
     (case get_node (fc_proto_array fc) (g_root node) of
        None \<Rightarrow> 0
      | Some n \<Rightarrow>
          if g_payload_status node \<noteq> Pending \<and> saturating_add (n_slot n) 1 = current_slot then 0
          else sat64 (gloas_support (fc_proto_array fc) (fc_votes fc)
                        (effective_balances (fc_balances fc)) node (n_slot n)
                      + gloas_boost E fc node boost_root apply_boost current_slot spec (n_slot n)))"

text \<open>The active votes are those of the definition while a validator index fits 32 bits.\<close>

lemma unat_of_nat_u32: "k < 2 ^ 32 \<Longrightarrow> unat (of_nat k :: u32) = k"
  by (simp add: unsigned_of_nat take_bit_nat_eq_self)

lemma supporting_sum_active:
  assumes "length pre + length vs \<le> 2 ^ 32"
  shows "supporting_sum pa (pre @ vs) node s (active_votes_from (length pre) balances vs) =
    (\<Sum>i \<in> {length pre ..< length pre + length vs}.
        if vt_current_root ((pre @ vs) ! i) \<noteq> 0
          \<and> is_supporting_vote_gloas_at_slot pa node ((pre @ vs) ! i) s
        then unat (nth_or balances i 0) else 0)"
  using assms
proof (induction vs arbitrary: pre)
  case Nil
  show ?case by simp
next
  case (Cons v vs)
  let ?f = "\<lambda>i. if vt_current_root ((pre @ v # vs) ! i) \<noteq> 0
      \<and> is_supporting_vote_gloas_at_slot pa node ((pre @ v # vs) ! i) s
    then unat (nth_or balances i 0) else 0"
  have IH: "supporting_sum pa (pre @ v # vs) node s (active_votes_from (Suc (length pre)) balances vs) =
      sum ?f {Suc (length pre) ..< length pre + length (v # vs)}"
    using Cons.IH [of "pre @ [v]"] Cons.prems by simp
  have "unat (of_nat (length pre) :: u32) = length pre"
    using Cons.prems by (intro unat_of_nat_u32) simp
  then have "supporting_sum pa (pre @ v # vs) node s (active_votes_from (length pre) balances (v # vs)) =
      ?f (length pre)
      + supporting_sum pa (pre @ v # vs) node s (active_votes_from (Suc (length pre)) balances vs)"
    by (simp add: Let_def)
  also have "\<dots> = sum ?f {length pre ..< length pre + length (v # vs)}"
    unfolding IH by (rule sum.atLeast_Suc_lessThan [symmetric]) simp
  finally show ?case .
qed

lemma supporting_sum_gloas_support:
  assumes "length votes \<le> 2 ^ 32"
  shows "supporting_sum pa votes node s (active_votes_from 0 balances votes) =
    gloas_support pa votes balances node s"
  using supporting_sum_active [of "[]" votes pa node s balances] assms
  by (simp add: gloas_support_def atLeast0LessThan)

lemma get_gloas_weight_eq:
  fixes E fc node boost_root apply_boost current_slot spec cache av
  assumes cache: "cache_ok (fc_proto_array fc) cache" and len: "length (fc_votes fc) \<le> 2 ^ 32"
    and av: "av = active_votes_from 0 (effective_balances (fc_balances fc)) (fc_votes fc)"
  defines "r \<equiv> get_gloas_weight E fc node boost_root apply_boost current_slot spec cache av"
  shows "unat (fst r) = gloas_weight E fc boost_root apply_boost current_slot spec node"
    "cache_ok (fc_proto_array fc) (snd r)"
proof -
  let ?pa = "fc_proto_array fc"
  have sum: "unat (fst (sum_supporting ?pa (fc_votes fc) node s av 0 cache)) =
      sat64 (gloas_support ?pa (fc_votes fc) (effective_balances (fc_balances fc)) node s)" for s
    using sum_supporting_eq [OF cache, of "fc_votes fc" node s av 0]
    by (simp add: av supporting_sum_gloas_support [OF len])
  show "cache_ok ?pa (snd r)"
    using cache sum_supporting_eq [OF cache]
    by (simp add: r_def get_gloas_weight_def Let_def split_beta split: option.splits)
  show "unat (fst r) = gloas_weight E fc boost_root apply_boost current_slot spec node"
    unfolding r_def get_gloas_weight_def gloas_weight_def gloas_boost_def Let_def
    using sum sat64_add
    by (auto simp: split_beta unat_saturating_add split: option.splits Option.bind_splits)
qed

section \<open>The children index\<close>

definition children_of :: "(usize, usize list) hashmap \<Rightarrow> usize \<Rightarrow> usize list" where
  "children_of m p = (case hm_get m p of Some cs \<Rightarrow> cs | None \<Rightarrow> [])"

text \<open>Induction over the suffixes of a list, for the loops that count along.\<close>

lemma suffix_induct [case_names stop step]:
  assumes "\<And>i. n \<le> i \<Longrightarrow> P i" and "\<And>i. i < n \<Longrightarrow> P (Suc i) \<Longrightarrow> P i"
  shows "P i"
proof (induction "n - i" arbitrary: i)
  case 0
  then show ?case using assms(1) by simp
next
  case (Suc k)
  then show ?case using assms(2) [of i] Suc.hyps(1) [of "Suc i"] by simp
qed

lemma children_of_add:
  "children_of (add_children i (drop i ns) m) p =
     children_of m p @ filter (\<lambda>j. n_parent (ns ! j) = Some p) [i ..< length ns]"
proof (induction i arbitrary: m rule: suffix_induct [where n = "length ns"])
  case (stop i)
  then show ?case by simp
next
  case (step i)
  then show ?case
    by (auto simp: Cons_nth_drop_Suc [symmetric] upt_conv_Cons children_of_def hm.get_ins split: option.splits)
qed

lemma children_of_build:
  "children_of (build_children_index pa buf) p =
     filter (\<lambda>j. n_parent (pa_nodes pa ! j) = Some p) [0 ..< length (pa_nodes pa)]"
proof -
  have "hm_get (map (\<lambda>(k, _). (k, [])) buf) p = map_option (\<lambda>_. [] :: usize list) (hm_get buf p)"
    by (simp add: hm_get_def map_of_map)
  then have "children_of (map (\<lambda>(k, _). (k, [])) buf) p = []"
    by (cases "hm_get buf p") (simp_all add: children_of_def)
  then show ?thesis
    using children_of_add [of 0 "pa_nodes pa" "map (\<lambda>(k, _). (k, [])) buf" p]
    by (simp add: build_children_index_def)
qed

text \<open>The virtual children of a node.\<close>

definition gloas_children :: "proto_array \<Rightarrow> (usize \<Rightarrow> bool) \<Rightarrow> gloas_node \<Rightarrow> gloas_node list" where
  "gloas_children pa kept node =
     (if g_payload_status node = Pending then
        \<lparr>g_root = g_root node, g_payload_status = Empty\<rparr>
        # (case get_node pa (g_root node) of
             Some n \<Rightarrow> if n_envelope_received n
                       then [\<lparr>g_root = g_root node, g_payload_status = Full\<rparr>] else []
           | None \<Rightarrow> [])
      else
        case hm_get (pa_indices pa) (g_root node) of
          None \<Rightarrow> []
        | Some p \<Rightarrow>
            map (\<lambda>c. \<lparr>g_root = n_root (pa_nodes pa ! c), g_payload_status = Pending\<rparr>)
              (filter (\<lambda>c. n_parent (pa_nodes pa ! c) = Some p \<and> kept c
                           \<and> parent_payload_status_of (pa_nodes pa ! c) (pa_nodes pa ! p)
                               = g_payload_status node)
                 [0 ..< length (pa_nodes pa)]))"

lemma children_from_index_eq:
  assumes "\<And>c. c \<in> set cs \<Longrightarrow> c < length (pa_nodes pa)"
  shows "children_from_index pa parent status filtered cs =
    map (\<lambda>c. \<lparr>g_root = n_root (pa_nodes pa ! c), g_payload_status = Pending\<rparr>)
      (filter (\<lambda>c. nth_or filtered c False
                   \<and> parent_payload_status_of (pa_nodes pa ! c) parent = status) cs)"
  using assms by (induction cs) (simp_all add: nth_opt_def)

lemma children_from_scan_eq:
  "children_from_scan p parent status filtered i (drop i ns) =
     map (\<lambda>c. \<lparr>g_root = n_root (ns ! c), g_payload_status = Pending\<rparr>)
       (filter (\<lambda>c. n_parent (ns ! c) = Some p \<and> nth_or filtered c False
                    \<and> parent_payload_status_of (ns ! c) parent = status) [i ..< length ns])"
proof (induction i rule: suffix_induct [where n = "length ns"])
  case (stop i)
  then show ?case by simp
next
  case (step i)
  then show ?case by (simp add: Cons_nth_drop_Suc [symmetric] upt_conv_Cons)
qed

lemma collect_from_index:
  assumes "wf_array pa"
  shows "collect_gloas_children pa node filtered (Some (build_children_index pa buf)) =
    gloas_children pa (\<lambda>c. nth_or filtered c False) node"
proof (cases "g_payload_status node = Pending")
  case True
  then show ?thesis by (simp add: collect_gloas_children_def gloas_children_def)
next
  case status: False
  show ?thesis
  proof (cases "hm_get (pa_indices pa) (g_root node)")
    case None
    then show ?thesis using status by (simp add: collect_gloas_children_def gloas_children_def)
  next
    case (Some p)
    then have p: "p < length (pa_nodes pa)" using wf_array_lookup [OF assms] by blast
    let ?idx = "build_children_index pa buf"
    have "(case hm_get ?idx p of
        Some cs \<Rightarrow> children_from_index pa (pa_nodes pa ! p) (g_payload_status node) filtered cs
      | None \<Rightarrow> []) =
        children_from_index pa (pa_nodes pa ! p) (g_payload_status node) filtered (children_of ?idx p)"
      by (simp add: children_of_def split: option.splits)
    also have "\<dots> = gloas_children pa (\<lambda>c. nth_or filtered c False) node"
      using status Some unfolding children_of_build
      by (subst children_from_index_eq) (auto simp: gloas_children_def intro!: filter_cong)
    finally show ?thesis
      using status Some p by (simp add: collect_gloas_children_def nth_opt_def)
  qed
qed

lemma collect_from_scan:
  assumes "wf_array pa"
  shows "collect_gloas_children pa node filtered None =
    gloas_children pa (\<lambda>c. nth_or filtered c False) node"
proof (cases "hm_get (pa_indices pa) (g_root node)")
  case None
  then show ?thesis by (simp add: collect_gloas_children_def gloas_children_def)
next
  case (Some p)
  then have "p < length (pa_nodes pa)" using wf_array_lookup [OF assms] by blast
  then show ?thesis
    using Some children_from_scan_eq [of p "pa_nodes pa ! p" "g_payload_status node" filtered 0 "pa_nodes pa"]
    by (simp add: collect_gloas_children_def gloas_children_def nth_opt_def)
qed

section \<open>The viability pass\<close>

lemma propagate_filtered_inv:
  assumes wf: "wf_array pa" and k: "k \<le> length (pa_nodes pa)"
    and len: "length f = length (pa_nodes pa)"
    and f: "\<And>j. j < length (pa_nodes pa) \<Longrightarrow> f ! j \<longleftrightarrow>
      viable E s pa j \<or> (\<exists>c \<ge> k. parent_idx (pa_nodes pa) c = Some j \<and> reaches E s pa c)"
  shows "length (propagate_filtered (pa_nodes pa) k f) = length (pa_nodes pa)
    \<and> (\<forall>j < length (pa_nodes pa). propagate_filtered (pa_nodes pa) k f ! j \<longleftrightarrow> reaches E s pa j)"
  using k len f
proof (induction k arbitrary: f)
  case 0
  then show ?case using reaches_cases [of _ pa E s] by auto
next
  case (Suc i)
  let ?ns = "pa_nodes pa"
  have i: "i < length ?ns" using Suc.prems(1) by simp
  have child: "(\<exists>c \<ge> Suc i. parent_idx ?ns c = Some i \<and> reaches E s pa c) \<longleftrightarrow>
      (\<exists>c. parent_idx ?ns c = Some i \<and> reaches E s pa c)"
    using parent_idx_less [of ?ns _ i] by (meson Suc_leI)
  have fi: "f ! i \<longleftrightarrow> reaches E s pa i"
    using Suc.prems(3) [OF i] reaches_cases [OF i, of E s] child by blast
  have par: "parent_idx ?ns i = n_parent (?ns ! i)" using wf_array_parent_idx [OF wf i] .
  let ?f = "if f ! i then (case n_parent (?ns ! i) of
      Some p \<Rightarrow> if p < length f then f[p := True] else f | None \<Rightarrow> f) else f"
  have step: "(\<exists>c \<ge> i. parent_idx ?ns c = Some j \<and> reaches E s pa c) \<longleftrightarrow>
      (\<exists>c \<ge> Suc i. parent_idx ?ns c = Some j \<and> reaches E s pa c)
      \<or> n_parent (?ns ! i) = Some j \<and> f ! i" for j
    using fi par by (metis Suc_leD le_antisym not_less_eq_eq order_refl)
  have nth: "?f ! j \<longleftrightarrow> f ! j \<or> n_parent (?ns ! i) = Some j \<and> f ! i" if "j < length ?ns" for j
    using that Suc.prems(2) by (auto simp: nth_list_update split: option.splits)
  have "?f ! j \<longleftrightarrow> viable E s pa j \<or> (\<exists>c \<ge> i. parent_idx ?ns c = Some j \<and> reaches E s pa c)"
    if "j < length ?ns" for j
    using nth [OF that] Suc.prems(3) [OF that] step [of j] by blast
  moreover have "length ?f = length ?ns" using Suc.prems(2) by (simp split: option.splits)
  ultimately show ?case using Suc.IH [of ?f] i by simp
qed

lemma compute_filtered_eq:
  assumes "wf_array pa"
  shows "length (compute_filtered_nodes E pa s) = length (pa_nodes pa)"
    "i < length (pa_nodes pa) \<Longrightarrow> compute_filtered_nodes E pa s ! i \<longleftrightarrow> reaches E s pa i"
proof -
  let ?f = "map (\<lambda>n. node_is_viable_for_head E pa n s) (pa_nodes pa)"
  have "?f ! j \<longleftrightarrow> viable E s pa j \<or>
      (\<exists>c \<ge> length (pa_nodes pa). parent_idx (pa_nodes pa) c = Some j \<and> reaches E s pa c)"
    if "j < length (pa_nodes pa)" for j
    using that parent_idx_in_range(1) [of "pa_nodes pa" _ j] by (fastforce simp: viable_def)
  then have "length (compute_filtered_nodes E pa s) = length (pa_nodes pa)
      \<and> (\<forall>j < length (pa_nodes pa). compute_filtered_nodes E pa s ! j \<longleftrightarrow> reaches E s pa j)"
    unfolding compute_filtered_nodes_def by (intro propagate_filtered_inv assms) simp_all
  then show "length (compute_filtered_nodes E pa s) = length (pa_nodes pa)"
    "i < length (pa_nodes pa) \<Longrightarrow> compute_filtered_nodes E pa s ! i \<longleftrightarrow> reaches E s pa i"
    by simp_all
qed

end
