(* ===== verification/Gloas_Walk.thy ===== *)
theory Gloas_Walk
  imports Gloas_Head
begin

text \<open>
  The loop of \<^verbatim>\<open>find_head_gloas\<close> as a walk over virtual nodes: \<open>gloas_step\<close> goes from a node to its
  best child, \<open>find_head_gloas\<close> returns the end of that walk, and the walk is unique.
\<close>

section \<open>Maxima\<close>

text \<open>What \<^const>\<open>max_by\<close> needs of the comparison it is given.\<close>

locale strict_preference =
  fixes gt :: "'a \<Rightarrow> 'a \<Rightarrow> bool"
  assumes asym: "gt x y \<Longrightarrow> \<not> gt y x"
    and neg_trans: "\<not> gt x y \<Longrightarrow> \<not> gt y z \<Longrightarrow> \<not> gt x z"
begin

lemma irrefl: "\<not> gt x x"
  using asym by blast

lemma max_by_from_maximal:
  "max_by_from gt x xs \<in> set (x # xs) \<and> (\<forall>y \<in> set (x # xs). \<not> gt y (max_by_from gt x xs))"
proof (induction xs arbitrary: x)
  case Nil
  show ?case by (simp add: irrefl)
next
  case (Cons y ys)
  let ?b = "if gt x y then x else y"
  have IH: "max_by_from gt ?b ys \<in> set (?b # ys)"
    "\<And>z. z \<in> set (?b # ys) \<Longrightarrow> \<not> gt z (max_by_from gt ?b ys)"
    using Cons.IH [of ?b] by blast+
  have "\<not> gt x ?b" "\<not> gt y ?b" using irrefl asym [of x y] by simp_all
  moreover have "\<not> gt ?b (max_by_from gt ?b ys)" using IH(2) by simp
  ultimately have "\<not> gt x (max_by_from gt ?b ys)" "\<not> gt y (max_by_from gt ?b ys)"
    using neg_trans by blast+
  then show ?case using IH by (cases "gt x y") auto
qed

lemma max_by_maximal:
  assumes "xs \<noteq> []"
  obtains m where "max_by gt xs = Some m" "m \<in> set xs" "\<And>y. y \<in> set xs \<Longrightarrow> \<not> gt y m"
  using assms max_by_from_maximal by (cases xs) auto

end

interpretation scored: strict_preference scored_greater
proof
  show "\<not> scored_greater y x" if "scored_greater x y" for x y
    using that by (auto simp: scored_greater_def split: prod.splits)
  show "\<not> scored_greater x z" if "\<not> scored_greater x y" "\<not> scored_greater y z" for x y z
    using that by (auto simp: scored_greater_def split: prod.splits)
qed

section \<open>The walk\<close>

definition outranks ::
    "eth_spec \<Rightarrow> fork_choice \<Rightarrow> hash256 \<Rightarrow> bool \<Rightarrow> slot \<Rightarrow> chain_spec
     \<Rightarrow> gloas_node \<Rightarrow> gloas_node \<Rightarrow> bool" where
  "outranks E fc boost_root apply_boost s spec a b =
     (let w = gloas_weight E fc boost_root apply_boost s spec;
          tie = (\<lambda>n. get_payload_tiebreaker (fc_proto_array fc) n s (ptc_size spec div 2) boost_root)
      in w b < w a \<or> w a = w b \<and> (g_root b < g_root a \<or> g_root a = g_root b \<and> tie b < tie a))"

abbreviation kept_children :: "eth_spec \<Rightarrow> fork_choice \<Rightarrow> slot \<Rightarrow> gloas_node \<Rightarrow> gloas_node list" where
  "kept_children E fc s \<equiv> gloas_children (fc_proto_array fc) (reaches E s (fc_proto_array fc))"

inductive gloas_step ::
    "eth_spec \<Rightarrow> fork_choice \<Rightarrow> hash256 \<Rightarrow> bool \<Rightarrow> slot \<Rightarrow> chain_spec
     \<Rightarrow> gloas_node \<Rightarrow> gloas_node \<Rightarrow> bool"
  for E fc boost_root apply_boost s spec where
  best: "c \<in> set (kept_children E fc s n) \<Longrightarrow>
    (\<And>c'. c' \<in> set (kept_children E fc s n) \<Longrightarrow> \<not> outranks E fc boost_root apply_boost s spec c' c) \<Longrightarrow>
    gloas_step E fc boost_root apply_boost s spec n c"

inductive_simps gloas_step_iff: "gloas_step E fc boost_root apply_boost s spec n c"

section \<open>Buffers\<close>

text \<open>The buffers hold what \<^verbatim>\<open>find_head_gloas\<close> fills in before its loop.\<close>

definition prepared :: "eth_spec \<Rightarrow> slot \<Rightarrow> fork_choice \<Rightarrow> bool" where
  "prepared E s fc =
     (wf_array (fc_proto_array fc) \<and> length (fc_votes fc) \<le> 2 ^ 32
      \<and> fc_gloas_filtered_buf fc = compute_filtered_nodes E (fc_proto_array fc) s
      \<and> (\<exists>buf. fc_gloas_children_buf fc = build_children_index (fc_proto_array fc) buf)
      \<and> fc_gloas_active_votes_buf fc
          = active_votes_from 0 (effective_balances (fc_balances fc)) (fc_votes fc))"

lemma prepared_prepare_gloas:
  "wf_array (fc_proto_array fc) \<Longrightarrow> length (fc_votes fc) \<le> 2 ^ 32 \<Longrightarrow>
     prepared E s ((prepare_gloas E fc s)\<lparr>fc_gloas_ancestor_cache_buf := []\<rparr>)"
  by (auto simp: prepared_def prepare_gloas_def)

lemma gloas_children_cong:
  assumes "\<And>c. c < length (pa_nodes pa) \<Longrightarrow> f c = g c"
  shows "gloas_children pa f node = gloas_children pa g node"
  using assms
  by (auto simp: gloas_children_def intro!: arg_cong [where f = "map _"] filter_cong split: option.splits)

lemma prepared_children:
  assumes "prepared E s fc"
  shows "collect_gloas_children (fc_proto_array fc) node (fc_gloas_filtered_buf fc)
      (Some (fc_gloas_children_buf fc)) = kept_children E fc s node"
proof -
  let ?pa = "fc_proto_array fc"
  obtain buf where wf: "wf_array ?pa" and buf: "fc_gloas_children_buf fc = build_children_index ?pa buf"
    and flt: "fc_gloas_filtered_buf fc = compute_filtered_nodes E ?pa s"
    using assms by (auto simp: prepared_def)
  have "nth_or (compute_filtered_nodes E ?pa s) c False = reaches E s ?pa c"
    if "c < length (pa_nodes ?pa)" for c
    using that compute_filtered_eq [OF wf] by (simp add: nth_or_def)
  then show ?thesis
    unfolding buf flt collect_from_index [OF wf] by (rule gloas_children_cong)
qed

lemma score_children_eq:
  assumes fc: "prepared E s fc" and cache: "cache_ok (fc_proto_array fc) cache"
  shows "\<exists>ws. fst (score_children E fc boost_root apply_boost s spec cs cache) =
      map (\<lambda>c. (c, ws c, get_payload_tiebreaker (fc_proto_array fc) c s (ptc_size spec div 2) boost_root)) cs
    \<and> (\<forall>c. unat (ws c) = gloas_weight E fc boost_root apply_boost s spec c)"
proof -
  have av: "fc_gloas_active_votes_buf fc = active_votes_from 0 (effective_balances (fc_balances fc))
      (fc_votes fc)" and len: "length (fc_votes fc) \<le> 2 ^ 32"
    using fc by (simp_all add: prepared_def)
  note w = get_gloas_weight_eq [OF _ len av, of _ E _ boost_root apply_boost s spec]
  define ws where "ws c = fst (get_gloas_weight E fc c boost_root apply_boost s spec []
      (fc_gloas_active_votes_buf fc))" for c
  have ws: "unat (ws c) = gloas_weight E fc boost_root apply_boost s spec c" for c
    using w(1) [OF cache_ok_empty] by (simp add: ws_def)
  have same: "fst (get_gloas_weight E fc c boost_root apply_boost s spec cache'
      (fc_gloas_active_votes_buf fc)) = ws c" if "cache_ok (fc_proto_array fc) cache'" for c cache'
    using w(1) [OF that, of c] ws [of c] by (simp add: word_unat_eq_iff)
  have "fst (score_children E fc boost_root apply_boost s spec cs cache) =
      map (\<lambda>c. (c, ws c, get_payload_tiebreaker (fc_proto_array fc) c s (ptc_size spec div 2) boost_root)) cs"
    using cache
  proof (induction cs arbitrary: cache)
    case Nil
    show ?case by simp
  next
    case (Cons c cs)
    show ?case
      using Cons.IH [OF w(2) [OF Cons.prems, of c]] same [OF Cons.prems, of c]
      by (simp add: split_beta)
  qed
  then show ?thesis using ws by blast
qed

lemma prepared_best_child:
  assumes fc: "prepared E s fc" and cs: "kept_children E fc s head \<noteq> []"
  obtains best w t where
    "max_by scored_greater (fst (score_children E fc boost_root apply_boost s spec
       (kept_children E fc s head) [])) = Some (best, w, t)"
    "gloas_step E fc boost_root apply_boost s spec head best"
proof -
  let ?cs = "kept_children E fc s head"
  let ?tie = "\<lambda>c. get_payload_tiebreaker (fc_proto_array fc) c s (ptc_size spec div 2) boost_root"
  obtain ws where scored: "fst (score_children E fc boost_root apply_boost s spec ?cs []) =
      map (\<lambda>c. (c, ws c, ?tie c)) ?cs"
    and ws: "\<And>c. unat (ws c) = gloas_weight E fc boost_root apply_boost s spec c"
    using score_children_eq [OF fc cache_ok_empty, of boost_root apply_boost spec ?cs] by blast
  have greater: "scored_greater (a, ws a, ?tie a) (b, ws b, ?tie b) \<longleftrightarrow>
      outranks E fc boost_root apply_boost s spec a b" for a b
    by (simp add: scored_greater_def outranks_def Let_def ws [symmetric] word_less_nat_alt word_unat_eq_iff)
  have "map (\<lambda>c. (c, ws c, ?tie c)) ?cs \<noteq> []" using cs by simp
  then obtain m where m: "max_by scored_greater (map (\<lambda>c. (c, ws c, ?tie c)) ?cs) = Some m"
    "m \<in> set (map (\<lambda>c. (c, ws c, ?tie c)) ?cs)"
    "\<And>y. y \<in> set (map (\<lambda>c. (c, ws c, ?tie c)) ?cs) \<Longrightarrow> \<not> scored_greater y m"
    using scored.max_by_maximal by blast
  obtain best where best: "best \<in> set ?cs" "m = (best, ws best, ?tie best)" using m(2) by auto
  have "\<not> outranks E fc boost_root apply_boost s spec c best" if "c \<in> set ?cs" for c
    using m(3) [of "(c, ws c, ?tie c)"] that best(2) greater by auto
  then have "gloas_step E fc boost_root apply_boost s spec head best"
    using best(1) by (intro gloas_step.best)
  then show ?thesis using that m(1) best(2) scored by simp
qed

section \<open>The loop ends\<close>

definition steps_left :: "proto_array \<Rightarrow> gloas_node \<Rightarrow> nat" where
  "steps_left pa node =
     (case hm_get (pa_indices pa) (g_root node) of
        Some i \<Rightarrow> 2 * (length (pa_nodes pa) - i) + (if g_payload_status node = Pending then 1 else 0)
      | None \<Rightarrow> if g_payload_status node = Pending then 1 else 0)"

lemma steps_left_bound: "steps_left pa node \<le> 2 * length (pa_nodes pa) + 1"
  by (auto simp: steps_left_def split: option.splits)

lemma steps_left_child:
  assumes wf: "wf_array pa" and c: "c \<in> set (gloas_children pa f node)"
  shows "steps_left pa c < steps_left pa node"
proof (cases "g_payload_status node = Pending")
  case True
  then have "g_root c = g_root node" "g_payload_status c \<noteq> Pending"
    using c by (auto simp: gloas_children_def split: option.splits if_splits)
  then show ?thesis using True by (simp add: steps_left_def split: option.splits)
next
  case False
  then obtain p where p: "hm_get (pa_indices pa) (g_root node) = Some p"
    using c by (cases "hm_get (pa_indices pa) (g_root node)") (simp_all add: gloas_children_def)
  then obtain i where i: "i < length (pa_nodes pa)" "n_parent (pa_nodes pa ! i) = Some p"
      "c = \<lparr>g_root = n_root (pa_nodes pa ! i), g_payload_status = Pending\<rparr>"
    using c False by (auto simp: gloas_children_def)
  have "p < i" using wf_array_parent_idx [OF wf i(1)] i(2) parent_idx_less by metis
  moreover have "hm_get (pa_indices pa) (g_root c) = Some i"
    using wf_array_lookup [OF wf] i by simp
  ultimately show ?thesis using False p i by (simp add: steps_left_def)
qed

text \<open>What a finished loop has found.\<close>

definition walk_result ::
    "eth_spec \<Rightarrow> fork_choice \<Rightarrow> hash256 \<Rightarrow> bool \<Rightarrow> slot \<Rightarrow> chain_spec \<Rightarrow> gloas_node
     \<Rightarrow> (fc_error \<times> fork_choice) + hash256 \<times> fork_choice \<Rightarrow> bool" where
  "walk_result E fc boost_root apply_boost s spec start r =
     (\<exists>head fc'. r = Inr (g_root head, fc')
        \<and> (gloas_step E fc boost_root apply_boost s spec)\<^sup>*\<^sup>* start head
        \<and> kept_children E fc s head = []
        \<and> fc_gloas_head_payload_status fc' = Some (payload_status_u8 (g_payload_status head)))"

lemma gloas_weight_core:
  assumes "fc_proto_array fc' = fc_proto_array fc" and "fc_votes fc' = fc_votes fc"
    and "fc_balances fc' = fc_balances fc"
  shows "gloas_weight E fc' = gloas_weight E fc"
  by (intro ext) (simp only: gloas_weight_def gloas_boost_def assms)

lemma gloas_step_core:
  assumes "fc_proto_array fc' = fc_proto_array fc" and "fc_votes fc' = fc_votes fc"
    and "fc_balances fc' = fc_balances fc"
  shows "gloas_step E fc' = gloas_step E fc"
  by (intro ext) (simp only: gloas_step_iff outranks_def gloas_weight_core [OF assms] assms)

lemma walk_result_core:
  assumes "fc_proto_array fc' = fc_proto_array fc" and "fc_votes fc' = fc_votes fc"
    and "fc_balances fc' = fc_balances fc"
  shows "walk_result E fc' = walk_result E fc"
  by (intro ext) (simp only: walk_result_def gloas_step_core [OF assms] assms)

lemma prepared_result_buf: "prepared E s fc \<Longrightarrow> prepared E s (fc\<lparr>fc_gloas_children_result_buf := x\<rparr>)"
  by (simp add: prepared_def)

lemma find_head_gloas_loop_walk:
  assumes "prepared E s fc" and "steps_left (fc_proto_array fc) head < fuel"
  shows "walk_result E fc boost_root apply_boost s spec head
    (find_head_gloas_loop fuel E fc boost_root apply_boost s spec head cache)"
  using assms
proof (induction fuel arbitrary: fc head cache)
  case 0
  then show ?case by simp
next
  case (Suc fuel)
  let ?cs = "kept_children E fc s head"
  let ?fc = "fc\<lparr>fc_gloas_children_result_buf := ?cs\<rparr>"
  note cs = prepared_children [OF Suc.prems(1), of head]
  show ?case
  proof (cases "?cs = []")
    case True
    then show ?thesis by (auto simp: walk_result_def cs Let_def)
  next
    case False
    have fc: "prepared E s ?fc" using Suc.prems(1) by (rule prepared_result_buf)
    obtain best w t where best:
      "max_by scored_greater (fst (score_children E ?fc boost_root apply_boost s spec ?cs [])) = Some (best, w, t)"
      "gloas_step E ?fc boost_root apply_boost s spec head best"
      using prepared_best_child [OF fc, of head boost_root apply_boost spec] False by auto
    have core: "gloas_step E ?fc = gloas_step E fc" "walk_result E ?fc = walk_result E fc"
      by (intro gloas_step_core walk_result_core; simp)+
    have "best \<in> set ?cs" using best(2) by (simp only: core) (simp add: gloas_step_iff)
    then have "steps_left (fc_proto_array ?fc) best < fuel"
      using steps_left_child [of "fc_proto_array fc" best] Suc.prems by (fastforce simp: prepared_def)
    then have "walk_result E fc boost_root apply_boost s spec best
        (find_head_gloas_loop fuel E ?fc boost_root apply_boost s spec best cache')" for cache'
      using Suc.IH [OF fc, of best cache'] by (simp only: core)
    moreover have "walk_result E fc boost_root apply_boost s spec head r"
      if "walk_result E fc boost_root apply_boost s spec best r" for r
      using that best(2) unfolding walk_result_def core by (blast intro: converse_rtranclp_into_rtranclp)
    ultimately show ?thesis using False best(1) by (simp add: cs Let_def split_beta)
  qed
qed

section \<open>The walk is unique\<close>

lemma tiebreaker_separates:
  "get_payload_tiebreaker pa \<lparr>g_root = r, g_payload_status = Empty\<rparr> s q b
   \<noteq> get_payload_tiebreaker pa \<lparr>g_root = r, g_payload_status = Full\<rparr> s q b"
  by (simp add: get_payload_tiebreaker_def Let_def)

lemma same_rank_same_child:
  assumes "c \<in> set (gloas_children pa f n)" and "c' \<in> set (gloas_children pa f n)"
    and "g_root c = g_root c'"
    and "get_payload_tiebreaker pa c s q b = get_payload_tiebreaker pa c' s q b"
  shows "c = c'"
proof (cases "g_payload_status n = Pending")
  case True
  then have "c \<in> {\<lparr>g_root = g_root n, g_payload_status = Empty\<rparr>, \<lparr>g_root = g_root n, g_payload_status = Full\<rparr>}"
    "c' \<in> {\<lparr>g_root = g_root n, g_payload_status = Empty\<rparr>, \<lparr>g_root = g_root n, g_payload_status = Full\<rparr>}"
    using assms(1,2) by (auto simp: gloas_children_def split: option.splits if_splits)
  then show ?thesis using assms(4) tiebreaker_separates [of pa "g_root n" s q b] by auto
next
  case False
  then have "g_payload_status c = Pending" "g_payload_status c' = Pending"
    using assms(1,2) by (auto simp: gloas_children_def split: option.splits)
  then show ?thesis using assms(3) by simp
qed

lemma gloas_step_deterministic:
  assumes "gloas_step E fc b a s spec n c" and "gloas_step E fc b a s spec n c'"
  shows "c = c'"
proof -
  have c: "c \<in> set (kept_children E fc s n)" "c' \<in> set (kept_children E fc s n)"
    and "\<not> outranks E fc b a s spec c c'" "\<not> outranks E fc b a s spec c' c"
    using assms by (simp_all add: gloas_step_iff)
  then have "g_root c = g_root c'"
    "get_payload_tiebreaker (fc_proto_array fc) c s (ptc_size spec div 2) b =
     get_payload_tiebreaker (fc_proto_array fc) c' s (ptc_size spec div 2) b"
    unfolding outranks_def Let_def by (metis not_less_iff_gr_or_eq)+
  then show ?thesis using same_rank_same_child [OF c] by blast
qed

lemma gloas_end_no_step: "kept_children E fc s n = [] \<Longrightarrow> \<not> gloas_step E fc b a s spec n c"
  by (simp add: gloas_step_iff)

lemma gloas_walk_unique:
  assumes "(gloas_step E fc b a s spec)\<^sup>*\<^sup>* n m" and "kept_children E fc s m = []"
    and "(gloas_step E fc b a s spec)\<^sup>*\<^sup>* n m'" and "kept_children E fc s m' = []"
  shows "m = m'"
  using assms
proof (induction n rule: converse_rtranclp_induct)
  case base
  then show ?case using gloas_end_no_step by (metis converse_rtranclpE)
next
  case (step n k)
  then show ?case using gloas_end_no_step gloas_step_deterministic by (metis converse_rtranclpE)
qed

end
