(* ===== verification/Gloas_Properties.thy ===== *)
theory Gloas_Properties
  imports Gloas_Walk Fork_Choice_System Sample_Chain
begin

text \<open>The properties of the Gloas head selection, with the inputs at which they are exercised.\<close>

section \<open>The state on which the head is selected\<close>

definition gloas_state ::
    "fork_choice \<Rightarrow> checkpoint \<Rightarrow> checkpoint \<Rightarrow> justified_balances \<Rightarrow> u64 list \<Rightarrow> fork_choice" where
  "gloas_state fc jc fin new_balances equivocating =
     maybe_update_balances
       (fc\<lparr>fc_votes := apply_vote_updates (fc_votes fc) (effective_balances (fc_balances fc))
             (effective_balances new_balances) equivocating,
           fc_proto_array := set_checkpoints jc fin (fc_proto_array fc)\<rparr>) new_balances"

definition gloas_apply_boost ::
    "eth_spec \<Rightarrow> fork_choice \<Rightarrow> hash256 \<Rightarrow> u64 list \<Rightarrow> chain_spec \<Rightarrow> bool" where
  "gloas_apply_boost E fc boost_root equivocating spec =
     should_apply_proposer_boost_gloas E fc boost_root equivocating spec
       (active_votes_from 0 (effective_balances (fc_balances fc)) (fc_votes fc))"

lemma gloas_state_fields:
  "fc_proto_array (gloas_state fc jc fin bal eq) = set_checkpoints jc fin (fc_proto_array fc)"
  "length (fc_votes (gloas_state fc jc fin bal eq)) = length (fc_votes fc)"
  by (simp_all add: gloas_state_def maybe_update_balances_def apply_vote_updates_def)

lemma set_checkpoints_nodes [simp]:
  "pa_nodes (set_checkpoints jc fin pa) = pa_nodes pa"
  "pa_indices (set_checkpoints jc fin pa) = pa_indices pa"
  by (simp_all add: set_checkpoints_def)

lemma should_apply_core:
  assumes "fc_proto_array fc' = fc_proto_array fc" and "fc_votes fc' = fc_votes fc"
    and "fc_balances fc' = fc_balances fc"
  shows "should_apply_proposer_boost_gloas E fc' = should_apply_proposer_boost_gloas E fc"
  by (intro ext) (simp only: should_apply_proposer_boost_gloas_def parent_attestation_weight_def assms)

lemma prepare_gloas_fields [simp]:
  "fc_proto_array (prepare_gloas E fc s) = fc_proto_array fc"
  "fc_votes (prepare_gloas E fc s) = fc_votes fc"
  "fc_balances (prepare_gloas E fc s) = fc_balances fc"
  "fc_gloas_active_votes_buf (prepare_gloas E fc s) =
     active_votes_from 0 (effective_balances (fc_balances fc)) (fc_votes fc)"
  by (simp_all add: prepare_gloas_def)

lemma find_head_gloas_prepared:
  "find_head_gloas E fc jc boost_root eq s spec =
     find_head_gloas_loop (2 * length (pa_nodes (fc_proto_array fc)) + 3) E
       ((prepare_gloas E fc s)\<lparr>fc_gloas_ancestor_cache_buf := []\<rparr>) boost_root
       (gloas_apply_boost E fc boost_root eq spec) s spec
       \<lparr>g_root = cp_root jc, g_payload_status = Pending\<rparr>
       (fc_gloas_ancestor_cache_buf (prepare_gloas E fc s))"
proof -
  have "should_apply_proposer_boost_gloas E (prepare_gloas E fc s) = should_apply_proposer_boost_gloas E fc"
    by (rule should_apply_core) simp_all
  then show ?thesis by (simp add: find_head_gloas_def gloas_apply_boost_def Let_def)
qed

lemma fc_find_head_gloas_eq:
  "fc_find_head_gloas E fc jc fin bal boost_root eq s spec =
     find_head_gloas E (gloas_state fc jc fin bal eq) jc boost_root eq s spec"
  by (simp only: fc_find_head_gloas_def gloas_state_def Let_def)

lemma find_head_gloas_walk:
  fixes E fc jc fin bal boost_root eq s spec
  assumes wf: "wf_array (fc_proto_array fc)" and len: "length (fc_votes fc) \<le> 2 ^ 32"
  defines "fc1 \<equiv> gloas_state fc jc fin bal eq"
  shows "walk_result E fc1 boost_root (gloas_apply_boost E fc1 boost_root eq spec) s spec
    \<lparr>g_root = cp_root jc, g_payload_status = Pending\<rparr>
    (fc_find_head_gloas E fc jc fin bal boost_root eq s spec)"
proof -
  let ?fc2 = "(prepare_gloas E fc1 s)\<lparr>fc_gloas_ancestor_cache_buf := []\<rparr>"
  let ?start = "\<lparr>g_root = cp_root jc, g_payload_status = Pending\<rparr>"
  have "wf_array (fc_proto_array fc1)"
    using wf by (simp add: fc1_def gloas_state_fields wf_array_def)
  then have "prepared E s ?fc2"
    using len by (intro prepared_prepare_gloas) (simp_all add: fc1_def gloas_state_fields)
  moreover have core: "fc_proto_array ?fc2 = fc_proto_array fc1" "fc_votes ?fc2 = fc_votes fc1"
    "fc_balances ?fc2 = fc_balances fc1"
    by (simp_all add: prepare_gloas_def)
  moreover have "steps_left (fc_proto_array ?fc2) ?start < 2 * length (pa_nodes (fc_proto_array fc1)) + 3"
    using steps_left_bound [of "fc_proto_array fc1" ?start] core by simp
  ultimately have "walk_result E ?fc2 boost_root a s spec ?start
      (find_head_gloas_loop (2 * length (pa_nodes (fc_proto_array fc1)) + 3) E ?fc2 boost_root a s spec
         ?start cache)" for a cache
    by (intro find_head_gloas_loop_walk)
  then show ?thesis
    unfolding fc_find_head_gloas_eq find_head_gloas_prepared fc1_def [symmetric]
    by (simp only: walk_result_core [OF core])
qed

section \<open>Properties\<close>

lemma sample_gloas_votes: "length (fc_votes sample_gloas) = 3"
  by code_simp

text \<open>
  C2. In Gloas, \<^verbatim>\<open>find_head\<close> returns on every well-formed array, and the head is the end of the walk
  that starts at the pending node of the justified block and goes from a virtual node to its best
  child: the child with the greatest saturated weight, ties by root, then by the payload
  tie-breaker, among the children that lead to a viable block. The cache, the buffers and the order
  in which children are visited have no influence: the end of the walk is unique. The payload status
  of the head is stored.
\<close>

theorem find_head_gloas_is_best_walk:
  assumes wf: "wf_array (fc_proto_array fc)" and len: "length (fc_votes fc) \<le> 2 ^ 32"
    and gloas: "is_gloas_slot E spec s"
  shows "let fc1 = gloas_state fc jc fin bal eq;
      walk = (gloas_step E fc1 boost_root (gloas_apply_boost E fc1 boost_root eq spec) s spec)\<^sup>*\<^sup>*
               \<lparr>g_root = cp_root jc, g_payload_status = Pending\<rparr>
    in \<exists>head fc'. fc_find_head E fc jc fin bal boost_root eq s spec = Inr (g_root head, fc')
         \<and> walk head \<and> kept_children E fc1 s head = []
         \<and> (\<forall>head'. walk head' \<and> kept_children E fc1 s head' = [] \<longrightarrow> head' = head)
         \<and> fc_gloas_head_payload_status fc' = Some (payload_status_u8 (g_payload_status head))"
proof -
  have "fc_find_head E fc jc fin bal boost_root eq s spec =
      fc_find_head_gloas E fc jc fin bal boost_root eq s spec"
    using gloas by (simp add: fc_find_head_def)
  then show ?thesis
    using find_head_gloas_walk [OF wf len, of E jc fin bal eq boost_root spec s]
    unfolding walk_result_def Let_def by (metis gloas_walk_unique)
qed

theorem find_head_gloas_is_best_walk_witness:
  "\<exists>head fc'. fc_find_head MainnetEthSpec sample_gloas sample_checkpoint sample_checkpoint
       sample_balances 0 [] 3 (sample_spec (Some 0)) = Inr (g_root head, fc')
     \<and> kept_children MainnetEthSpec
         (gloas_state sample_gloas sample_checkpoint sample_checkpoint sample_balances []) 3 head = []"
proof -
  have "wf_array (fc_proto_array sample_gloas)" by code_simp
  moreover have "length (fc_votes sample_gloas) \<le> 2 ^ 32" by (simp add: sample_gloas_votes)
  moreover have "is_gloas_slot MainnetEthSpec (sample_spec (Some 0)) 3" by code_simp
  ultimately show ?thesis
    using find_head_gloas_is_best_walk [of sample_gloas MainnetEthSpec "sample_spec (Some 0)" 3
        sample_checkpoint sample_checkpoint sample_balances "[]" 0]
    unfolding Let_def by blast
qed

text \<open>
  C13. \<^verbatim>\<open>get_gloas_weight\<close> with any sound ancestor cache is the saturated sum of the balances of the
  validators that support the virtual node and of the proposer boost, and 0 for the two payload
  nodes of a block of the previous slot. The cache it returns is sound again.
\<close>

theorem get_gloas_weight_is_supporting_stake:
  assumes "cache_ok (fc_proto_array fc) cache" and "length (fc_votes fc) \<le> 2 ^ 32"
  shows "let r = get_gloas_weight E fc node boost_root apply_boost s spec cache
               (active_votes_from 0 (effective_balances (fc_balances fc)) (fc_votes fc))
    in unat (fst r) = gloas_weight E fc boost_root apply_boost s spec node
       \<and> cache_ok (fc_proto_array fc) (snd r)"
  using get_gloas_weight_eq [OF assms refl] by (simp add: Let_def)

theorem get_gloas_weight_is_supporting_stake_witness:
  "unat (fst (get_gloas_weight MainnetEthSpec sample_gloas \<lparr>g_root = 1, g_payload_status = Pending\<rparr> 4
       True 3 (sample_spec (Some 0)) []
       (active_votes_from 0 (effective_balances (fc_balances sample_gloas)) (fc_votes sample_gloas)))) =
     gloas_weight MainnetEthSpec sample_gloas 4 True 3 (sample_spec (Some 0))
       \<lparr>g_root = 1, g_payload_status = Pending\<rparr>"
proof -
  have "length (fc_votes sample_gloas) \<le> 2 ^ 32" by (simp add: sample_gloas_votes)
  then show ?thesis
    using get_gloas_weight_is_supporting_stake [OF cache_ok_empty, of sample_gloas MainnetEthSpec
        "\<lparr>g_root = 1, g_payload_status = Pending\<rparr>" 4 True 3 "sample_spec (Some 0)"]
    by (simp add: Let_def)
qed

text \<open>
  C14. The children index of \<^verbatim>\<open>build_children_index\<close>, whatever the reused buffer held before, gives
  the same virtual children in the same order as the scan over all nodes.
\<close>

theorem children_index_is_scan:
  assumes "wf_array pa"
  shows "collect_gloas_children pa node filtered (Some (build_children_index pa buf)) =
    collect_gloas_children pa node filtered None"
  using collect_from_index [OF assms] collect_from_scan [OF assms] by simp

theorem children_index_is_scan_witness:
  "collect_gloas_children (fc_proto_array sample_gloas) \<lparr>g_root = 2, g_payload_status = Full\<rparr>
     [True, True, True, True] (Some (build_children_index (fc_proto_array sample_gloas) [(1, [7])])) =
   collect_gloas_children (fc_proto_array sample_gloas) \<lparr>g_root = 2, g_payload_status = Full\<rparr>
     [True, True, True, True] None"
proof -
  have "wf_array (fc_proto_array sample_gloas)" by code_simp
  then show ?thesis by (rule children_index_is_scan)
qed

text \<open>
  C15. \<^verbatim>\<open>compute_filtered_nodes\<close> marks exactly the nodes that are viable or have a viable
  descendant.
\<close>

theorem filtered_iff_viable_descendant:
  assumes "wf_array pa" and "i < length (pa_nodes pa)"
  shows "compute_filtered_nodes E pa s ! i \<longleftrightarrow>
    (\<exists>j < length (pa_nodes pa). node_is_viable_for_head E pa (pa_nodes pa ! j) s
       \<and> i \<in> set (ancestors (pa_nodes pa) j))"
  using compute_filtered_eq(2) [OF assms] by (simp add: reaches_def viable_def)

theorem filtered_iff_viable_descendant_witness:
  "\<exists>j < length (pa_nodes (fc_proto_array sample_gloas)).
     node_is_viable_for_head MainnetEthSpec (fc_proto_array sample_gloas)
       (pa_nodes (fc_proto_array sample_gloas) ! j) 3
     \<and> 1 \<in> set (ancestors (pa_nodes (fc_proto_array sample_gloas)) j)"
proof -
  have "wf_array (fc_proto_array sample_gloas)" by code_simp
  moreover have "1 < length (pa_nodes (fc_proto_array sample_gloas))" by code_simp
  moreover have "compute_filtered_nodes MainnetEthSpec (fc_proto_array sample_gloas) 3 ! 1" by code_simp
  ultimately show ?thesis
    using filtered_iff_viable_descendant [of "fc_proto_array sample_gloas" 1 MainnetEthSpec 3] by blast
qed

end
