(* ===== verification/Index_Safety.thy ===== *)
theory Index_Safety
  imports Fork_Choice_System Gloas_Properties
begin

text \<open>
  The internal errors of fork choice (an index outside the array or the deltas, an index that would
  underflow when pruning, a loop without a next node) cannot be raised from a well-formed array, by
  any operation. What remains are the errors about the inputs: unknown roots, overflowing stakes,
  contradictory payload verdicts, no viable head.
\<close>

section \<open>Errors\<close>

fun index_error :: "proto_error \<Rightarrow> bool" where
  "index_error (InvalidNodeIndex _) = True"
| "index_error (InvalidParentIndex _) = True"
| "index_error (InvalidBestChildIndex _) = True"
| "index_error (InvalidJustifiedIndex _) = True"
| "index_error (InvalidBestDescendant _) = True"
| "index_error (InvalidParentDelta _) = True"
| "index_error (InvalidNodeDelta _) = True"
| "index_error (IndexOverflow _) = True"
| "index_error (InvalidDeltaLen _ _) = True"
| "index_error _ = False"

fun fc_index_error :: "fc_error \<Rightarrow> bool" where
  "fc_index_error (FinalizedBlockError e) = index_error e"
| "fc_index_error (ProcessValidPayloadError e) = index_error e"
| "fc_index_error (ProcessInvalidPayloadError e) = index_error e"
| "fc_index_error (ProcessBlockError e) = index_error e"
| "fc_index_error (FindHeadComputeDeltasError e) = index_error e"
| "fc_index_error (FindHeadApplyScoreChangesError e) = index_error e"
| "fc_index_error (FindHeadError e) = index_error e"
| "fc_index_error (MaybePruneError e) = index_error e"
| "fc_index_error FindHeadGloasNoChildren = True"
| "fc_index_error FindHeadGloasOutOfFuel = True"
| "fc_index_error UnreachableIndex = True"
| "fc_index_error (MissingParentIndex _) = True"
| "fc_index_error _ = False"

text \<open>\<open>ensures P Q r\<close>: an error satisfies \<open>P\<close>, a result \<open>Q\<close>.\<close>

fun ensures :: "('e \<Rightarrow> bool) \<Rightarrow> ('a \<Rightarrow> bool) \<Rightarrow> 'e + 'a \<Rightarrow> bool" where
  "ensures P Q (Inl e) = P e"
| "ensures P Q (Inr x) = Q x"

lemma ensures_bind:
  assumes "ensures P Q m" and "\<And>x. Q x \<Longrightarrow> ensures P R (f x)"
  shows "ensures P R (bind_r m f)"
  using assms by (cases m) simp_all

lemma ensures_mono:
  assumes "ensures P Q m" and "\<And>e. P e \<Longrightarrow> P' e" and "\<And>x. Q x \<Longrightarrow> Q' x"
  shows "ensures P' Q' m"
  using assms by (cases m) simp_all

lemma ensures_with_state: "ensures P Q (with_state s m) = ensures (\<lambda>e. P (e, s)) Q m"
  by (cases m) simp_all

lemma ensures_ok_or: "ensures P Q (ok_or m e) \<longleftrightarrow> (case m of Some x \<Rightarrow> Q x | None \<Rightarrow> P e)"
  by (cases m) simp_all

abbreviation sound :: "proto_error \<times> 's \<Rightarrow> bool" where
  "sound \<equiv> \<lambda>(e, _). \<not> index_error e"

abbreviation fc_sound :: "fc_error \<times> 's \<Rightarrow> bool" where
  "fc_sound \<equiv> \<lambda>(e, _). \<not> fc_index_error e"

text \<open>A well-formed array with \<open>n\<close> nodes.\<close>

definition wf_of :: "nat \<Rightarrow> proto_array \<Rightarrow> bool" where
  "wf_of n pa \<longleftrightarrow> wf_array pa \<and> length (pa_nodes pa) = n"

lemma wf_of_set_weight:
  "wf_of n pa \<Longrightarrow> i < n \<Longrightarrow> wf_of n (set_node pa i ((pa_nodes pa ! i)\<lparr>n_weight := w\<rparr>))"
  by (simp add: wf_of_def wf_set_weight)

lemma wf_of_set_status:
  "wf_of n pa \<Longrightarrow> i < n \<Longrightarrow> wf_of n (set_node pa i ((pa_nodes pa ! i)\<lparr>n_execution_status := st\<rparr>))"
  by (simp add: wf_of_def wf_set_status)

lemma wf_of_parent: "wf_of n pa \<Longrightarrow> i < n \<Longrightarrow> n_parent (pa_nodes pa ! i) = Some p \<Longrightarrow> p < n"
  using wf_array_parent_idx parent_idx_in_range(2) unfolding wf_of_def by metis

lemma wf_of_nth_opt: "wf_of n pa \<Longrightarrow> i < n \<Longrightarrow> nth_opt (pa_nodes pa) i = Some (pa_nodes pa ! i)"
  by (simp add: wf_of_def)

lemma wf_of_lookup: "wf_of n pa \<Longrightarrow> hm_get (pa_indices pa) r = Some i \<Longrightarrow> i < n"
  using wf_array_lookup by (auto simp: wf_of_def)

section \<open>Payload verdicts\<close>

lemma validation_by_index_sound:
  assumes "wf_of n pa" and "i < n"
  shows "ensures sound (\<lambda>_. True) (propagate_execution_payload_validation_by_index pa i)"
  using assms
proof (induction pa i rule: propagate_execution_payload_validation_by_index.induct)
  case (1 pa i)
  note node = wf_of_nth_opt [OF "1.prems"]
  show ?case
    using "1.IH" [OF node] wf_of_set_status [OF "1.prems"] wf_of_parent [OF "1.prems"]
    by (subst propagate_execution_payload_validation_by_index.simps)
      (simp add: node Let_def split: execution_status.splits option.splits)
qed

lemma invalidate_ancestor_step_sound:
  assumes wf: "wf_of n pa" and i: "i < n"
  shows "ensures sound (\<lambda>((pa', _), nxt). wf_of n pa' \<and> (\<forall>p. nxt = Some p \<longrightarrow> p < n))
    (invalidate_ancestor_step iop r lva i (pa, dead))"
proof -
  have keep: "wf_of n (set_node pa i m)" if "keeps_node (pa_nodes pa ! i) m" for m
    using wf i that by (simp add: wf_of_def wf_set_node)
  show ?thesis
    using wf i wf_of_parent [OF wf i] wf_of_nth_opt [OF wf i]
    by (auto simp: invalidate_ancestor_step_def Let_def keeps_node_def
        split: option.splits execution_status.splits intro!: keep)
qed

lemma invalidate_ancestors_sound:
  assumes "wf_of n pa" and "i < n"
  shows "ensures sound (\<lambda>(pa', _). wf_of n pa') (invalidate_ancestors k iop r lva i (pa, dead))"
  using assms
proof (induction k arbitrary: i pa dead)
  case 0
  then show ?case by simp
next
  case (Suc k)
  show ?case
    unfolding invalidate_ancestors.simps
    by (rule ensures_bind [OF invalidate_ancestor_step_sound [OF Suc.prems]])
      (auto simp: Suc.IH split: option.splits)
qed

lemma invalidate_descendants_sound:
  assumes "wf_of n pa" and "\<And>i. i \<in> set is \<Longrightarrow> i < n"
  shows "ensures sound (\<lambda>_. True) (invalidate_descendants is (pa, dead))"
  using assms
proof (induction "is" arbitrary: pa dead)
  case Nil
  then show ?case by simp
next
  case (Cons i "is")
  have i: "i < n" using Cons.prems(2) by simp
  have "ensures sound (\<lambda>(pa', _). wf_of n pa') (invalidate_descendant_step i (pa, dead))"
    using Cons.prems(1) wf_of_set_status [OF Cons.prems(1) i] wf_of_nth_opt [OF Cons.prems(1) i]
    by (auto simp: invalidate_descendant_step_def split: option.splits execution_status.splits)
  then show ?case
    unfolding invalidate_descendants.simps
    by (rule ensures_bind) (use Cons in auto)
qed

lemma validation_sound:
  assumes "wf_array pa"
  shows "ensures sound (\<lambda>_. True) (propagate_execution_payload_validation pa r)"
proof (cases "hm_get (pa_indices pa) r")
  case None
  then show ?thesis by (simp add: propagate_execution_payload_validation_def)
next
  case (Some i)
  have wf: "wf_of (length (pa_nodes pa)) pa" using assms by (simp add: wf_of_def)
  show ?thesis
    using validation_by_index_sound [OF wf wf_of_lookup [OF wf Some]] Some
    by (simp add: propagate_execution_payload_validation_def
        del: propagate_execution_payload_validation_by_index.simps)
qed

lemma invalidation_sound:
  assumes "wf_array pa"
  shows "ensures sound (\<lambda>_. True) (propagate_execution_payload_invalidation E pa iop)"
proof (cases "hm_get (pa_indices pa) (op_block_root iop)")
  case None
  then show ?thesis by (simp add: propagate_execution_payload_invalidation_def)
next
  case (Some i)
  have wf: "wf_of (length (pa_nodes pa)) pa" using assms by (simp add: wf_of_def)
  show ?thesis
    unfolding propagate_execution_payload_invalidation_def Let_def Some ok_or.simps with_state_simps
      bind_r.simps
    apply (rule ensures_bind [OF invalidate_ancestors_sound [OF wf wf_of_lookup [OF wf Some]]])
    apply (clarsimp simp del: upt_Suc)
    subgoal for pa1 dead
      by (rule ensures_bind [where Q = "\<lambda>_. True"])
        (auto simp: ensures_with_state ensures_ok_or wf_of_def split: option.splits
          intro!: ensures_bind [OF invalidate_descendants_sound [of "length (pa_nodes pa)"]])
    done
qed

section \<open>Blocks and pruning\<close>

lemma on_block_sound:
  assumes wf: "wf_array pa"
  shows "ensures sound (\<lambda>_. True) (on_block E pa b s)"
proof (cases "hm_contains_key (pa_indices pa) (b_root b)")
  case True
  then show ?thesis by (simp add: on_block_known)
next
  case fresh: False
  show ?thesis
  proof (cases "n_parent (node_of_block pa b)")
    case None
    then show ?thesis using fresh by (simp add: on_block_no_parent)
  next
    case (Some p)
    let ?pa = "update_best E s (appended pa b) p (length (pa_nodes pa))"
    have p: "p < length (pa_nodes pa)" using wf_node_of_block_parent [OF wf Some] .
    have "wf_array ?pa"
      using appended_parent_idx [OF wf Some]
      by (intro wf_update_best wf_appended [OF wf fresh]) (simp_all add: appended_def)
    moreover have "length (pa_nodes ?pa) = Suc (length (pa_nodes pa))"
      using bare_array_length [OF bare_update_best] by (simp add: appended_def)
    ultimately show ?thesis
      using p validation_by_index_sound [of "Suc (length (pa_nodes pa))" ?pa p]
      unfolding on_block_parent [OF wf fresh Some] by (simp add: Let_def wf_of_def)
  qed
qed

lemma maybe_prune_sound:
  assumes "wf_array pa"
  shows "ensures sound (\<lambda>_. True) (maybe_prune pa r)"
  using assms by (simp add: maybe_prune_eq split: option.splits)

section \<open>Scores\<close>

lemma boosted_delta_sound:
  assumes "i < length deltas"
  shows "ensures (\<lambda>e. \<not> index_error e) (\<lambda>_. True)
    (boosted_delta E spec balances boost_root prev i node deltas sc)"
  using assms
  by (auto simp: boosted_delta_def Let_def ensures_ok_or intro!: ensures_bind [where Q = "\<lambda>_. True"]
      split: option.splits)

lemma apply_delta_sound:
  "ensures (\<lambda>e. \<not> index_error e) (\<lambda>_. True) (apply_delta i node d)"
  by (simp add: apply_delta_def ensures_ok_or split: option.splits)

lemma apply_weight_step_sound:
  assumes wf: "wf_of n pa" and i: "i < n" and len: "length deltas = n"
  shows "ensures sound (\<lambda>(pa', deltas', _). wf_of n pa' \<and> length deltas' = n)
    (apply_weight_step E spec balances boost_root i (pa, deltas, sc))"
proof -
  let ?node = "pa_nodes pa ! i"
  let ?prev = "pa_previous_proposer_boost pa"
  have "ensures sound (\<lambda>_. True)
      (with_state pa (boosted_delta E spec balances boost_root ?prev i ?node deltas sc))"
    using boosted_delta_sound [of i deltas] i len by (simp add: ensures_with_state)
  moreover have "ensures sound (\<lambda>_. True) (with_state pa (apply_delta i ?node d))" for d
    using apply_delta_sound by (simp add: ensures_with_state)
  ultimately show ?thesis
    using wf len wf_of_set_weight [OF wf i] wf_of_parent [OF wf i] wf_of_nth_opt [OF wf i]
    by (auto simp: apply_weight_step_def Let_def nth_opt_def split: option.splits
        intro!: ensures_bind [where Q = "\<lambda>_. True"])
qed

lemma apply_weight_loop_sound:
  assumes "wf_of n pa" and "k \<le> n" and "length deltas = n"
  shows "ensures sound (\<lambda>(pa', _, _). wf_of n pa')
    (apply_weight_loop E spec balances boost_root k (pa, deltas, sc))"
  using assms
proof (induction k arbitrary: pa deltas sc)
  case 0
  then show ?case by simp
next
  case (Suc i)
  show ?case
    unfolding apply_weight_loop.simps
    by (rule ensures_bind [OF apply_weight_step_sound [OF Suc.prems(1) _ Suc.prems(3)]])
      (use Suc in auto)
qed

lemma apply_score_changes_sound:
  assumes wf: "wf_array pa" and len: "length deltas = hm_len (pa_indices pa)"
  shows "ensures sound (\<lambda>_. True) (apply_score_changes E pa deltas jc fin balances boost_root s spec)"
proof -
  let ?n = "length (pa_nodes pa)"
  have "wf_of ?n (if jc \<noteq> pa_justified_checkpoint pa \<or> fin \<noteq> pa_finalized_checkpoint pa
      then pa\<lparr>pa_justified_checkpoint := jc, pa_finalized_checkpoint := fin\<rparr> else pa)" (is "wf_of _ ?pa1")
    using wf by (simp add: wf_of_def)
  moreover have "length deltas = ?n" using wf len by (simp add: wf_array_def indices_ok_def)
  ultimately have loop: "ensures sound (\<lambda>(pa', _, _). wf_of ?n pa')
      (apply_weight_loop E spec balances boost_root (length (pa_nodes ?pa1)) (?pa1, deltas, 0))"
    by (intro apply_weight_loop_sound) simp_all
  have "ensures sound (\<lambda>_. True)
      (bind_r (apply_weight_loop E spec balances boost_root (length (pa_nodes ?pa1)) (?pa1, deltas, 0))
        (\<lambda>(pa2, _, sc). update_best_loop E s
          (length (pa_nodes (pa2\<lparr>pa_previous_proposer_boost := \<lparr>pb_root = boost_root, pb_score = sc\<rparr>\<rparr>)))
          (pa2\<lparr>pa_previous_proposer_boost := \<lparr>pb_root = boost_root, pb_score = sc\<rparr>\<rparr>)))"
    by (rule ensures_bind [OF loop]) (auto simp: update_best_loop_total wf_of_def)
  then show ?thesis
    using len unfolding apply_score_changes_def Let_def by (simp only: simp_thms if_False)
qed

lemma adjust_delta_sound:
  assumes "\<And>i. index = Some i \<Longrightarrow> i < length deltas"
  shows "ensures (\<lambda>e. \<not> index_error e) (\<lambda>deltas'. length deltas' = length deltas)
    (adjust_delta f deltas index amount)"
  using assms
  by (cases index) (auto simp: adjust_delta_def ensures_ok_or intro!: ensures_bind [where Q = "\<lambda>_. True"]
      split: option.splits)

lemma compute_delta_step_sound:
  assumes "\<And>r i. hm_get indices r = Some i \<Longrightarrow> i < n" and "length deltas = n"
  shows "ensures (\<lambda>e. \<not> index_error e) (\<lambda>(deltas', _). length deltas' = n)
    (compute_delta_step indices old new eq k vote deltas)"
proof -
  have "ensures (\<lambda>e. \<not> index_error e) (\<lambda>deltas'. length deltas' = n)
      (adjust_delta f d (hm_get indices r) a)" if "length d = n" for f d r a
    using adjust_delta_sound [of "hm_get indices r" d] assms(1) that by auto
  then show ?thesis
    using assms(2) by (auto simp: compute_delta_step_def Let_def
        intro!: ensures_bind [where Q = "\<lambda>deltas'. length deltas' = n"])
qed

lemma compute_deltas_loop_sound:
  assumes "\<And>r i. hm_get indices r = Some i \<Longrightarrow> i < n" and "length deltas = n"
  shows "ensures sound (\<lambda>(deltas', _). length deltas' = n)
    (compute_deltas_loop indices old new eq k vs deltas)"
  using assms(2)
proof (induction vs arbitrary: k deltas)
  case Nil
  then show ?case by simp
next
  case (Cons v vs)
  have step: "ensures (\<lambda>e. \<not> index_error e) (\<lambda>(deltas', _). length deltas' = n)
      (compute_delta_step indices old new eq k v deltas)"
    using assms(1) Cons.prems by (rule compute_delta_step_sound)
  show ?case
  proof (cases "compute_delta_step indices old new eq k v deltas")
    case (Inl e)
    then show ?thesis using step by simp
  next
    case (Inr x)
    obtain deltas' v' where x: "x = (deltas', v')" by (cases x)
    then have "length deltas' = n" using step Inr by simp
    then show ?thesis
      using Cons.IH [of deltas' "Suc k"] Inr x
      by (cases "compute_deltas_loop indices old new eq (Suc k) vs deltas'") auto
  qed
qed

lemma compute_deltas_sound:
  assumes "wf_array pa"
  shows "ensures sound (\<lambda>(deltas, _). length deltas = hm_len (pa_indices pa))
    (compute_deltas (pa_indices pa) votes old new eq)"
  unfolding compute_deltas_def
proof (rule compute_deltas_loop_sound)
  show "i < hm_len (pa_indices pa)" if "hm_get (pa_indices pa) r = Some i" for r i
    using that wf_array_lookup [OF assms] assms by (simp add: wf_array_def indices_ok_def)
qed simp

section \<open>Heads and resets\<close>

lemma find_head_sound:
  assumes wf: "wf_array pa"
  shows "ensures (\<lambda>e. \<not> index_error e) (\<lambda>_. True) (find_head E pa r s)"
proof (cases "hm_get (pa_indices pa) r")
  case None
  then show ?thesis by (simp add: find_head_def)
next
  case (Some i)
  then have i: "i < length (pa_nodes pa)" using wf_array_lookup [OF wf] by blast
  have "d < length (pa_nodes pa)" if "n_best_descendant (pa_nodes pa ! i) = Some d" for d
    using that wf i wf_nodes_best [of "pa_nodes pa" i] by (simp add: wf_array_def best_links_ok_def)
  then show ?thesis
    using Some i by (auto simp: find_head_def nth_opt_def Let_def split: option.splits)
qed

lemma lift_pa_sound:
  assumes "ensures sound (\<lambda>_. True) r" and "\<And>e. fc_index_error (f e) = index_error e"
  shows "ensures fc_sound (\<lambda>_. True) (lift_pa f fc r)"
  using assms by (cases r) (auto simp: lift_pa_def)

lemma find_head_ffg_sound:
  assumes wf: "fc_wf fc"
  shows "ensures fc_sound (\<lambda>_. True) (fc_find_head_ffg E fc jc fin bal boost eq s spec)"
proof (cases "compute_deltas (pa_indices (fc_proto_array fc)) (fc_votes fc)
    (effective_balances (fc_balances fc)) (effective_balances bal) eq")
  case (Inl x)
  then show ?thesis
    using compute_deltas_sound [OF wf, of "fc_votes fc" "effective_balances (fc_balances fc)"
        "effective_balances bal" eq] by (cases x) (simp add: fc_find_head_ffg_def)
next
  case (Inr x)
  obtain deltas votes where x: "x = (deltas, votes)" by (cases x)
  then have len: "length deltas = hm_len (pa_indices (fc_proto_array fc))"
    using Inr compute_deltas_sound [OF wf, of "fc_votes fc" "effective_balances (fc_balances fc)"
        "effective_balances bal" eq] by simp
  let ?r = "apply_score_changes E (fc_proto_array fc) deltas jc fin bal boost s spec"
  have r: "ensures sound (\<lambda>_. True) ?r" "after wf_array ?r"
    using apply_score_changes_sound [OF wf len] apply_score_changes_wf [OF wf] by blast+
  have "ensures fc_sound (\<lambda>_. True) (bind_r (with_state q
      (map_err FindHeadError (find_head E pa (cp_root jc) s))) (\<lambda>h. Inr (h, q)))"
    if "wf_array pa" for q :: fork_choice and pa
    using find_head_sound [OF that, of E "cp_root jc" s]
    by (cases "find_head E pa (cp_root jc) s") simp_all
  then show ?thesis
    using Inr x r by (cases ?r) (auto simp: fc_find_head_ffg_def lift_pa_def Let_def)
qed

lemma fc_find_head_sound:
  assumes "fc_wf fc" and "length (fc_votes fc) \<le> 2 ^ 32"
  shows "ensures fc_sound (\<lambda>_. True) (fc_find_head E fc jc fin bal boost eq s spec)"
proof (cases "is_gloas_slot E spec s")
  case True
  then show ?thesis
    using find_head_gloas_walk [OF assms, of E jc fin bal eq boost spec s]
    by (auto simp: fc_find_head_def walk_result_def)
next
  case False
  then show ?thesis using find_head_ffg_sound [OF assms(1)] by (simp add: fc_find_head_def)
qed

lemma add_weight_to_chain_sound:
  assumes "wf_of n pa" and "i < n"
  shows "ensures fc_sound (wf_of n) (add_weight_to_chain k pa i w)"
  using assms
proof (induction k arbitrary: pa i)
  case 0
  then show ?case by simp
next
  case (Suc k)
  then show ?case
    using wf_of_set_weight [OF Suc.prems] wf_of_parent [OF Suc.prems] wf_of_nth_opt [OF Suc.prems]
    by (auto simp: Let_def split: option.splits)
qed

lemma restore_invalid_node_sound:
  assumes wf: "wf_of n (fc_proto_array fc)" and i: "i < n"
  shows "ensures fc_sound (wf_of n)
    (restore_invalid_node E spec fc i (pa_nodes (fc_proto_array fc) ! i) h)"
proof -
  let ?pa1 = "set_node (fc_proto_array fc) i
    ((pa_nodes (fc_proto_array fc) ! i)\<lparr>n_execution_status := Optimistic h\<rparr>)"
  have "wf_of n ?pa1" using wf i by (rule wf_of_set_status)
  then have "wf_of n (?pa1\<lparr>pa_previous_proposer_boost := b\<rparr>)" "wf_of n ?pa1" for b
    by (simp_all add: wf_of_def)
  then show ?thesis
    using i by (auto simp: restore_invalid_node_def Let_def add_weight_to_chain_sound split: option.splits)
qed

lemma set_optimistic_loop_sound:
  assumes "wf_of n (fc_proto_array fc)" and "k \<le> n"
  shows "ensures fc_sound (\<lambda>_. True) (set_optimistic_loop E spec k fc)"
  using assms
proof (induction k arbitrary: fc)
  case 0
  then show ?case by simp
next
  case (Suc i)
  let ?pa = "fc_proto_array fc" and ?node = "pa_nodes (fc_proto_array fc) ! i"
  have i: "i < n" using Suc.prems(2) by simp
  let ?r = "case n_execution_status ?node of
      Invalid h \<Rightarrow> restore_invalid_node E spec fc i ?node h
    | Valid h \<Rightarrow> Inr (set_node ?pa i (?node\<lparr>n_execution_status := Optimistic h\<rparr>))
    | Optimistic h \<Rightarrow> Inr (set_node ?pa i (?node\<lparr>n_execution_status := Optimistic h\<rparr>))
    | Irrelevant _ \<Rightarrow> Inr ?pa"
  have "ensures fc_sound (wf_of n) ?r"
    using restore_invalid_node_sound [OF Suc.prems(1) i] wf_of_set_status [OF Suc.prems(1) i] Suc.prems(1)
    by (simp split: execution_status.splits)
  moreover have "i < length (pa_nodes ?pa)" using Suc.prems(1) i by (simp add: wf_of_def)
  ultimately show ?case using Suc.IH i by (cases ?r) (auto simp: nth_opt_def)
qed

lemma fc_apply_sound:
  assumes wf: "fc_wf fc" and len: "length (fc_votes fc) \<le> 2 ^ 32"
  shows "ensures fc_sound (\<lambda>_. True) (fc_apply E a fc)"
proof (cases a)
  case (OpFindHead jc fin bal boost eq s spec)
  then show ?thesis
    using fc_find_head_sound [OF wf len, of E jc fin bal boost eq s spec]
    by (cases "fc_find_head E fc jc fin bal boost eq s spec") auto
next
  case (OpSetAllOptimistic spec)
  then show ?thesis
    using set_optimistic_loop_sound [of "length (pa_nodes (fc_proto_array fc))" fc] wf
    by (simp add: set_all_blocks_to_optimistic_def wf_of_def)
next
  case (OpBlock b s)
  then show ?thesis using on_block_sound [OF wf] by (simp add: process_block_def lift_pa_sound)
qed (use wf in \<open>simp_all add: process_execution_payload_validation_def
       process_execution_payload_invalidation_def fc_maybe_prune_def lift_pa_sound validation_sound
       invalidation_sound maybe_prune_sound\<close>)

end
