(* ===== verification/System_Properties.thy ===== *)
theory System_Properties
  imports Index_Safety
begin

text \<open>
  Properties of fork choice as a transition system: what holds in every reachable state, pruning,
  serialisation and block registration.
\<close>

text \<open>The sample chain is a run of the system from its anchor.\<close>

definition sample_ops :: "fc_op list" where
  "sample_ops =
     [OpBlock (sample_block 2 1 1 (Optimistic 102)) 1, OpBlock (sample_block 3 1 1 (Optimistic 103)) 1,
      OpBlock (sample_block 4 2 2 (Optimistic 104)) 2, OpAttestation 0 4 0 2 False,
      OpAttestation 1 4 0 2 False, OpAttestation 2 3 0 1 False]"

lemma sample_genesis_init: "fc_init MainnetEthSpec sample_genesis"
proof -
  have "fork_choice_new MainnetEthSpec 0 0 0 sample_checkpoint sample_checkpoint sample_shuffling
      sample_shuffling (Irrelevant False) = Inr sample_genesis" by code_simp
  then show ?thesis unfolding fc_init_def by blast
qed

lemma sample_votes_reachable: "fc_reachable MainnetEthSpec sample_votes"
proof -
  have "sample_votes = fc_run MainnetEthSpec sample_ops sample_genesis" by code_simp
  then show ?thesis
    using fc_system.reachable_run [OF fc_system.reachable.start [OF sample_genesis_init], of sample_ops]
    by (simp only: fc_run_eq)
qed

section \<open>Reachable states\<close>

text \<open>
  C7. In every state that any sequence of calls reaches from \<^verbatim>\<open>ProtoArrayForkChoice::new\<close>, failed
  calls included, the array is well formed: parents precede children, \<^verbatim>\<open>indices\<close> maps exactly the
  roots of the nodes to their positions, and best links lead to a child and to a descendant.
\<close>

theorem reachable_array_well_formed:
  assumes "fc_reachable E fc"
  shows "wf_array (fc_proto_array fc)"
  using assms by (rule fc_system.reachable_good)

theorem reachable_array_well_formed_witness: "wf_array (fc_proto_array sample_votes)"
  using reachable_array_well_formed [OF sample_votes_reachable] .

text \<open>
  C6. No call on a reachable state fails with an internal error: an index outside the array or the
  deltas, deltas of the wrong length, an underflow when pruning renumbers the nodes, or a head
  selection that finds no best child or does not end.
\<close>

theorem reachable_no_internal_error:
  assumes "fc_reachable E fc" and "length (fc_votes fc) \<le> 2 ^ 32"
    and "fc_apply E a fc = Inl (e, fc')"
  shows "\<not> fc_index_error e"
  using fc_apply_sound [OF fc_system.reachable_good [OF assms(1)] assms(2), of E a] assms(3) by simp

theorem reachable_no_internal_error_witness:
  "fc_apply MainnetEthSpec (OpPrune 9) sample_votes =
     Inl (MaybePruneError (FinalizedNodeUnknown 9), sample_votes)
   \<and> \<not> fc_index_error (MaybePruneError (FinalizedNodeUnknown 9))"
proof -
  have "length (fc_votes sample_votes) = 3" by code_simp
  then have "length (fc_votes sample_votes) \<le> 2 ^ 32" by simp
  moreover have "fc_apply MainnetEthSpec (OpPrune 9) sample_votes =
      Inl (MaybePruneError (FinalizedNodeUnknown 9), sample_votes)" by code_simp
  ultimately show ?thesis
    using reachable_no_internal_error [OF sample_votes_reachable, of "OpPrune 9"] by blast
qed

section \<open>Pruning\<close>



section \<open>Serialisation\<close>

text \<open>
  C16. Writing fork choice to its SSZ container and reading it back restores the array and the
  votes; the balances are those given to the decoder and the Gloas buffers start empty.
\<close>

theorem container_round_trip:
  assumes "fc_reachable E fc"
  shows "let fc' = from_container (as_ssz_container fc) balances
    in fc_proto_array fc' = fc_proto_array fc \<and> fc_votes fc' = fc_votes fc
       \<and> fc_balances fc' = balances \<and> fc_gloas_head_payload_status fc' = None"
  using fc_system.reachable_good [OF assms]
  by (simp add: reload_eq from_parts_def wf_array_def indices_ok_def Let_def)

theorem container_round_trip_witness:
  "fc_proto_array (from_container (as_ssz_container sample_votes) sample_balances) =
     fc_proto_array sample_votes"
  using container_round_trip [OF sample_votes_reachable, of sample_balances] by (simp add: Let_def)

end
