(* ===== verification/Payload_Status.thy ===== *)
theory Payload_Status
  imports Fork_Choice_System
begin

text \<open>
  What payload verdicts do to the array. A verdict is final: an optimistic payload becomes valid or
  invalid, and nothing but \<^verbatim>\<open>set_all_blocks_to_optimistic\<close> takes a verdict back. Validation marks
  the unbroken run of optimistic ancestors, invalidation of one block marks its whole subtree.
\<close>

section \<open>Verdicts are final\<close>

definition verdict :: "execution_status \<Rightarrow> execution_status \<Rightarrow> bool" where
  "verdict st st' \<longleftrightarrow> st' = st \<or> (\<exists>h. st = Optimistic h \<and> (st' = Valid h \<or> st' = Invalid h))"

definition verdicts :: "proto_node list \<Rightarrow> proto_node list \<Rightarrow> bool" where
  "verdicts ns ns' \<longleftrightarrow> length ns \<le> length ns' \<and>
     (\<forall>j < length ns. n_root (ns' ! j) = n_root (ns ! j)
        \<and> verdict (n_execution_status (ns ! j)) (n_execution_status (ns' ! j)))"

lemma verdict_refl [simp]: "verdict st st"
  by (simp add: verdict_def)

lemma verdict_trans: "verdict a b \<Longrightarrow> verdict b c \<Longrightarrow> verdict a c"
  by (auto simp: verdict_def)

lemma verdicts_refl [simp]: "verdicts ns ns"
  by (simp add: verdicts_def)

lemma verdicts_trans:
  assumes "verdicts a b" and "verdicts b c"
  shows "verdicts a c"
  unfolding verdicts_def
proof (intro conjI allI impI)
  show "length a \<le> length c" using assms by (auto simp: verdicts_def)
next
  fix j
  assume j: "j < length a"
  then have "j < length b" using assms(1) by (auto simp: verdicts_def)
  with j show "n_root (c ! j) = n_root (a ! j)"
    "verdict (n_execution_status (a ! j)) (n_execution_status (c ! j))"
    using assms verdict_trans [of _ "n_execution_status (b ! j)"] by (auto simp: verdicts_def)
qed

lemma verdicts_update:
  assumes "n_root n = n_root (ns ! i)" and "verdict (n_execution_status (ns ! i)) (n_execution_status n)"
  shows "verdicts ns (ns[i := n])"
  using assms
  by (cases "i < length ns") (auto simp: verdicts_def nth_list_update list_update_beyond)

lemma verdicts_set_node:
  assumes "n_root n = n_root (pa_nodes pa ! i)"
    and "verdict (n_execution_status (pa_nodes pa ! i)) (n_execution_status n)"
  shows "verdicts (pa_nodes pa) (pa_nodes (set_node pa i n))"
  using assms by (simp add: set_node_def verdicts_update)

abbreviation judged :: "proto_array \<Rightarrow> proto_array \<Rightarrow> bool" where
  "judged pa pa' \<equiv> verdicts (pa_nodes pa) (pa_nodes pa')"

lemma after_judged_trans:
  "judged pa pa' \<Longrightarrow> after (judged pa') r \<Longrightarrow> after (judged pa) r"
  by (erule after_mono) (rule verdicts_trans)

lemma validation_by_index_judged:
  "after (judged pa) (propagate_execution_payload_validation_by_index pa i)"
proof (induction pa i rule: propagate_execution_payload_validation_by_index.induct)
  case (1 pa i)
  show ?case
  proof (cases "i < length (pa_nodes pa)")
    case False
    then show ?thesis
      by (subst propagate_execution_payload_validation_by_index.simps) (simp add: nth_opt_def)
  next
    case True
    then have node: "nth_opt (pa_nodes pa) i = Some (pa_nodes pa ! i)" by simp
    note eq = propagate_execution_payload_validation_by_index.simps [of pa i]
    show ?thesis
    proof (cases "n_execution_status (pa_nodes pa ! i)")
      case (Optimistic h)
      let ?pa = "set_node pa i ((pa_nodes pa ! i)\<lparr>n_execution_status := Valid h\<rparr>)"
      have pa': "judged pa ?pa"
        using Optimistic by (intro verdicts_set_node) (simp_all add: verdict_def)
      have "after (judged pa) (propagate_execution_payload_validation_by_index ?pa p)"
        if "n_parent (pa_nodes pa ! i) = Some p" for p
        using after_judged_trans [OF pa' "1.IH" [OF node Optimistic refl that]] .
      then show ?thesis
        using pa' by (subst eq) (simp add: node Optimistic Let_def
            del: propagate_execution_payload_validation_by_index.simps split: option.splits)
    qed (subst eq; simp add: node)+
  qed
qed

lemma invalidate_ancestor_step_judged:
  "case invalidate_ancestor_step iop r lva i (pa, dead) of
     Inl (_, pa') \<Rightarrow> judged pa pa' | Inr ((pa', _), _) \<Rightarrow> judged pa pa'"
proof (cases "i < length (pa_nodes pa)")
  case False
  then show ?thesis by (simp add: invalidate_ancestor_step_def nth_opt_def)
next
  case True
  then show ?thesis
    by (auto simp: invalidate_ancestor_step_def nth_opt_def Let_def verdict_def
        split: option.splits execution_status.splits intro!: verdicts_set_node)
qed

lemma invalidate_ancestors_judged:
  "case invalidate_ancestors k iop r lva i (pa, dead) of
     Inl (_, pa') \<Rightarrow> judged pa pa' | Inr (pa', _) \<Rightarrow> judged pa pa'"
proof (induction k arbitrary: i pa dead)
  case 0
  then show ?case by simp
next
  case (Suc k)
  show ?case
    using invalidate_ancestor_step_judged [of pa iop r lva i dead] Suc.IH verdicts_trans
    by (cases "invalidate_ancestor_step iop r lva i (pa, dead)")
      (fastforce split: option.splits sum.splits)+
qed

lemma invalidate_descendant_step_judged:
  "case invalidate_descendant_step i (pa, dead) of
     Inl (_, pa') \<Rightarrow> judged pa pa' | Inr (pa', _) \<Rightarrow> judged pa pa'"
proof (cases "i < length (pa_nodes pa)")
  case False
  then show ?thesis by (simp add: invalidate_descendant_step_def nth_opt_def)
next
  case True
  then show ?thesis
    by (auto simp: invalidate_descendant_step_def nth_opt_def verdict_def
        split: option.splits execution_status.splits intro!: verdicts_set_node)
qed

lemma invalidate_descendants_judged:
  "case invalidate_descendants is (pa, dead) of
     Inl (_, pa') \<Rightarrow> judged pa pa' | Inr (pa', _) \<Rightarrow> judged pa pa'"
proof (induction "is" arbitrary: pa dead)
  case Nil
  then show ?case by simp
next
  case (Cons i "is")
  show ?case
    using invalidate_descendant_step_judged [of pa i dead] Cons.IH verdicts_trans
    by (cases "invalidate_descendant_step i (pa, dead)") (fastforce split: sum.splits)+
qed

lemma validation_judged: "after (judged pa) (propagate_execution_payload_validation pa r)"
  using validation_by_index_judged
  by (simp add: propagate_execution_payload_validation_def after_with_state
      del: propagate_execution_payload_validation_by_index.simps split: sum.splits)

lemma invalidation_judged: "after (judged pa) (propagate_execution_payload_invalidation E pa iop)"
proof (cases "hm_get (pa_indices pa) (op_block_root iop)")
  case None
  then show ?thesis by (simp add: propagate_execution_payload_invalidation_def)
next
  case (Some i)
  let ?lva_root = "Option.bind (op_latest_valid_ancestor iop)
    (execution_block_hash_to_beacon_block_root pa)"
  let ?lva = "case ?lva_root of None \<Rightarrow> False
    | Some r \<Rightarrow> is_descendant pa r (op_block_root iop) \<and> is_finalized_checkpoint_or_descendant E pa r"
  let ?r = "invalidate_ancestors (length (pa_nodes pa)) iop (op_block_root iop) ?lva i (pa, {})"
  have anc: "case ?r of Inl (_, pa') \<Rightarrow> judged pa pa' | Inr (pa', _) \<Rightarrow> judged pa pa'"
    by (rule invalidate_ancestors_judged)
  have "after (judged pa) (bind_r (invalidate_descendants is (q, dead)) (\<lambda>(pa2, _). Inr pa2))"
    if "judged pa q" for q "is" dead
    using invalidate_descendants_judged [of q "is" dead] verdicts_trans [OF that]
    by (cases "invalidate_descendants is (q, dead)") auto
  then show ?thesis
    using Some anc
    by (cases ?r) (auto simp: propagate_execution_payload_invalidation_def Let_def after_with_state
        split: sum.splits)
qed

lemma verdicts_bare:
  "map bare ns' = map bare ns \<Longrightarrow> verdicts ns ns'"
proof -
  assume eq: "map bare ns' = map bare ns"
  then have len: "length ns' = length ns" by (rule map_eq_imp_length_eq)
  have "bare (ns' ! j) = bare (ns ! j)" if "j < length ns" for j
    using arg_cong [OF eq, of "\<lambda>xs. xs ! j"] that len by simp
  note same = bare_eq_fields [OF this]
  show ?thesis using len same(1) same(5) by (simp add: verdicts_def)
qed

lemma judged_bare_array: "bare_array pa' = bare_array pa \<Longrightarrow> judged pa pa'"
  by (drule arg_cong [where f = pa_nodes]) (simp add: bare_array_def verdicts_bare)

lemma judged_appended: "judged pa (appended pa b)"
  by (simp add: verdicts_def appended_def nth_append)

lemma on_block_judged:
  assumes wf: "wf_array pa"
  shows "after (judged pa) (on_block E pa b s)"
proof (cases "hm_contains_key (pa_indices pa) (b_root b)")
  case True
  then show ?thesis by (simp add: on_block_known)
next
  case fresh: False
  show ?thesis
  proof (cases "n_parent (node_of_block pa b)")
    case None
    then show ?thesis using fresh by (simp add: on_block_no_parent judged_appended)
  next
    case (Some p)
    let ?pa = "update_best E s (appended pa b) p (length (pa_nodes pa))"
    have "judged pa ?pa"
      using verdicts_trans [OF judged_appended judged_bare_array] bare_update_best by blast
    then show ?thesis
      using after_judged_trans [OF _ validation_by_index_judged]
      unfolding on_block_parent [OF wf fresh Some] by (simp add: Let_def
          del: propagate_execution_payload_validation_by_index.simps)
  qed
qed

lemma apply_weight_step_judged:
  "case apply_weight_step E spec balances boost_root i (pa, deltas, sc) of
     Inl (_, pa') \<Rightarrow> judged pa pa' | Inr (pa', _, _) \<Rightarrow> judged pa pa'"
proof (cases "i < length (pa_nodes pa)")
  case False
  then show ?thesis by (simp add: apply_weight_step_def nth_opt_def)
next
  case True
  let ?node = "pa_nodes pa ! i"
  let ?d = "boosted_delta E spec balances boost_root (pa_previous_proposer_boost pa) i ?node deltas sc"
  have "judged pa (set_node pa i (?node\<lparr>n_weight := w\<rparr>))" for w
    by (intro verdicts_set_node) simp_all
  then show ?thesis
    using True
    by (cases ?d; cases "apply_delta i ?node (fst (projr ?d))")
      (auto simp: apply_weight_step_def nth_opt_def Let_def split: option.splits)
qed

lemma apply_weight_loop_judged:
  "case apply_weight_loop E spec balances boost_root k (pa, deltas, sc) of
     Inl (_, pa') \<Rightarrow> judged pa pa' | Inr (pa', _, _) \<Rightarrow> judged pa pa'"
proof (induction k arbitrary: pa deltas sc)
  case 0
  then show ?case by simp
next
  case (Suc i)
  note step = apply_weight_step_judged [of pa E spec balances boost_root i deltas sc]
  show ?case
  proof (cases "apply_weight_step E spec balances boost_root i (pa, deltas, sc)")
    case (Inl e)
    then show ?thesis using step by simp
  next
    case (Inr x)
    obtain pa' deltas' sc' where x: "x = (pa', deltas', sc')" by (cases x)
    then have pa': "judged pa pa'" using step Inr by simp
    show ?thesis
      using Suc.IH [of pa' deltas' sc'] verdicts_trans [OF pa'] Inr x
      by (cases "apply_weight_loop E spec balances boost_root i (pa', deltas', sc')") auto
  qed
qed

lemma apply_score_changes_judged:
  assumes wf: "wf_array pa"
  shows "after (judged pa) (apply_score_changes E pa deltas jc fin balances boost_root s spec)"
proof -
  let ?pa1 = "if jc \<noteq> pa_justified_checkpoint pa \<or> fin \<noteq> pa_finalized_checkpoint pa
    then pa\<lparr>pa_justified_checkpoint := jc, pa_finalized_checkpoint := fin\<rparr> else pa"
  let ?r = "apply_weight_loop E spec balances boost_root (length (pa_nodes ?pa1)) (?pa1, deltas, 0)"
  have wf1: "wf_array ?pa1" using wf by simp
  have nodes: "pa_nodes ?pa1 = pa_nodes pa" by simp
  have r: "case ?r of Inl (_, pa') \<Rightarrow> judged pa pa' | Inr (pa', _, _) \<Rightarrow> judged pa pa'"
    using apply_weight_loop_judged [of ?pa1 E spec balances boost_root "length (pa_nodes ?pa1)" deltas 0]
    unfolding nodes .
  have r_wf: "case ?r of Inl (_, pa) \<Rightarrow> wf_array pa | Inr (pa, _, _) \<Rightarrow> wf_array pa"
    using wf1 by (intro apply_weight_loop_wf) simp
  have "after (judged pa) (update_best_loop E s (length (pa_nodes q)) (q\<lparr>pa_previous_proposer_boost := b\<rparr>))"
    if "wf_array q" "judged pa q" for q b
  proof -
    let ?q = "q\<lparr>pa_previous_proposer_boost := b\<rparr>"
    have q: "wf_array ?q" "pa_nodes ?q = pa_nodes q" using that by simp_all
    then have "judged ?q (best_pass E s (length (pa_nodes q)) ?q)"
      using best_pass_keeps [OF q(1), of "length (pa_nodes q)" E s] by (intro judged_bare_array) simp
    then have "judged pa (best_pass E s (length (pa_nodes q)) ?q)"
      using verdicts_trans [OF that(2)] q(2) by simp
    then show ?thesis using q by (simp add: update_best_loop_total)
  qed
  then show ?thesis
    using r r_wf unfolding apply_score_changes_def Let_def by (cases ?r) (auto split: if_splits)
qed

definition keeps_verdicts :: "fork_choice \<Rightarrow> fork_choice \<Rightarrow> bool" where
  "keeps_verdicts fc fc' \<longleftrightarrow>
     (\<forall>r st st'. get_block_execution_status fc r = Some st \<longrightarrow>
        get_block_execution_status fc' r = Some st' \<longrightarrow> verdict st st')"

lemma keeps_verdicts_judged:
  assumes "fc_wf fc" and "fc_wf fc'" and "judged (fc_proto_array fc) (fc_proto_array fc')"
  shows "keeps_verdicts fc fc'"
  unfolding keeps_verdicts_def
proof (intro allI impI)
  fix r st st'
  assume st: "get_block_execution_status fc r = Some st" "get_block_execution_status fc' r = Some st'"
  let ?ns = "pa_nodes (fc_proto_array fc)" and ?ns' = "pa_nodes (fc_proto_array fc')"
  obtain i where i: "i < length ?ns" "n_root (?ns ! i) = r" "st = n_execution_status (?ns ! i)"
    using st(1) by (auto simp: get_block_execution_status_def wf_array_get_node [OF assms(1)])
  obtain j where j: "j < length ?ns'" "n_root (?ns' ! j) = r" "st' = n_execution_status (?ns' ! j)"
    using st(2) by (auto simp: get_block_execution_status_def wf_array_get_node [OF assms(2)])
  have "n_root (?ns' ! i) = r" "i < length ?ns'" and v: "verdict st (n_execution_status (?ns' ! i))"
    using assms(3) i by (auto simp: verdicts_def)
  then have "i = j" using wf_root_inj [OF assms(2), of i j] j by simp
  then show "verdict st st'" using v j by simp
qed

lemma keeps_verdicts_same_nodes:
  "pa_nodes (fc_proto_array fc') = pa_nodes (fc_proto_array fc) \<Longrightarrow>
   pa_indices (fc_proto_array fc') = pa_indices (fc_proto_array fc) \<Longrightarrow> keeps_verdicts fc fc'"
  by (auto simp: keeps_verdicts_def get_block_execution_status_def get_node_def)

lemma lift_pa_verdicts:
  assumes "fc_wf fc" and "after wf_array r" and "after (judged (fc_proto_array fc)) r"
  shows "after (keeps_verdicts fc) (lift_pa f fc r)"
  using assms keeps_verdicts_judged [OF assms(1), of "fc\<lparr>fc_proto_array := _\<rparr>"]
  by (cases r) (auto simp: lift_pa_def)

lemma prune_verdicts:
  assumes wf: "fc_wf fc"
  shows "after (keeps_verdicts fc) (fc_maybe_prune fc r)"
proof (cases "hm_get (pa_indices (fc_proto_array fc)) r")
  case None
  then show ?thesis
    using wf by (simp add: fc_maybe_prune_def maybe_prune_eq lift_pa_def keeps_verdicts_same_nodes)
next
  case (Some f)
  have "verdict st st'" if st: "get_block_execution_status fc q = Some st"
    "map_option n_execution_status (get_node (pruned_array f (fc_proto_array fc)) q) = Some st'" for q st st'
  proof -
    obtain i where i: "hm_get (pa_indices (fc_proto_array fc)) q = Some i"
      "st = n_execution_status (pa_nodes (fc_proto_array fc) ! i)"
      using st(1) by (auto simp: get_block_execution_status_def get_node_def bind_eq_Some_conv)
    then show ?thesis using st(2) pruned_get_node [OF wf Some i(1)] by (auto simp: shifted_def split: if_splits)
  qed
  then show ?thesis
    using wf Some
    by (simp add: fc_maybe_prune_def maybe_prune_eq lift_pa_def keeps_verdicts_same_nodes)
      (simp add: keeps_verdicts_def get_block_execution_status_def)
qed

lemma find_head_verdicts:
  assumes wf: "fc_wf fc"
  shows "after_head (keeps_verdicts fc) (fc_find_head E fc jc fin bal boost eq s spec)"
proof (cases "is_gloas_slot E spec s")
  case True
  show ?thesis
    unfolding fc_find_head_def fc_find_head_gloas_def Let_def if_P [OF True]
    by (rule after_head_mono [OF find_head_gloas_core])
      (rule keeps_verdicts_same_nodes; simp add: set_checkpoints_def)
next
  case False
  have "after_head (keeps_verdicts fc) (fc_find_head_ffg E fc jc fin bal boost eq s spec)"
  proof (cases "compute_deltas (pa_indices (fc_proto_array fc)) (fc_votes fc)
      (effective_balances (fc_balances fc)) (effective_balances bal) eq")
    case (Inl x)
    then show ?thesis by (cases x) (simp add: fc_find_head_ffg_def keeps_verdicts_same_nodes)
  next
    case (Inr x)
    obtain deltas votes where x: "x = (deltas, votes)" by (cases x)
    let ?r = "apply_score_changes E (fc_proto_array fc) deltas jc fin bal boost s spec"
    have "after wf_array ?r" "after (judged (fc_proto_array fc)) ?r"
      using wf by (simp_all add: apply_score_changes_wf apply_score_changes_judged)
    moreover have "after_head (keeps_verdicts fc) (bind_r (with_state q m) (\<lambda>h. Inr (h, q)))"
      if "fc_wf q" "judged (fc_proto_array fc) (fc_proto_array q)" for q m
      using keeps_verdicts_judged [OF wf that] by (cases m) simp_all
    moreover have "keeps_verdicts fc (fc\<lparr>fc_votes := votes, fc_proto_array := pa\<rparr>)"
      if "wf_array pa" "judged (fc_proto_array fc) pa" for pa
      using that by (intro keeps_verdicts_judged wf) simp_all
    ultimately show ?thesis
      using Inr x by (cases ?r) (auto simp: fc_find_head_ffg_def lift_pa_def Let_def)
  qed
  then show ?thesis using False by (simp add: fc_find_head_def)
qed

fun resets_statuses :: "fc_op \<Rightarrow> bool" where
  "resets_statuses (OpSetAllOptimistic _) = True"
| "resets_statuses _ = False"

lemma fc_apply_verdicts:
  assumes wf: "fc_wf fc" and "\<not> resets_statuses a"
  shows "after (keeps_verdicts fc) (fc_apply E a fc)"
proof (cases a)
  case (OpBlock b s)
  then show ?thesis
    using lift_pa_verdicts [OF wf on_block_wf [OF wf] on_block_judged [OF wf]]
    by (simp add: process_block_def keeps_verdicts_same_nodes)
next
  case (OpReload bal)
  then show ?thesis
    using wf by (simp add: reload_eq wf_array_def indices_ok_def from_parts_def keeps_verdicts_same_nodes)
next
  case (OpFindHead jc fin bal boost eq s spec)
  then show ?thesis using find_head_verdicts [OF wf] by simp
qed (use assms in \<open>simp_all add: process_execution_payload_validation_def
       process_execution_payload_invalidation_def process_attestation_def set_prune_threshold_def
       keeps_verdicts_same_nodes prune_verdicts lift_pa_verdicts validation_wf validation_judged
       invalidation_wf invalidation_judged\<close>)

end
