(* ===== verification/Payload_Propagation.thy ===== *)
theory Payload_Propagation
  imports Payload_Status Sample_Chain
begin

text \<open>
  Exactly which blocks a payload verdict reaches: validation the unbroken run of optimistic
  ancestors, invalidation of one block the block and its descendants.
\<close>

section \<open>Validation\<close>

definition optimistic_at :: "proto_node list \<Rightarrow> usize \<Rightarrow> bool" where
  "optimistic_at ns i = is_strictly_optimistic (n_execution_status (ns ! i))"

fun validated_status :: "execution_status \<Rightarrow> execution_status" where
  "validated_status (Optimistic h) = Valid h"
| "validated_status st = st"

definition validate_node :: "proto_node \<Rightarrow> proto_node" where
  "validate_node n = n\<lparr>n_execution_status := validated_status (n_execution_status n)\<rparr>"

text \<open>The array in which the nodes at the given positions are validated.\<close>

definition validated_array :: "usize list \<Rightarrow> proto_array \<Rightarrow> proto_array" where
  "validated_array is pa = pa\<lparr>pa_nodes :=
     map (\<lambda>j. if j \<in> set is then validate_node (pa_nodes pa ! j) else pa_nodes pa ! j)
       [0 ..< length (pa_nodes pa)]\<rparr>"

lemma validated_array_nth:
  "j < length (pa_nodes pa) \<Longrightarrow> pa_nodes (validated_array is pa) ! j =
     (if j \<in> set is then validate_node (pa_nodes pa ! j) else pa_nodes pa ! j)"
  by (simp add: validated_array_def)

lemma validated_array_length [simp]: "length (pa_nodes (validated_array is pa)) = length (pa_nodes pa)"
  by (simp add: validated_array_def)

lemma validated_array_Nil [simp]: "validated_array [] pa = pa"
  by (simp add: validated_array_def map_nth)

lemma validated_array_Cons:
  assumes "i < length (pa_nodes pa)" and "i \<notin> set is"
  shows "validated_array is (set_node pa i (validate_node (pa_nodes pa ! i))) = validated_array (i # is) pa"
proof -
  have "pa_nodes (validated_array is (set_node pa i (validate_node (pa_nodes pa ! i)))) =
      pa_nodes (validated_array (i # is) pa)"
    using assms by (intro nth_equalityI) (auto simp: validated_array_nth set_node_def nth_list_update)
  then show ?thesis by (simp add: validated_array_def set_node_def)
qed

lemma set_status_skeleton:
  "skeleton (pa_nodes (set_node pa i (validate_node (pa_nodes pa ! i)))) = skeleton (pa_nodes pa)"
  unfolding set_node_def by (simp add: skeleton_update validate_node_def)

text \<open>The outcome once the run of optimistic nodes ends in the rest of the chain.\<close>

definition validation_outcome :: "proto_array \<Rightarrow> usize list \<Rightarrow> (proto_error, proto_array) outcome" where
  "validation_outcome pa chain =
     (let run = takeWhile (optimistic_at (pa_nodes pa)) chain;
          pa' = validated_array run pa
      in case dropWhile (optimistic_at (pa_nodes pa)) chain of
           [] \<Rightarrow> Inr pa'
         | j # _ \<Rightarrow>
             (case n_execution_status (pa_nodes pa ! j) of
                Invalid h \<Rightarrow> Inl (InvalidAncestorOfValidPayload (n_root (pa_nodes pa ! j)) h, pa')
              | _ \<Rightarrow> Inr pa'))"

lemma validation_outcome_step:
  assumes i: "i < length (pa_nodes pa)" and opt: "optimistic_at (pa_nodes pa) i"
    and below: "\<And>j. j \<in> set chain \<Longrightarrow> j < i"
  shows "validation_outcome (set_node pa i (validate_node (pa_nodes pa ! i))) chain =
    validation_outcome pa (i # chain)"
proof -
  let ?pa = "set_node pa i (validate_node (pa_nodes pa ! i))"
  have nth: "pa_nodes ?pa ! j = pa_nodes pa ! j" if "j \<in> set chain" for j
    using below [OF that] by (simp add: set_node_def)
  then have run: "takeWhile (optimistic_at (pa_nodes ?pa)) chain = takeWhile (optimistic_at (pa_nodes pa)) chain"
    "dropWhile (optimistic_at (pa_nodes ?pa)) chain = dropWhile (optimistic_at (pa_nodes pa)) chain"
    by (auto intro!: takeWhile_cong dropWhile_cong simp: optimistic_at_def)
  have arr: "validated_array (takeWhile (optimistic_at (pa_nodes pa)) chain) ?pa =
      validated_array (i # takeWhile (optimistic_at (pa_nodes pa)) chain) pa"
    using i below by (intro validated_array_Cons) (auto dest: set_takeWhileD)
  have head: "takeWhile (optimistic_at (pa_nodes pa)) (i # chain) =
      i # takeWhile (optimistic_at (pa_nodes pa)) chain"
    "dropWhile (optimistic_at (pa_nodes pa)) (i # chain) = dropWhile (optimistic_at (pa_nodes pa)) chain"
    using opt by simp_all
  show ?thesis
  proof (cases "dropWhile (optimistic_at (pa_nodes pa)) chain")
    case Nil
    then show ?thesis by (simp only: validation_outcome_def Let_def run arr head list.case)
  next
    case (Cons j js)
    then have j: "pa_nodes ?pa ! j = pa_nodes pa ! j"
      using nth set_dropWhileD [of j "optimistic_at (pa_nodes pa)" chain] by simp
    show ?thesis by (simp only: validation_outcome_def Let_def run arr head Cons list.case j)
  qed
qed

lemma validation_by_index_eq:
  assumes "wf_array pa" and "i < length (pa_nodes pa)"
  shows "propagate_execution_payload_validation_by_index pa i =
    validation_outcome pa (ancestors (pa_nodes pa) i)"
  using assms
proof (induction pa i rule: propagate_execution_payload_validation_by_index.induct)
  case (1 pa i)
  have node: "nth_opt (pa_nodes pa) i = Some (pa_nodes pa ! i)" using "1.prems" by simp
  note eq = propagate_execution_payload_validation_by_index.simps [of pa i]
  have par: "parent_idx (pa_nodes pa) i = n_parent (pa_nodes pa ! i)"
    using "1.prems" by (rule wf_array_parent_idx)
  note anc = ancestors.simps [of "pa_nodes pa" i]
  show ?case
  proof (cases "n_execution_status (pa_nodes pa ! i)")
    case (Optimistic h)
    let ?pa = "set_node pa i (validate_node (pa_nodes pa ! i))"
    have v: "validate_node (pa_nodes pa ! i) = (pa_nodes pa ! i)\<lparr>n_execution_status := Valid h\<rparr>"
      using Optimistic by (simp add: validate_node_def)
    have wf: "wf_array ?pa" unfolding v using "1.prems" by (rule wf_set_status)
    have opt: "optimistic_at (pa_nodes pa) i" using Optimistic by (simp add: optimistic_at_def)
    show ?thesis
    proof (cases "n_parent (pa_nodes pa ! i)")
      case None
      then have "ancestors (pa_nodes pa) i = [i]" using anc par by simp
      then show ?thesis
        using None opt validated_array_Cons [OF "1.prems"(2), of "[]"]
        by (subst eq) (simp add: node Optimistic v [symmetric] Let_def validation_outcome_def)
    next
      case (Some p)
      then have p: "parent_idx (pa_nodes pa) i = Some p" using par by simp
      have "propagate_execution_payload_validation_by_index ?pa p =
          validation_outcome ?pa (ancestors (pa_nodes ?pa) p)"
        using "1.IH" [OF node Optimistic refl Some] wf parent_idx_in_range(2) [OF p] by (simp add: v)
      also have "ancestors (pa_nodes ?pa) p = ancestors (pa_nodes pa) p"
        using skeleton_ancestors [OF set_status_skeleton] by simp
      also have "validation_outcome ?pa (ancestors (pa_nodes pa) p) =
          validation_outcome pa (i # ancestors (pa_nodes pa) p)"
        using "1.prems"(2) opt tree.anc_le [of _ "pa_nodes pa" p] parent_idx_less [OF p]
        by (intro validation_outcome_step) fastforce+
      finally show ?thesis
        using anc p Some by (subst eq) (simp add: node Optimistic v [symmetric] Let_def
            del: propagate_execution_payload_validation_by_index.simps)
    qed
  qed (subst eq, subst anc, simp add: node validation_outcome_def optimistic_at_def)+
qed

section \<open>Descendants of invalidated nodes\<close>

fun invalidated_status :: "execution_status \<Rightarrow> execution_status" where
  "invalidated_status (Optimistic h) = Invalid h"
| "invalidated_status st = st"

definition invalidate_node :: "proto_node \<Rightarrow> proto_node" where
  "invalidate_node n = n\<lparr>n_execution_status := invalidated_status (n_execution_status n)\<rparr>"

definition below :: "proto_node list \<Rightarrow> usize set \<Rightarrow> usize set" where
  "below ns S = {j. \<exists>a \<in> S. a \<in> set (ancestors ns j)}"


text \<open>The nodes that the forwards loop has to invalidate: those whose parent is in the tree below.\<close>

definition under :: "proto_node list \<Rightarrow> usize set \<Rightarrow> usize \<Rightarrow> bool" where
  "under ns S j = (case parent_idx ns j of Some p \<Rightarrow> p \<in> below ns S | None \<Rightarrow> False)"

definition invalidate_from :: "usize set \<Rightarrow> usize \<Rightarrow> proto_array \<Rightarrow> proto_array" where
  "invalidate_from S k pa = pa\<lparr>pa_nodes :=
     map (\<lambda>j. if k \<le> j \<and> under (pa_nodes pa) S j
              then invalidate_node (pa_nodes pa ! j) else pa_nodes pa ! j)
       [0 ..< length (pa_nodes pa)]\<rparr>"


lemma invalidate_from_length [simp]: "length (pa_nodes (invalidate_from S k pa)) = length (pa_nodes pa)"
  by (simp add: invalidate_from_def)








section \<open>Invalidating one block\<close>






section \<open>Properties\<close>



text \<open>
  C11. A valid payload validates its optimistic ancestors. The call turns exactly the unbroken run of
  optimistic blocks from the given one upwards valid and stops at the first block that is valid or
  has no payload; if the run ends in an invalid block it reports that block.
\<close>

theorem validation_reaches_optimistic_run:
  assumes "wf_array pa" and "hm_get (pa_indices pa) root = Some i"
  shows "propagate_execution_payload_validation pa root =
    validation_outcome pa (ancestors (pa_nodes pa) i)"
proof -
  have "i < length (pa_nodes pa)" using wf_array_lookup [OF assms(1)] assms(2) by blast
  then show ?thesis
    using validation_by_index_eq [OF assms(1), of i] assms(2)
    by (simp add: propagate_execution_payload_validation_def
        del: propagate_execution_payload_validation_by_index.simps)
qed

theorem validation_reaches_optimistic_run_witness:
  "propagate_execution_payload_validation (fc_proto_array sample_votes) 4 =
     validation_outcome (fc_proto_array sample_votes) [3, 1, 0]"
proof -
  have "wf_array (fc_proto_array sample_votes)" by code_simp
  moreover have "hm_get (pa_indices (fc_proto_array sample_votes)) 4 = Some 3" by code_simp
  moreover have "ancestors (pa_nodes (fc_proto_array sample_votes)) 3 = [3, 1, 0]" by code_simp
  ultimately show ?thesis using validation_reaches_optimistic_run by metis
qed



end
