(* ===== verification/Int_To_Bytes.thy ===== *)
theory Int_To_Bytes
  imports Consensus_Prelude
begin

text \<open>
  Little-endian byte strings, \<^verbatim>\<open>consensus/int_to_bytes/src/lib.rs\<close>. The standard library's
  \<^verbatim>\<open>to_le_bytes\<close> and \<^verbatim>\<open>from_le_bytes\<close> are the two recursions at the top.
\<close>

type_synonym u16 = "16 word"

primrec to_le_bytes :: "nat \<Rightarrow> nat \<Rightarrow> u8 list" where
  "to_le_bytes 0 n = []"
| "to_le_bytes (Suc k) n = of_nat (n mod 256) # to_le_bytes k (n div 256)"

fun from_le_bytes :: "u8 list \<Rightarrow> nat" where
  "from_le_bytes [] = 0"
| "from_le_bytes (b # bs) = unat b + 256 * from_le_bytes bs"

section \<open>Conversions of the crate\<close>

definition int_to_bytes1 :: "u8 \<Rightarrow> u8 list" where
  "int_to_bytes1 i = [i]"

definition int_to_bytes2 :: "u16 \<Rightarrow> u8 list" where
  "int_to_bytes2 i = to_le_bytes 2 (unat i)"

definition int_to_bytes3 :: "u32 \<Rightarrow> u8 list option" where
  "int_to_bytes3 i =
     (if i < 2 ^ (3 * 8) then let le = to_le_bytes 4 (unat i) in Some [le ! 0, le ! 1, le ! 2]
      else None)"

definition int_to_bytes4 :: "u32 \<Rightarrow> u8 list" where
  "int_to_bytes4 i = to_le_bytes 4 (unat i)"

definition int_to_bytes8 :: "u64 \<Rightarrow> u8 list" where
  "int_to_bytes8 i = to_le_bytes 8 (unat i)"

text \<open>\<^verbatim>\<open>bytes[..8].copy_from_slice(..)\<close> into a zeroed array of \<open>n\<close> bytes\<close>

definition copy_prefix :: "u8 list \<Rightarrow> nat \<Rightarrow> u8 list" where
  "copy_prefix bs n = bs @ drop (length bs) (replicate n 0)"

definition int_to_bytes32 :: "u64 \<Rightarrow> u8 list" where
  "int_to_bytes32 i = copy_prefix (to_le_bytes 8 (unat i)) 32"

definition int_to_bytes48 :: "u64 \<Rightarrow> u8 list" where
  "int_to_bytes48 i = copy_prefix (to_le_bytes 8 (unat i)) 48"

definition int_to_bytes96 :: "u64 \<Rightarrow> u8 list" where
  "int_to_bytes96 i = copy_prefix (to_le_bytes 8 (unat i)) 96"

section \<open>Round trips\<close>

lemma length_to_le_bytes [simp]: "length (to_le_bytes k n) = k"
  by (induction k arbitrary: n) simp_all

lemma from_to_le_bytes: "from_le_bytes (to_le_bytes k n) = n mod 256 ^ k"
proof (induction k arbitrary: n)
  case 0
  then show ?case by simp
next
  case (Suc k)
  have "unat (of_nat (n mod 256) :: u8) = n mod 256" by (simp add: unat_of_nat)
  then show ?case using Suc [of "n div 256"] by (simp add: mod_mult2_eq add.commute)
qed

lemma from_le_bytes_append: "from_le_bytes (xs @ ys) = from_le_bytes xs + 256 ^ length xs * from_le_bytes ys"
  by (induction xs) (simp_all add: algebra_simps)

lemma from_le_bytes_zeros [simp]: "from_le_bytes (replicate n 0) = 0"
  by (induction n) simp_all

lemma from_le_bytes_less: "from_le_bytes bs < 256 ^ length bs"
proof (induction bs)
  case Nil
  then show ?case by simp
next
  case (Cons b bs)
  have "unat b < 256" using unsigned_less [of b, where 'a = nat] by simp
  moreover have "from_le_bytes bs + 1 \<le> 256 ^ length bs" using Cons by simp
  ultimately show ?case by simp
qed

lemma to_from_le_bytes: "to_le_bytes (length bs) (from_le_bytes bs) = bs"
proof (induction bs)
  case Nil
  then show ?case by simp
next
  case (Cons b bs)
  have "unat b < 256" using unsigned_less [of b, where 'a = nat] by simp
  then have "(unat b + 256 * from_le_bytes bs) mod 256 = unat b"
    "(unat b + 256 * from_le_bytes bs) div 256 = from_le_bytes bs" by simp_all
  then show ?case using Cons by simp
qed

lemma to_le_bytes_mono: "k \<le> m \<Longrightarrow> take k (to_le_bytes m n) = to_le_bytes k n"
proof (induction k arbitrary: m n)
  case (Suc k)
  then show ?case by (cases m) simp_all
qed simp

lemma from_le_bytes_prefix: "from_le_bytes (copy_prefix bs n) = from_le_bytes bs"
  by (simp add: copy_prefix_def from_le_bytes_append)

lemma unat_mod_width:
  "unat (a :: u8) mod 256 = unat a" "unat (b :: u16) mod 65536 = unat b"
  "unat (c :: u32) mod 4294967296 = unat c" "unat (d :: u64) mod 18446744073709551616 = unat d"
  using unsigned_less [of a, where 'a = nat] unsigned_less [of b, where 'a = nat]
    unsigned_less [of c, where 'a = nat] unsigned_less [of d, where 'a = nat] by simp_all

lemma first_three: "3 \<le> length xs \<Longrightarrow> [xs ! 0, xs ! 1, xs ! 2] = take 3 xs"
  by (rule nth_equalityI) (auto simp: less_Suc_eq numeral_3_eq_3 numeral_2_eq_2)

lemma int_to_bytes3_eq:
  "int_to_bytes3 i = (if unat i < 2 ^ 24 then Some (to_le_bytes 3 (unat i)) else None)"
proof -
  have "i < 2 ^ (3 * 8) \<longleftrightarrow> unat i < 2 ^ 24" by (simp add: word_less_nat_alt)
  moreover have "[to_le_bytes 4 n ! 0, to_le_bytes 4 n ! 1, to_le_bytes 4 n ! 2] = to_le_bytes 3 n" for n
    using first_three [of "to_le_bytes 4 n"] to_le_bytes_mono [of 3 4 n] by simp
  ultimately show ?thesis by (simp add: int_to_bytes3_def Let_def)
qed

text \<open>C37. The byte strings have the length that the name states and read back as the integer; the three byte
  conversion refuses exactly the integers that do not fit.\<close>

theorem int_to_bytes_round_trip:
  fixes a :: u8 and b :: u16 and c :: u32 and d :: u64
  shows "length (int_to_bytes1 a) = 1 \<and> from_le_bytes (int_to_bytes1 a) = unat a
    \<and> length (int_to_bytes2 b) = 2 \<and> from_le_bytes (int_to_bytes2 b) = unat b
    \<and> length (int_to_bytes4 c) = 4 \<and> from_le_bytes (int_to_bytes4 c) = unat c
    \<and> length (int_to_bytes8 d) = 8 \<and> from_le_bytes (int_to_bytes8 d) = unat d
    \<and> length (int_to_bytes32 d) = 32 \<and> from_le_bytes (int_to_bytes32 d) = unat d
    \<and> length (int_to_bytes48 d) = 48 \<and> from_le_bytes (int_to_bytes48 d) = unat d
    \<and> length (int_to_bytes96 d) = 96 \<and> from_le_bytes (int_to_bytes96 d) = unat d
    \<and> (case int_to_bytes3 c of
         Some bs \<Rightarrow> unat c < 2 ^ 24 \<and> length bs = 3 \<and> from_le_bytes bs = unat c
       | None \<Rightarrow> 2 ^ 24 \<le> unat c)"
proof -
  note defs = int_to_bytes1_def int_to_bytes2_def int_to_bytes4_def int_to_bytes8_def
    int_to_bytes32_def int_to_bytes48_def int_to_bytes96_def
  have len: "length (copy_prefix (to_le_bytes 8 n) m) = m" if "8 \<le> m" for n m
    using that by (simp add: copy_prefix_def)
  show ?thesis
    by (simp add: defs len from_le_bytes_prefix from_to_le_bytes unat_mod_width int_to_bytes3_eq)
qed

end
