(* ===== verification/Shuffle.thy ===== *)
theory Shuffle
  imports Int_To_Bytes "HOL-Library.Multiset"
begin

text \<open>
  The swap-or-not shuffle of \<^verbatim>\<open>consensus/swap_or_not_shuffle\<close>: \<^verbatim>\<open>compute_shuffled_index.rs\<close> for one
  index, \<^verbatim>\<open>shuffle_list.rs\<close> for a whole list. SHA-256 is the external crate \<^verbatim>\<open>ethereum_hashing\<close>: the
  parameter \<open>H\<close> from byte strings to digests; nothing is assumed of it.
\<close>

section \<open>Bytes\<close>

text \<open>\<^verbatim>\<open>position.to_le_bytes()[0..4]\<close>\<close>

definition le_bytes4 :: "usize \<Rightarrow> u8 list" where
  "le_bytes4 position = take 4 (to_le_bytes 8 position)"

section \<open>One index\<close>

definition bytes_to_int64 :: "u8 list \<Rightarrow> nat" where
  "bytes_to_int64 bytes = from_le_bytes (take 8 bytes)"

definition hash_with_round :: "(u8 list \<Rightarrow> u8 list) \<Rightarrow> u8 list \<Rightarrow> u8 \<Rightarrow> u8 list" where
  "hash_with_round H seed round = H (seed @ [round])"

definition hash_with_round_and_position ::
    "(u8 list \<Rightarrow> u8 list) \<Rightarrow> u8 list \<Rightarrow> u8 \<Rightarrow> usize \<Rightarrow> u8 list" where
  "hash_with_round_and_position H seed round position =
     H (seed @ [round] @ le_bytes4 (position div 256))"

definition do_round ::
    "(u8 list \<Rightarrow> u8 list) \<Rightarrow> u8 list \<Rightarrow> usize \<Rightarrow> usize \<Rightarrow> u8 \<Rightarrow> usize \<Rightarrow> usize" where
  "do_round H seed index pivot round list_size =
     (let flip = (pivot + (list_size - index)) mod list_size;
          position = max index flip;
          source = hash_with_round_and_position H seed round position;
          byte = source ! ((position mod 256) div 8);
          bit = drop_bit (position mod 8) byte mod 2
      in if bit = 1 then flip else index)"

fun shuffle_index_rounds ::
    "(u8 list \<Rightarrow> u8 list) \<Rightarrow> u8 list \<Rightarrow> usize \<Rightarrow> nat list \<Rightarrow> usize \<Rightarrow> usize" where
  "shuffle_index_rounds H seed list_size [] index = index"
| "shuffle_index_rounds H seed list_size (round # rs) index =
     (let pivot = bytes_to_int64 (hash_with_round H seed (of_nat round)) mod list_size
      in shuffle_index_rounds H seed list_size rs
           (do_round H seed index pivot (of_nat round) list_size))"

definition compute_shuffled_index ::
    "(u8 list \<Rightarrow> u8 list) \<Rightarrow> usize \<Rightarrow> usize \<Rightarrow> u8 list \<Rightarrow> u8 \<Rightarrow> usize option" where
  "compute_shuffled_index H index list_size seed shuffle_round_count =
     (if list_size = 0 \<or> list_size \<le> index \<or> (2 ^ 64 - 1) div 2 < list_size \<or> 2 ^ 24 < list_size
      then None
      else Some (shuffle_index_rounds H seed list_size [0 ..< unat shuffle_round_count] index))"

section \<open>A whole list\<close>

text \<open>\<^verbatim>\<open>Buf\<close>: the seed, the round and a four byte window for the position.\<close>

definition buf_new :: "u8 list \<Rightarrow> u8 list option" where
  "buf_new seed = (if length seed = 32 then Some (seed @ replicate 5 0) else None)"

definition buf_set_round :: "u8 list \<Rightarrow> u8 \<Rightarrow> u8 list" where
  "buf_set_round buf round = buf[32 := round]"

definition buf_raw_pivot :: "(u8 list \<Rightarrow> u8 list) \<Rightarrow> u8 list \<Rightarrow> nat" where
  "buf_raw_pivot H buf = from_le_bytes (take 8 (H (take 33 buf)))"

definition buf_mix_in_position :: "u8 list \<Rightarrow> usize \<Rightarrow> u8 list" where
  "buf_mix_in_position buf position = take 33 buf @ le_bytes4 position"

definition buf_hash :: "(u8 list \<Rightarrow> u8 list) \<Rightarrow> u8 list \<Rightarrow> u8 list" where
  "buf_hash H buf = H buf"

definition vec_swap :: "'a list \<Rightarrow> usize \<Rightarrow> usize \<Rightarrow> 'a list" where
  "vec_swap xs i j = xs[i := xs ! j, j := xs ! i]"

record shuffle_state =
  ss_buf :: "u8 list"
  ss_source :: "u8 list"
  ss_byte_v :: u8
  ss_input :: "usize list"

text \<open>The body of both inner loops, for one pair of positions.\<close>

definition shuffle_pair :: "(u8 list \<Rightarrow> u8 list) \<Rightarrow> usize \<times> usize \<Rightarrow> shuffle_state \<Rightarrow> shuffle_state" where
  "shuffle_pair H p s =
     (case p of (i, j) \<Rightarrow>
      let s1 = (if j mod 256 = 255
                then let buf = buf_mix_in_position (ss_buf s) (j div 256)
                     in s\<lparr>ss_buf := buf, ss_source := buf_hash H buf\<rparr>
                else s);
          s2 = (if j mod 8 = 7 then s1\<lparr>ss_byte_v := ss_source s1 ! ((j mod 256) div 8)\<rparr> else s1);
          bit_v = drop_bit (j mod 8) (ss_byte_v s2) mod 2
      in if bit_v = 1 then s2\<lparr>ss_input := vec_swap (ss_input s2) i j\<rparr> else s2)"

text \<open>The start of a loop whose first upper position is \<open>j\<close>.\<close>

definition shuffle_enter :: "(u8 list \<Rightarrow> u8 list) \<Rightarrow> usize \<Rightarrow> u8 list \<Rightarrow> usize list \<Rightarrow> shuffle_state" where
  "shuffle_enter H j buf input =
     (let buf' = buf_mix_in_position buf (j div 256);
          source = buf_hash H buf'
      in \<lparr>ss_buf = buf', ss_source = source, ss_byte_v = source ! ((j mod 256) div 8),
          ss_input = input\<rparr>)"

definition lower_pairs :: "usize \<Rightarrow> (usize \<times> usize) list" where
  "lower_pairs pivot = map (\<lambda>i. (i, pivot - i)) [0 ..< (pivot + 1) div 2]"

definition upper_pairs :: "usize \<Rightarrow> usize \<Rightarrow> (usize \<times> usize) list" where
  "upper_pairs pivot list_size =
     map (\<lambda>k. (pivot + 1 + k, list_size - 1 - k))
       [0 ..< (pivot + list_size + 1) div 2 - (pivot + 1)]"

definition shuffle_round ::
    "(u8 list \<Rightarrow> u8 list) \<Rightarrow> u8 \<Rightarrow> u8 list \<times> usize list \<Rightarrow> u8 list \<times> usize list" where
  "shuffle_round H r s =
     (case s of (buf, input) \<Rightarrow>
      let list_size = length input;
          buf1 = buf_set_round buf r;
          pivot = buf_raw_pivot H buf1 mod list_size;
          s1 = fold (shuffle_pair H) (lower_pairs pivot) (shuffle_enter H pivot buf1 input);
          s2 = fold (shuffle_pair H) (upper_pairs pivot list_size)
                 (shuffle_enter H (list_size - 1) (ss_buf s1) (ss_input s1))
      in (ss_buf s2, ss_input s2))"

text \<open>
  The rounds are run upwards from 0 or downwards from \<^verbatim>\<open>rounds - 1\<close>. The left injection is the panic
  of \<^verbatim>\<open>Buf::new\<close> on a seed that is not 32 bytes long.
\<close>

definition shuffle_list ::
    "(u8 list \<Rightarrow> u8 list) \<Rightarrow> usize list \<Rightarrow> u8 \<Rightarrow> u8 list \<Rightarrow> bool \<Rightarrow> unit + usize list option" where
  "shuffle_list H input rounds seed forwards =
     (if input = [] \<or> (2 ^ 64 - 1) div 2 < length input \<or> 2 ^ 24 < length input \<or> rounds = 0
      then Inr None
      else case buf_new seed of
             None \<Rightarrow> Inl ()
           | Some buf \<Rightarrow>
               (let rs = (if forwards then [0 ..< unat rounds] else rev [0 ..< unat rounds])
                in Inr (Some (snd (fold (\<lambda>r. shuffle_round H (of_nat r)) rs (buf, input))))))"

section \<open>One round of one index\<close>

definition flip_index :: "usize \<Rightarrow> usize \<Rightarrow> usize \<Rightarrow> usize" where
  "flip_index n pivot i = (pivot + (n - i)) mod n"

definition round_bit :: "(u8 list \<Rightarrow> u8 list) \<Rightarrow> u8 list \<Rightarrow> u8 \<Rightarrow> usize \<Rightarrow> bool" where
  "round_bit H seed r j =
     (drop_bit (j mod 8) (hash_with_round_and_position H seed r j ! ((j mod 256) div 8)) mod 2 = 1)"

definition round_pivot :: "(u8 list \<Rightarrow> u8 list) \<Rightarrow> u8 list \<Rightarrow> u8 \<Rightarrow> usize \<Rightarrow> usize" where
  "round_pivot H seed r n = bytes_to_int64 (hash_with_round H seed r) mod n"

definition round_index :: "(u8 list \<Rightarrow> u8 list) \<Rightarrow> u8 list \<Rightarrow> usize \<Rightarrow> nat \<Rightarrow> usize \<Rightarrow> usize" where
  "round_index H seed n r i =
     do_round H seed i (round_pivot H seed (of_nat r) n) (of_nat r) n"

lemma round_index_eq:
  "round_index H seed n r i =
     (let f = flip_index n (round_pivot H seed (of_nat r) n) i
      in if round_bit H seed (of_nat r) (max i f) then f else i)"
  by (simp add: round_index_def do_round_def flip_index_def round_bit_def Let_def)

lemma flip_index_less: "i < n \<Longrightarrow> flip_index n p i < n"
  by (simp add: flip_index_def)

lemma flip_index_cases:
  assumes "i < n" and "p < n"
  shows "flip_index n p i = (if i \<le> p then p - i else p + n - i)"
proof (cases "i \<le> p")
  case True
  then have "p + (n - i) = (p - i) + n" using assms by simp
  then have "flip_index n p i = (p - i) mod n" by (simp only: flip_index_def mod_add_self2)
  then show ?thesis using True assms by simp
next
  case False
  then show ?thesis using assms by (simp add: flip_index_def)
qed

lemma flip_index_involution:
  assumes "i < n" and "p < n"
  shows "flip_index n p (flip_index n p i) = i"
  using assms flip_index_less [OF assms(1), of p]
  by (auto simp: flip_index_cases split: if_splits)

lemma round_pivot_less: "0 < n \<Longrightarrow> round_pivot H seed r n < n"
  by (simp add: round_pivot_def)

lemma round_index_less: "i < n \<Longrightarrow> round_index H seed n r i < n"
  by (simp add: round_index_eq Let_def flip_index_less)

lemma round_index_involution:
  assumes "i < n"
  shows "round_index H seed n r (round_index H seed n r i) = i"
  using flip_index_involution [OF assms round_pivot_less, of H seed "of_nat r"] assms
  by (simp add: round_index_eq Let_def max.commute)

lemma shuffle_index_rounds_fold:
  "shuffle_index_rounds H seed n rs i = fold (round_index H seed n) rs i"
  by (induction rs arbitrary: i) (simp_all add: round_index_def round_pivot_def Let_def)

lemma fold_round_less: "i < n \<Longrightarrow> fold (round_index H seed n) rs i < n"
  by (induction rs arbitrary: i) (simp_all add: round_index_less)

lemma fold_round_inverse:
  "i < n \<Longrightarrow> fold (round_index H seed n) (rev rs) (fold (round_index H seed n) rs i) = i"
  by (induction rs arbitrary: i) (simp_all add: round_index_less fold_round_less round_index_involution)

section \<open>The inner loops\<close>

text \<open>The loop state holds the digest and the byte that belong to the upper position \<open>j\<close>.\<close>

definition synced :: "(u8 list \<Rightarrow> u8 list) \<Rightarrow> u8 list \<Rightarrow> u8 \<Rightarrow> usize \<Rightarrow> shuffle_state \<Rightarrow> bool" where
  "synced H seed r j s \<longleftrightarrow>
     take 33 (ss_buf s) = seed @ [r]
     \<and> ss_source s = hash_with_round_and_position H seed r j
     \<and> ss_byte_v s = ss_source s ! ((j mod 256) div 8)"

lemma le_bytes4_length [simp]: "length (le_bytes4 n) = 4"
  by (simp add: le_bytes4_def)

lemma take_buf_mix:
  assumes "take 33 buf = seed @ [r]" and "length seed = 32"
  shows "take 33 (buf_mix_in_position buf p) = seed @ [r]"
    "buf_hash H (buf_mix_in_position buf (j div 256)) = hash_with_round_and_position H seed r j"
  using assms by (simp_all add: buf_mix_in_position_def buf_hash_def hash_with_round_and_position_def)

lemma synced_enter:
  assumes "take 33 buf = seed @ [r]" and "length seed = 32"
  shows "synced H seed r j (shuffle_enter H j buf xs)" "ss_input (shuffle_enter H j buf xs) = xs"
  using take_buf_mix [OF assms, of _] by (simp_all add: synced_def shuffle_enter_def Let_def)

definition swap_if :: "(usize \<Rightarrow> bool) \<Rightarrow> usize \<times> usize \<Rightarrow> 'a list \<Rightarrow> 'a list" where
  "swap_if b p xs = (case p of (i, j) \<Rightarrow> if b j then vec_swap xs i j else xs)"

lemma next_block: "j mod 256 \<noteq> 255 \<Longrightarrow> Suc j div 256 = j div 256" for j :: nat
  by (simp add: div_Suc mod_Suc)

lemma last_of_byte: "j mod 256 = 255 \<Longrightarrow> j mod 8 = 7" for j :: nat
  using mod_mod_cancel [of 8 256 j] by simp

lemma next_byte: "j mod 8 \<noteq> 7 \<Longrightarrow> (Suc j mod 256) div 8 = (j mod 256) div 8" for j :: nat
  using mod_mod_cancel [of 8 256 j] last_of_byte [of j]
  by (auto simp: mod_Suc [of j] div_Suc [of "j mod 256"] mod_Suc [of "j mod 256"])

lemma shuffle_pair_synced:
  assumes len: "length seed = 32" and s: "synced H seed r j s \<or> synced H seed r (Suc j) s"
  shows "synced H seed r j (shuffle_pair H (i, j) s)
    \<and> ss_input (shuffle_pair H (i, j) s) = swap_if (round_bit H seed r) (i, j) (ss_input s)"
proof -
  have buf: "take 33 (ss_buf s) = seed @ [r]" using s by (auto simp: synced_def)
  define s1 where "s1 = (if j mod 256 = 255
    then let buf = buf_mix_in_position (ss_buf s) (j div 256)
         in s\<lparr>ss_buf := buf, ss_source := buf_hash H buf\<rparr> else s)"
  define s2 where "s2 = (if j mod 8 = 7 then s1\<lparr>ss_byte_v := ss_source s1 ! ((j mod 256) div 8)\<rparr> else s1)"
  note block = next_block [of j] and byte = next_byte [of j] and fresh = last_of_byte [of j]
  have src: "ss_source s1 = hash_with_round_and_position H seed r j" "take 33 (ss_buf s1) = seed @ [r]"
    using s buf take_buf_mix [OF buf len] block
    by (auto simp: s1_def synced_def Let_def hash_with_round_and_position_def)
  have "ss_byte_v s2 = ss_source s1 ! ((j mod 256) div 8)"
    using s src(1) byte fresh block
    by (auto simp: s2_def s1_def synced_def Let_def hash_with_round_and_position_def split: if_splits)
  then have s2: "synced H seed r j s2"
    using src by (simp add: synced_def s2_def)
  moreover have "ss_input s2 = ss_input s" by (simp add: s2_def s1_def Let_def)
  moreover have "shuffle_pair H (i, j) s =
      (if drop_bit (j mod 8) (ss_byte_v s2) mod 2 = 1
       then s2\<lparr>ss_input := vec_swap (ss_input s2) i j\<rparr> else s2)"
    by (simp only: shuffle_pair_def s1_def s2_def Let_def prod.case)
  ultimately show ?thesis
    by (simp add: synced_def round_bit_def swap_if_def)
qed

lemma shuffle_pairs_synced:
  fixes a :: nat
  assumes len: "length seed = 32" and s: "synced H seed r b s" and m: "m \<le> Suc b"
  defines "ps \<equiv> map (\<lambda>k. (a + k, b - k)) [0 ..< m]"
  shows "synced H seed r (b - (m - 1)) (fold (shuffle_pair H) ps s)
    \<and> ss_input (fold (shuffle_pair H) ps s) = fold (swap_if (round_bit H seed r)) ps (ss_input s)"
  using m unfolding ps_def
proof (induction m)
  case 0
  then show ?case using s by simp
next
  case (Suc m)
  let ?t = "fold (shuffle_pair H) (map (\<lambda>k. (a + k, b - k)) [0 ..< m]) s"
  have IH: "synced H seed r (b - (m - 1)) ?t"
    "ss_input ?t = fold (swap_if (round_bit H seed r)) (map (\<lambda>k. (a + k, b - k)) [0 ..< m]) (ss_input s)"
    using Suc by simp_all
  have "b - (m - 1) = b - m \<or> b - (m - 1) = Suc (b - m)" using Suc.prems by (cases m) auto
  then have "synced H seed r (b - m) ?t \<or> synced H seed r (Suc (b - m)) ?t" using IH(1) by auto
  then show ?case using shuffle_pair_synced [OF len, of H r "b - m" ?t "a + m"] IH(2) by simp
qed

section \<open>One round of a list\<close>

lemma vec_swap_length [simp]: "length (vec_swap xs i j) = length xs"
  by (simp add: vec_swap_def)

lemma swap_if_length [simp]: "length (swap_if b p xs) = length xs"
  by (simp add: swap_if_def split: prod.splits)

lemma fold_swap_length [simp]: "length (fold (swap_if b) ps xs) = length xs"
  by (induction ps arbitrary: xs) simp_all

abbreviation touched :: "(usize \<times> usize) list \<Rightarrow> usize list" where
  "touched ps \<equiv> map fst ps @ map snd ps"

text \<open>Conditional swaps of disjoint pairs, of which \<open>f\<close> is the exchange.\<close>

lemma fold_swap_nth:
  assumes "distinct (touched ps)"
    and "\<And>i j. (i, j) \<in> set ps \<Longrightarrow> i < j \<and> j < length xs \<and> f i = j \<and> f j = i"
    and "k < length xs"
  shows "fold (swap_if b) ps xs ! k =
    (if k \<in> set (touched ps) \<and> b (max k (f k)) then xs ! f k else xs ! k)"
  using assms
proof (induction ps arbitrary: xs)
  case Nil
  then show ?case by simp
next
  case (Cons p ps)
  obtain i j where p: "p = (i, j)" by (cases p)
  let ?xs = "swap_if b (i, j) xs"
  have ij: "i < j" "j < length xs" "f i = j" "f j = i" using Cons.prems(2) p by auto
  have IH: "fold (swap_if b) ps ?xs ! k =
      (if k \<in> set (touched ps) \<and> b (max k (f k)) then ?xs ! f k else ?xs ! k)"
    using Cons.prems by (intro Cons.IH) auto
  have other: "?xs ! m = xs ! m" if "m \<noteq> i" "m \<noteq> j" for m
    using that by (simp add: swap_if_def vec_swap_def)
  show ?case
  proof (cases "k \<in> set (touched ps)")
    case True
    then obtain m l where "(m, l) \<in> set ps" "k = m \<or> k = l" by auto
    then have "f k \<in> set (touched ps)" using Cons.prems(2) [of m l] by force
    moreover have "i \<notin> set (touched ps)" "j \<notin> set (touched ps)" using Cons.prems(1) p by auto
    ultimately have "k \<noteq> i" "k \<noteq> j" "f k \<noteq> i" "f k \<noteq> j" using True by metis+
    then show ?thesis using IH True other p by simp
  next
    case False
    have "?xs ! k = (if (k = i \<or> k = j) \<and> b (max k (f k)) then xs ! f k else xs ! k)"
      using ij Cons.prems(3) by (auto simp: swap_if_def vec_swap_def nth_list_update max_def)
    then show ?thesis using IH False p by auto
  qed
qed

lemma pair_facts:
  assumes "p < n"
  shows "(i, j) \<in> set (lower_pairs p) \<Longrightarrow>
      i < j \<and> j \<le> p \<and> flip_index n p i = j \<and> flip_index n p j = i"
    "(i, j) \<in> set (upper_pairs p n) \<Longrightarrow>
      p < i \<and> i < j \<and> j < n \<and> flip_index n p i = j \<and> flip_index n p j = i"
  using assms by (auto simp: lower_pairs_def upper_pairs_def flip_index_cases)

lemma pairs_distinct:
  assumes "p < n"
  shows "distinct (touched (lower_pairs p @ upper_pairs p n))"
  using assms
  by (auto simp: lower_pairs_def upper_pairs_def distinct_map inj_on_def)

lemma untouched_fixed:
  assumes "p < n" and "k < n" and "k \<notin> set (touched (lower_pairs p @ upper_pairs p n))"
  shows "flip_index n p k = k"
proof (cases "k \<le> p")
  case True
  have "k \<in> fst ` set (lower_pairs p)" if "k < (p + 1) div 2"
    using that by (simp add: lower_pairs_def image_image)
  moreover have "k \<in> snd ` set (lower_pairs p)" if "p - k < (p + 1) div 2"
    using that True by (auto simp: lower_pairs_def image_image image_iff intro!: bexI [of _ "p - k"])
  moreover have "p - k < (p + 1) div 2 \<or> k < (p + 1) div 2 \<or> p - k = k" using True by linarith
  ultimately show ?thesis using assms True by (auto simp: flip_index_cases)
next
  case False
  let ?m = "(p + n + 1) div 2 - (p + 1)"
  have "k \<in> fst ` set (upper_pairs p n)" if "k - (p + 1) < ?m"
    using that False by (auto simp: upper_pairs_def image_image image_iff intro!: bexI [of _ "k - (p + 1)"])
  moreover have "k \<in> snd ` set (upper_pairs p n)" if "n - 1 - k < ?m"
    using that False assms(2)
    by (auto simp: upper_pairs_def image_image image_iff intro!: bexI [of _ "n - 1 - k"])
  moreover have "k - (p + 1) < ?m \<or> n - 1 - k < ?m \<or> p + n - k = k" using assms(1,2) False by linarith
  ultimately show ?thesis using assms False by (auto simp: flip_index_cases)
qed

lemma buf_after_set_round:
  assumes "take 32 buf = seed" and "length seed = 32" and "33 \<le> length buf"
  shows "take 33 (buf_set_round buf r) = seed @ [r]"
proof -
  have "take 33 (buf_set_round buf r) = take 32 (buf_set_round buf r) @ [buf_set_round buf r ! 32]"
    using assms take_Suc_conv_app_nth [of 32 "buf_set_round buf r"] by (simp add: buf_set_round_def)
  then show ?thesis using assms by (simp add: buf_set_round_def)
qed

lemma take_33:
  assumes "take 33 buf = seed @ [r]" and "length seed = 32"
  shows "take 32 buf = seed \<and> 33 \<le> length buf"
proof -
  have "take 32 (take 33 buf) = seed" "length (take 33 buf) = 33"
    unfolding assms(1) using assms(2) by simp_all
  then show ?thesis by simp
qed

text \<open>A round permutes the list by the round of the single index.\<close>

lemma shuffle_round_eq:
  assumes buf: "take 32 buf = seed" "length seed = 32" "33 \<le> length buf" and xs: "xs \<noteq> []"
  shows "\<exists>buf'. shuffle_round H (of_nat r) (buf, xs) =
      (buf', map (\<lambda>i. xs ! round_index H seed (length xs) r i) [0 ..< length xs])
    \<and> take 32 buf' = seed \<and> 33 \<le> length buf'"
proof -
  let ?n = "length xs" and ?r = "of_nat r :: u8"
  let ?b = "round_bit H seed ?r"
  define p where "p = round_pivot H seed ?r ?n"
  have n: "0 < ?n" using xs by simp
  have p: "p < ?n" using n by (simp add: p_def round_pivot_less)
  note set_round = buf_after_set_round [OF buf, of ?r]
  have pivot: "buf_raw_pivot H (buf_set_round buf ?r) mod ?n = p"
    using set_round by (simp add: buf_raw_pivot_def p_def round_pivot_def bytes_to_int64_def hash_with_round_def)
  define s1 where "s1 = fold (shuffle_pair H) (lower_pairs p) (shuffle_enter H p (buf_set_round buf ?r) xs)"
  have "lower_pairs p = map (\<lambda>k. (0 + k, p - k)) [0 ..< (p + 1) div 2]" by (simp add: lower_pairs_def)
  then have s1: "synced H seed ?r (p - ((p + 1) div 2 - 1)) s1"
    "ss_input s1 = fold (swap_if ?b) (lower_pairs p) xs"
    using shuffle_pairs_synced [where m = "(p + 1) div 2" and a = 0,
        OF buf(2) synced_enter(1) [where H = H and j = p and xs = xs, OF set_round buf(2)]]
      synced_enter(2) [OF set_round buf(2)] by (simp_all add: s1_def)
  have buf1: "take 33 (ss_buf s1) = seed @ [?r]" using s1(1) by (simp add: synced_def)
  define s2 where "s2 = fold (shuffle_pair H) (upper_pairs p ?n)
    (shuffle_enter H (?n - 1) (ss_buf s1) (ss_input s1))"
  let ?m = "(p + ?n + 1) div 2 - (p + 1)"
  have s2: "synced H seed ?r (?n - 1 - (?m - 1)) s2"
    "ss_input s2 = fold (swap_if ?b) (upper_pairs p ?n) (ss_input s1)"
    using shuffle_pairs_synced [where m = ?m and a = "p + 1",
        OF buf(2) synced_enter(1) [where H = H and j = "?n - 1" and xs = "ss_input s1", OF buf1 buf(2)]]
      synced_enter(2) [OF buf1 buf(2)] n p by (simp_all add: s2_def upper_pairs_def)
  have all: "ss_input s2 = fold (swap_if ?b) (lower_pairs p @ upper_pairs p ?n) xs"
    using s1(2) s2(2) by simp
  have "fold (swap_if ?b) (lower_pairs p @ upper_pairs p ?n) xs ! k = xs ! round_index H seed ?n r k"
    if k: "k < ?n" for k
  proof -
    have "fold (swap_if ?b) (lower_pairs p @ upper_pairs p ?n) xs ! k =
        (if k \<in> set (touched (lower_pairs p @ upper_pairs p ?n)) \<and> ?b (max k (flip_index ?n p k))
         then xs ! flip_index ?n p k else xs ! k)"
      using pairs_distinct [OF p] pair_facts [OF p] p k by (intro fold_swap_nth) fastforce+
    then show ?thesis
      using untouched_fixed [OF p k] by (auto simp: round_index_eq Let_def p_def [symmetric])
  qed
  then have "ss_input s2 = map (\<lambda>i. xs ! round_index H seed ?n r i) [0 ..< ?n]"
    unfolding all by (intro nth_equalityI) simp_all
  moreover have "take 33 (ss_buf s2) = seed @ [?r]" using s2(1) by (simp add: synced_def)
  then have "take 32 (ss_buf s2) = seed" "33 \<le> length (ss_buf s2)"
    using take_33 [OF _ buf(2)] by simp_all
  moreover have "shuffle_round H ?r (buf, xs) = (ss_buf s2, ss_input s2)"
    by (simp add: shuffle_round_def Let_def pivot s1_def s2_def)
  ultimately show ?thesis by simp
qed

section \<open>All rounds\<close>

text \<open>The single index function without its guards: the permutation of the positions.\<close>

definition shuffled :: "(u8 list \<Rightarrow> u8 list) \<Rightarrow> u8 list \<Rightarrow> usize \<Rightarrow> u8 \<Rightarrow> usize \<Rightarrow> usize" where
  "shuffled H seed n rounds = fold (round_index H seed n) [0 ..< unat rounds]"

definition unshuffled :: "(u8 list \<Rightarrow> u8 list) \<Rightarrow> u8 list \<Rightarrow> usize \<Rightarrow> u8 \<Rightarrow> usize \<Rightarrow> usize" where
  "unshuffled H seed n rounds = fold (round_index H seed n) (rev [0 ..< unat rounds])"

lemma shuffled_facts:
  assumes "i < n"
  shows "shuffled H seed n rounds i < n" "unshuffled H seed n rounds i < n"
    "unshuffled H seed n rounds (shuffled H seed n rounds i) = i"
    "shuffled H seed n rounds (unshuffled H seed n rounds i) = i"
  using assms fold_round_inverse [OF assms, of H seed "[0 ..< unat rounds]"]
    fold_round_inverse [OF assms, of H seed "rev [0 ..< unat rounds]"]
  by (simp_all add: shuffled_def unshuffled_def fold_round_less)

lemma shuffled_bij: "bij_betw (shuffled H seed n rounds) {..< n} {..< n}"
  by (rule bij_betw_byWitness [where f' = "unshuffled H seed n rounds"]) (auto simp: shuffled_facts)

definition shuffle_size_ok :: "usize \<Rightarrow> bool" where
  "shuffle_size_ok n \<longleftrightarrow> 0 < n \<and> n \<le> 2 ^ 24"

lemma compute_shuffled_index_eq:
  "compute_shuffled_index H i n seed rounds =
     (if shuffle_size_ok n \<and> i < n then Some (shuffled H seed n rounds i) else None)"
  by (auto simp: compute_shuffled_index_def shuffle_size_ok_def shuffle_index_rounds_fold shuffled_def)

definition permuted :: "(usize \<Rightarrow> usize) \<Rightarrow> 'a list \<Rightarrow> 'a list" where
  "permuted f xs = map (\<lambda>i. xs ! f i) [0 ..< length xs]"

lemma permuted_length [simp]: "length (permuted f xs) = length xs"
  by (simp add: permuted_def)

lemma permuted_nth [simp]: "i < length xs \<Longrightarrow> permuted f xs ! i = xs ! f i"
  by (simp add: permuted_def)

lemma permuted_permuted:
  assumes "\<And>i. i < length xs \<Longrightarrow> f i < length xs"
  shows "permuted f (permuted g xs) = permuted (\<lambda>i. g (f i)) xs"
  using assms by (intro nth_equalityI) simp_all

lemma permuted_cong: "(\<And>i. i < length xs \<Longrightarrow> f i = g i) \<Longrightarrow> permuted f xs = permuted g xs"
  by (simp add: permuted_def)

lemma permuted_id: "permuted (\<lambda>i. i) xs = xs"
  by (simp add: permuted_def map_nth)

lemma mset_permuted:
  assumes "bij_betw f {..< length xs} {..< length xs}"
  shows "mset (permuted f xs) = mset xs"
proof -
  have "image_mset f (mset_set {..< length xs}) = mset_set {..< length xs}"
    using assms by (metis bij_betw_def image_mset_mset_set)
  then have "image_mset (\<lambda>i. xs ! f i) (mset_set {..< length xs}) = image_mset ((!) xs) (mset_set {..< length xs})"
    by (metis (no_types, lifting) image_mset.compositionality comp_def image_mset_cong)
  then have "mset (permuted f xs) = mset (map ((!) xs) [0 ..< length xs])"
    by (simp add: permuted_def lessThan_atLeast0)
  then show ?thesis by (simp only: map_nth)
qed

lemma shuffle_rounds_eq:
  assumes "take 32 buf = seed" "length seed = 32" "33 \<le> length buf" "xs \<noteq> []"
  shows "snd (fold (\<lambda>r. shuffle_round H (of_nat r)) rs (buf, xs)) =
    permuted (fold (round_index H seed (length xs)) (rev rs)) xs"
  using assms
proof (induction rs arbitrary: buf xs)
  case Nil
  then show ?case by (simp add: permuted_id)
next
  case (Cons r rs)
  let ?R = "round_index H seed (length xs)"
  obtain buf' where r: "shuffle_round H (of_nat r) (buf, xs) = (buf', permuted (?R r) xs)"
    "take 32 buf' = seed" "33 \<le> length buf'"
    using shuffle_round_eq [OF Cons.prems, of H r] by (auto simp: permuted_def)
  have "permuted (?R r) xs \<noteq> []" using Cons.prems(4) by (metis length_0_conv permuted_length)
  then have "snd (fold (\<lambda>r. shuffle_round H (of_nat r)) (r # rs) (buf, xs)) =
      permuted (fold ?R (rev rs)) (permuted (?R r) xs)"
    using r Cons.IH [of buf' "permuted (?R r) xs"] Cons.prems(2) by simp
  also have "\<dots> = permuted (\<lambda>i. ?R r (fold ?R (rev rs) i)) xs"
    by (simp add: permuted_permuted fold_round_less)
  finally show ?case by simp
qed

definition shuffle_perm :: "(u8 list \<Rightarrow> u8 list) \<Rightarrow> u8 list \<Rightarrow> usize \<Rightarrow> u8 \<Rightarrow> bool \<Rightarrow> usize \<Rightarrow> usize" where
  "shuffle_perm H seed n rounds forwards =
     (if forwards then unshuffled H seed n rounds else shuffled H seed n rounds)"

lemma shuffle_perm_bij:
  "bij_betw (shuffle_perm H seed n rounds forwards) {..< n} {..< n}"
  by (rule bij_betw_byWitness [where f' = "shuffle_perm H seed n rounds (\<not> forwards)"])
    (auto simp: shuffled_facts shuffle_perm_def)

lemma shuffle_list_eq:
  "shuffle_list H xs rounds seed forwards =
     (if \<not> shuffle_size_ok (length xs) \<or> rounds = 0 then Inr None
      else if length seed \<noteq> 32 then Inl ()
      else Inr (Some (permuted (shuffle_perm H seed (length xs) rounds forwards) xs)))"
proof (cases "shuffle_size_ok (length xs) \<and> rounds \<noteq> 0 \<and> length seed = 32")
  case True
  then have "take 32 (seed @ replicate 5 0) = seed" "33 \<le> length (seed @ replicate 5 (0::u8))" "xs \<noteq> []"
    by (auto simp: shuffle_size_ok_def)
  note rounds = shuffle_rounds_eq [OF this(1) _ this(2,3), of H]
  show ?thesis using True rounds
    by (auto simp: shuffle_list_def buf_new_def shuffle_size_ok_def shuffle_perm_def shuffled_def
        unshuffled_def Let_def)
next
  case False
  then show ?thesis by (auto simp: shuffle_list_def buf_new_def shuffle_size_ok_def)
qed

section \<open>Properties of the shuffle\<close>

text \<open>C31. \<^verbatim>\<open>compute_shuffled_index\<close> returns \<^verbatim>\<open>None\<close> exactly for an empty list, an index that is out of range or
  a list of more than \<open>2 ^ 24\<close> entries, and for every other list size the indices it returns are a
  permutation of the positions of the list.\<close>

theorem shuffled_index_is_permutation:
  "(compute_shuffled_index H i n seed rounds = None \<longleftrightarrow> n = 0 \<or> n \<le> i \<or> 2 ^ 24 < n)
   \<and> (n = 0 \<or> 2 ^ 24 < n \<or>
      bij_betw (\<lambda>i. the (compute_shuffled_index H i n seed rounds)) {..< n} {..< n})"
proof -
  have "bij_betw (\<lambda>i. the (compute_shuffled_index H i n seed rounds)) {..< n} {..< n}"
    if "shuffle_size_ok n"
    using shuffled_bij [of H seed n rounds] that
    by (subst bij_betw_cong [where g = "shuffled H seed n rounds"]) (simp_all add: compute_shuffled_index_eq)
  moreover have "n = 0 \<or> 2 ^ 24 < n \<or> shuffle_size_ok n" by (auto simp: shuffle_size_ok_def)
  moreover have "compute_shuffled_index H i n seed rounds = None \<longleftrightarrow> n = 0 \<or> n \<le> i \<or> 2 ^ 24 < n"
    by (auto simp: compute_shuffled_index_eq shuffle_size_ok_def)
  ultimately show ?thesis by blast
qed

text \<open>C17. The optimised \<^verbatim>\<open>shuffle_list\<close>, which swaps pairs in place and hashes once for every 256 positions,
  computes what its documentation states: backwards the list of \<open>input[compute_shuffled_index(i)]\<close>,
  forwards the list that has \<open>input[x]\<close> at \<open>compute_shuffled_index(x)\<close>.\<close>

theorem shuffle_list_agrees_with_index:
  assumes "xs \<noteq> []" and "length xs \<le> 2 ^ 24" and "rounds \<noteq> 0" and "length seed = 32"
  shows "shuffle_list H xs rounds seed False =
      Inr (Some (map (\<lambda>i. xs ! the (compute_shuffled_index H i (length xs) seed rounds)) [0 ..< length xs]))
    \<and> (\<exists>ys. shuffle_list H xs rounds seed True = Inr (Some ys) \<and> length ys = length xs
        \<and> (\<forall>x < length xs. ys ! the (compute_shuffled_index H x (length xs) seed rounds) = xs ! x))"
  using assms
  by (auto simp: shuffle_list_eq compute_shuffled_index_eq shuffle_size_ok_def shuffle_perm_def
      shuffled_facts permuted_def)

text \<open>C30. A list that was shuffled in one direction and is shuffled with the same seed and rounds in the other
  is the list of the start.\<close>

theorem shuffle_list_round_trip:
  assumes "shuffle_list H xs rounds seed forwards = Inr (Some ys)"
  shows "shuffle_list H ys rounds seed (\<not> forwards) = Inr (Some xs)"
proof -
  have ok: "shuffle_size_ok (length xs)" "rounds \<noteq> 0" "length seed = 32"
    and ys: "ys = permuted (shuffle_perm H seed (length xs) rounds forwards) xs"
    using assms by (auto simp: shuffle_list_eq split: if_splits)
  let ?f = "shuffle_perm H seed (length xs) rounds"
  have "permuted (?f (\<not> forwards)) ys = permuted (\<lambda>i. ?f forwards (?f (\<not> forwards) i)) xs"
    unfolding ys by (rule permuted_permuted) (simp add: shuffle_perm_def shuffled_facts)
  also have "\<dots> = permuted (\<lambda>i. i) xs"
    by (rule permuted_cong) (simp add: shuffle_perm_def shuffled_facts)
  finally show ?thesis using ok ys by (simp add: shuffle_list_eq permuted_id)
qed

text \<open>C32. Every outcome of \<^verbatim>\<open>shuffle_list\<close>: \<^verbatim>\<open>None\<close> exactly for an empty list, a list of more than
  \<open>2 ^ 24\<close> entries or no rounds at all; a panic exactly when the seed of an admissible list is not 32 bytes
  long; otherwise a list with the same entries, each as often as in the input.\<close>

theorem shuffle_list_outcomes:
  "case shuffle_list H xs rounds seed forwards of
     Inl _ \<Rightarrow> shuffle_size_ok (length xs) \<and> rounds \<noteq> 0 \<and> length seed \<noteq> 32
   | Inr None \<Rightarrow> xs = [] \<or> 2 ^ 24 < length xs \<or> rounds = 0
   | Inr (Some ys) \<Rightarrow> shuffle_size_ok (length xs) \<and> rounds \<noteq> 0 \<and> length seed = 32 \<and> mset ys = mset xs"
  using mset_permuted [OF shuffle_perm_bij [of H seed "length xs" rounds forwards]]
  by (auto simp: shuffle_list_eq shuffle_size_ok_def)

text \<open>A concrete digest for the witnesses: 32 bytes that depend on every byte of the input.\<close>

definition toy_digest :: "u8 list \<Rightarrow> u8 list" where
  "toy_digest bs = map (\<lambda>k. foldl (\<lambda>a b. 33 * a + b + drop_bit 3 a) (of_nat (7 * k + 1)) bs) [0 ..< 32]"

definition toy_seed :: "u8 list" where
  "toy_seed = map (\<lambda>k. of_nat (5 * k + 3)) [0 ..< 32]"

theorem shuffle_list_agrees_with_index_witness:
  "\<exists>ys. shuffle_list toy_digest [10, 11, 12] 3 toy_seed True = Inr (Some ys) \<and> length ys = 3
     \<and> ys ! the (compute_shuffled_index toy_digest 0 3 toy_seed 3) = 10"
proof -
  have "length toy_seed = 32" by (simp add: toy_seed_def)
  then obtain ys where "shuffle_list toy_digest [10, 11, 12] 3 toy_seed True = Inr (Some ys)" "length ys = 3"
    "\<forall>x < 3. ys ! the (compute_shuffled_index toy_digest x 3 toy_seed 3) = [10, 11, 12] ! x"
    using shuffle_list_agrees_with_index [of "[10, 11, 12]" 3 toy_seed toy_digest]
    by (auto simp: numeral_3_eq_3)
  then show ?thesis by force
qed

theorem shuffle_list_round_trip_witness:
  "\<exists>ys. shuffle_list toy_digest [10, 11, 12, 13, 14] 3 toy_seed True = Inr (Some ys)
     \<and> shuffle_list toy_digest ys 3 toy_seed False = Inr (Some [10, 11, 12, 13, 14])"
proof -
  have "length toy_seed = 32" by (simp add: toy_seed_def)
  then obtain ys where ys: "shuffle_list toy_digest [10, 11, 12, 13, 14] 3 toy_seed True = Inr (Some ys)"
    by (simp add: shuffle_list_eq shuffle_size_ok_def)
  then show ?thesis using shuffle_list_round_trip [OF ys] by simp
qed

end
