(* ===== verification/Merkle_Proof.thy ===== *)
theory Merkle_Proof
  imports Int_To_Bytes
begin

text \<open>
  The right-sparse Merkle tree of \<^verbatim>\<open>consensus/merkle_proof/src/lib.rs\<close>. The crate \<^verbatim>\<open>ethereum_hashing\<close> is
  external: \<open>HC\<close> stands for \<^verbatim>\<open>hash32_concat\<close> and \<open>ZH\<close> for the table \<^verbatim>\<open>ZERO_HASHES\<close>, whose documented
  content is \<open>zero_hashes\<close>. A hash is the list of its bytes.

  The state of a tree of depth \<open>d\<close> is described by the leaves that were pushed and by the number of
  them that are finalized: \<open>ftree k ls d\<close> is the tree of the leaves \<open>ls\<close> of which the first \<open>k\<close> are
  finalized. Every operation of the code is an operation on this pair.
\<close>

type_synonym bytes32 = "u8 list"
type_synonym hash_concat = "bytes32 \<Rightarrow> bytes32 \<Rightarrow> bytes32"

section \<open>Trees and errors\<close>

datatype merkle_tree =
    Finalized bytes32
  | Leaf bytes32
  | Node bytes32 merkle_tree merkle_tree
  | Zero usize

datatype invalid_snapshot =
    EmptyBranchWithNonZeroDeposits usize
  | EndOfTree

datatype merkle_tree_error =
    LeafReached
  | NonLeafProof
  | MerkleTreeFull
  | Invalid
  | DepthTooSmall
  | ArithError
  | ZeroNodeFinalized
  | FinalizedNodePushed
  | InvalidSnapshot invalid_snapshot
  | ProofEncounteredFinalizedNode
  | PleaseNotifyTheDevs

text \<open>A call that may also panic.\<close>

datatype 'e failure = Panic | Failed 'e

definition MAX_TREE_DEPTH :: usize where
  "MAX_TREE_DEPTH = 32"

definition zero_hashes :: "hash_concat \<Rightarrow> (nat \<Rightarrow> bytes32) \<Rightarrow> bool" where
  "zero_hashes HC ZH \<longleftrightarrow> ZH 0 = replicate 32 0 \<and> (\<forall>d. ZH (Suc d) = HC (ZH d) (ZH d))"

fun tree_hash :: "(nat \<Rightarrow> bytes32) \<Rightarrow> merkle_tree \<Rightarrow> bytes32" where
  "tree_hash ZH (Finalized h) = h"
| "tree_hash ZH (Leaf h) = h"
| "tree_hash ZH (Node h _ _) = h"
| "tree_hash ZH (Zero depth) = ZH depth"

section \<open>Building a tree\<close>

fun create :: "hash_concat \<Rightarrow> (nat \<Rightarrow> bytes32) \<Rightarrow> bytes32 list \<Rightarrow> usize \<Rightarrow> merkle_tree" where
  "create HC ZH leaves 0 = (if leaves = [] then Zero 0 else Leaf (leaves ! 0))"
| "create HC ZH leaves (Suc d) =
     (if leaves = [] then Zero (Suc d)
      else let subtree_capacity = 2 ^ d;
               (left_leaves, right_leaves) =
                 (if length leaves \<le> subtree_capacity then (leaves, [])
                  else (take subtree_capacity leaves, drop subtree_capacity leaves));
               left_subtree = create HC ZH left_leaves d;
               right_subtree = create HC ZH right_leaves d
           in Node (HC (tree_hash ZH left_subtree) (tree_hash ZH right_subtree)) left_subtree right_subtree)"

fun push_leaf :: "hash_concat \<Rightarrow> (nat \<Rightarrow> bytes32) \<Rightarrow> merkle_tree \<Rightarrow> bytes32 \<Rightarrow> usize
    \<Rightarrow> (merkle_tree_error, merkle_tree) outcome" where
  "push_leaf HC ZH t elem 0 = Inl (DepthTooSmall, t)"
| "push_leaf HC ZH t elem (Suc d) =
     (case t of
        Leaf _ \<Rightarrow> Inl (LeafReached, t)
      | Zero _ \<Rightarrow> Inr (create HC ZH [elem] (Suc d))
      | Finalized _ \<Rightarrow> Inl (FinalizedNodePushed, t)
      | Node hash left right \<Rightarrow>
          (let push_right =
             (case push_leaf HC ZH right elem d of
                Inl (e, right') \<Rightarrow> Inl (e, Node hash left right')
              | Inr right' \<Rightarrow> Inr (left, right'));
             branches =
             (case (left, right) of
                (Leaf _, Leaf _) \<Rightarrow> Inl (MerkleTreeFull, t)
              | (Finalized _, Leaf _) \<Rightarrow> Inl (MerkleTreeFull, t)
              | (Node _ _ _, Node _ _ _) \<Rightarrow> push_right
              | (Finalized _, Node _ _ _) \<Rightarrow> push_right
              | (Zero _, Zero _) \<Rightarrow> Inr (create HC ZH [elem] d, right)
              | (Leaf _, Zero _) \<Rightarrow> Inr (left, create HC ZH [elem] d)
              | (Finalized _, Zero _) \<Rightarrow> Inr (left, create HC ZH [elem] d)
              | (Node _ _ _, Zero _) \<Rightarrow>
                  (case push_leaf HC ZH left elem d of
                     Inr left' \<Rightarrow> Inr (left', right)
                   | Inl (MerkleTreeFull, left') \<Rightarrow> Inr (left', create HC ZH [elem] d)
                   | Inl (e, left') \<Rightarrow> Inl (e, Node hash left' right))
              | _ \<Rightarrow> Inl (Invalid, t))
           in bind_r branches
                (\<lambda>(left', right'). Inr (Node (HC (tree_hash ZH left') (tree_hash ZH right')) left' right'))))"

section \<open>Finalization and snapshots\<close>

fun finalize_deposits :: "merkle_tree \<Rightarrow> usize \<Rightarrow> usize \<Rightarrow> (merkle_tree_error, merkle_tree) outcome" where
  "finalize_deposits (Finalized h) deposits_to_finalize level = Inr (Finalized h)"
| "finalize_deposits (Zero d) deposits_to_finalize level = Inl (ZeroNodeFinalized, Zero d)"
| "finalize_deposits (Leaf hash) deposits_to_finalize level =
     (if level \<noteq> 0 then Inl (PleaseNotifyTheDevs, Leaf hash) else Inr (Finalized hash))"
| "finalize_deposits (Node hash left right) deposits_to_finalize level =
     (if level = 0 then Inl (PleaseNotifyTheDevs, Node hash left right)
      else let deposits = 2 ^ level
           in if deposits \<le> deposits_to_finalize then Inr (Finalized hash)
              else case finalize_deposits left deposits_to_finalize (level - 1) of
                     Inl (e, left') \<Rightarrow> Inl (e, Node hash left' right)
                   | Inr left' \<Rightarrow>
                       if deposits div 2 < deposits_to_finalize
                       then case finalize_deposits right (deposits_to_finalize - deposits div 2) (level - 1) of
                              Inl (e, right') \<Rightarrow> Inl (e, Node hash left' right')
                            | Inr right' \<Rightarrow> Inr (Node hash left' right')
                       else Inr (Node hash left' right))"

fun append_finalized_hashes :: "merkle_tree \<Rightarrow> bytes32 list \<Rightarrow> bytes32 list" where
  "append_finalized_hashes (Zero _) result = result"
| "append_finalized_hashes (Leaf _) result = result"
| "append_finalized_hashes (Finalized h) result = result @ [h]"
| "append_finalized_hashes (Node _ left right) result =
     append_finalized_hashes right (append_finalized_hashes left result)"

definition get_finalized_hashes :: "merkle_tree \<Rightarrow> bytes32 list" where
  "get_finalized_hashes t = append_finalized_hashes t []"

text \<open>\<^verbatim>\<open>deposit_count.checked_sub(n)\<close> on \<^verbatim>\<open>usize\<close>\<close>

definition usize_checked_sub :: "usize \<Rightarrow> usize \<Rightarrow> usize option" where
  "usize_checked_sub a b = (if b \<le> a then Some (a - b) else None)"

fun from_finalized_snapshot :: "hash_concat \<Rightarrow> (nat \<Rightarrow> bytes32) \<Rightarrow> bytes32 list \<Rightarrow> usize \<Rightarrow> usize
    \<Rightarrow> merkle_tree_error + merkle_tree" where
  "from_finalized_snapshot HC ZH finalized_branch deposit_count level =
     (case finalized_branch of
        [] \<Rightarrow> if deposit_count = 0 then Inr (Zero level)
              else Inl (InvalidSnapshot (EmptyBranchWithNonZeroDeposits deposit_count))
      | first # rest \<Rightarrow>
          if deposit_count = 2 ^ level then Inr (Finalized first)
          else case level of
                 0 \<Rightarrow> Inl (InvalidSnapshot EndOfTree)
               | Suc l \<Rightarrow>
                   bind_r
                     (case usize_checked_sub deposit_count (2 ^ l) of
                        Some right_deposits \<Rightarrow>
                          bind_r (from_finalized_snapshot HC ZH rest right_deposits l)
                            (\<lambda>right. Inr (Finalized first, right))
                      | None \<Rightarrow>
                          bind_r (from_finalized_snapshot HC ZH finalized_branch deposit_count l)
                            (\<lambda>left. Inr (left, Zero l)))
                     (\<lambda>(left, right). Inr (Node (HC (tree_hash ZH left) (tree_hash ZH right)) left right)))"

declare from_finalized_snapshot.simps [simp del]

lemma from_snapshot_Nil [simp]:
  "from_finalized_snapshot HC ZH [] n level =
     (if n = 0 then Inr (Zero level) else Inl (InvalidSnapshot (EmptyBranchWithNonZeroDeposits n)))"
  by (subst from_finalized_snapshot.simps) simp

lemma from_snapshot_Cons [simp]:
  "from_finalized_snapshot HC ZH (f # fs) n 0 =
     (if n = 1 then Inr (Finalized f) else Inl (InvalidSnapshot EndOfTree))"
  "from_finalized_snapshot HC ZH (f # fs) n (Suc l) =
     (if n = 2 ^ Suc l then Inr (Finalized f)
      else bind_r
        (if 2 ^ l \<le> n
         then bind_r (from_finalized_snapshot HC ZH fs (n - 2 ^ l) l) (\<lambda>right. Inr (Finalized f, right))
         else bind_r (from_finalized_snapshot HC ZH (f # fs) n l) (\<lambda>left. Inr (left, Zero l)))
        (\<lambda>(left, right). Inr (Node (HC (tree_hash ZH left) (tree_hash ZH right)) left right)))"
  by (subst from_finalized_snapshot.simps, simp add: usize_checked_sub_def)+

section \<open>Proofs\<close>

text \<open>The left injection is the panic of indexing the table \<^verbatim>\<open>ZERO_NODES\<close> out of range.\<close>

fun left_and_right_branches :: "merkle_tree \<Rightarrow> unit + (merkle_tree \<times> merkle_tree) option" where
  "left_and_right_branches (Finalized _) = Inr None"
| "left_and_right_branches (Leaf _) = Inr None"
| "left_and_right_branches (Zero 0) = Inr None"
| "left_and_right_branches (Node _ l r) = Inr (Some (l, r))"
| "left_and_right_branches (Zero (Suc d)) = (if d \<le> MAX_TREE_DEPTH then Inr (Some (Zero d, Zero d)) else Inl ())"

fun is_leaf :: "merkle_tree \<Rightarrow> bool" where
  "is_leaf (Leaf _) = True"
| "is_leaf _ = False"

fun is_finalized :: "merkle_tree \<Rightarrow> bool" where
  "is_finalized (Finalized _) = True"
| "is_finalized _ = False"

fun proof_walk :: "(nat \<Rightarrow> bytes32) \<Rightarrow> usize \<Rightarrow> merkle_tree \<Rightarrow> usize \<Rightarrow> bytes32 list
    \<Rightarrow> merkle_tree_error failure + merkle_tree \<times> bytes32 list" where
  "proof_walk ZH index current_node 0 path = Inr (current_node, path)"
| "proof_walk ZH index current_node (Suc d) path =
     (let ith_bit = (index div 2 ^ d) mod 2
      in if is_finalized current_node then Inl (Failed ProofEncounteredFinalizedNode)
         else case left_and_right_branches current_node of
                Inl _ \<Rightarrow> Inl Panic
              | Inr None \<Rightarrow> Inl Panic
              | Inr (Some (left, right)) \<Rightarrow>
                  if ith_bit = 1 then proof_walk ZH index right d (path @ [tree_hash ZH left])
                  else proof_walk ZH index left d (path @ [tree_hash ZH right]))"

definition generate_proof :: "(nat \<Rightarrow> bytes32) \<Rightarrow> merkle_tree \<Rightarrow> usize \<Rightarrow> usize
    \<Rightarrow> merkle_tree_error failure + bytes32 \<times> bytes32 list" where
  "generate_proof ZH t index depth =
     bind_r (proof_walk ZH index t depth [])
       (\<lambda>(current_node, path).
          if length path \<noteq> depth then Inl (Failed PleaseNotifyTheDevs)
          else if \<not> is_leaf current_node then Inl (Failed NonLeafProof)
          else Inr (tree_hash ZH current_node, rev path))"

definition branch_step :: "hash_concat \<Rightarrow> usize \<Rightarrow> nat \<times> bytes32 \<Rightarrow> bytes32 \<Rightarrow> bytes32" where
  "branch_step HC index p merkle_root =
     (case p of (i, leaf) \<Rightarrow>
        if (index div 2 ^ i) mod 2 = 1 then HC leaf merkle_root else HC merkle_root leaf)"

text \<open>\<^verbatim>\<open>None\<close> is the panic of the assertion.\<close>

definition merkle_root_from_branch ::
    "hash_concat \<Rightarrow> bytes32 \<Rightarrow> bytes32 list \<Rightarrow> usize \<Rightarrow> usize \<Rightarrow> bytes32 option" where
  "merkle_root_from_branch HC leaf branch depth index =
     (if length branch \<noteq> depth then None
      else Some (fold (branch_step HC index) (take depth (List.enumerate 0 branch)) leaf))"

definition verify_merkle_proof ::
    "hash_concat \<Rightarrow> bytes32 \<Rightarrow> bytes32 list \<Rightarrow> usize \<Rightarrow> usize \<Rightarrow> bytes32 \<Rightarrow> bool" where
  "verify_merkle_proof HC leaf branch depth index root =
     (if length branch = depth then merkle_root_from_branch HC leaf branch depth index = Some root else False)"

section \<open>The tree of a list of leaves\<close>

text \<open>The root of the tree of depth \<open>d\<close> whose first leaves are \<open>ls\<close>, the others being zero.\<close>

fun merkle_root :: "hash_concat \<Rightarrow> (nat \<Rightarrow> bytes32) \<Rightarrow> bytes32 list \<Rightarrow> usize \<Rightarrow> bytes32" where
  "merkle_root HC ZH ls 0 = (if ls = [] then ZH 0 else ls ! 0)"
| "merkle_root HC ZH ls (Suc d) =
     (if ls = [] then ZH (Suc d)
      else HC (merkle_root HC ZH (take (2 ^ d) ls) d) (merkle_root HC ZH (drop (2 ^ d) ls) d))"

fun ftree :: "hash_concat \<Rightarrow> (nat \<Rightarrow> bytes32) \<Rightarrow> nat \<Rightarrow> bytes32 list \<Rightarrow> usize \<Rightarrow> merkle_tree" where
  "ftree HC ZH k ls 0 = (if ls = [] then Zero 0 else if 1 \<le> k then Finalized (ls ! 0) else Leaf (ls ! 0))"
| "ftree HC ZH k ls (Suc d) =
     (if ls = [] then Zero (Suc d)
      else if 2 ^ Suc d \<le> k then Finalized (merkle_root HC ZH ls (Suc d))
      else Node (merkle_root HC ZH ls (Suc d))
             (ftree HC ZH k (take (2 ^ d) ls) d) (ftree HC ZH (k - 2 ^ d) (drop (2 ^ d) ls) d))"

lemma hash_ftree [simp]: "tree_hash ZH (ftree HC ZH k ls d) = merkle_root HC ZH ls d"
  by (cases d) simp_all

lemma merkle_root_Nil [simp]: "merkle_root HC ZH [] d = ZH d"
  by (cases d) simp_all

lemma ftree_Nil [simp]: "ftree HC ZH k [] d = Zero d"
  by (cases d) simp_all

lemma ftree_finalized: "2 ^ d \<le> k \<Longrightarrow> ls \<noteq> [] \<Longrightarrow> ftree HC ZH k ls d = Finalized (merkle_root HC ZH ls d)"
  by (cases d) simp_all

lemma ftree_Leaf: "ls \<noteq> [] \<Longrightarrow> k = 0 \<Longrightarrow> ftree HC ZH k ls 0 = Leaf (ls ! 0)"
  by simp

lemma ftree_Node:
  assumes "ls \<noteq> []" and "0 < d" and "k < 2 ^ d"
  shows "\<exists>l r. ftree HC ZH k ls d = Node (merkle_root HC ZH ls d) l r"
  using assms by (cases d) auto

lemma create_ftree: "create HC ZH ls d = ftree HC ZH 0 ls d"
  by (induction d arbitrary: ls) (simp_all add: Let_def)

section \<open>Pushing a leaf\<close>

lemma full_ftree_cases:
  assumes "length ls = 2 ^ d"
  obtains (fin) "2 ^ d \<le> k" and "ftree HC ZH k ls d = Finalized (merkle_root HC ZH ls d)"
    | (leaf) "k = 0" and "d = 0" and "ls \<noteq> []" and "ftree HC ZH k ls d = Leaf (ls ! 0)"
    | (node) l r where "k < 2 ^ d" and "0 < d" and "ftree HC ZH k ls d = Node (merkle_root HC ZH ls d) l r"
proof -
  have ls: "ls \<noteq> []" using assms by auto
  consider "2 ^ d \<le> k" | "k = 0 \<and> d = 0" | "k < 2 ^ d \<and> 0 < d" 
    by (metis not_less gr0I less_one power_0)
  then show thesis
  proof cases
    case 1
    then show thesis using ftree_finalized [OF 1 ls] fin by blast
  next
    case 2
    then show thesis using ls leaf by simp
  next
    case 3
    then show thesis using ftree_Node [OF ls] node by blast
  qed
qed

lemma push_full:
  assumes "length ls = 2 ^ d" and "k < 2 ^ d" and "0 < d"
  shows "push_leaf HC ZH (ftree HC ZH k ls d) x d = Inl (MerkleTreeFull, ftree HC ZH k ls d)"
  using assms
proof (induction d arbitrary: ls k)
  case 0
  then show ?case by simp
next
  case (Suc d)
  let ?l = "ftree HC ZH k (take (2 ^ d) ls) d" and ?r = "ftree HC ZH (k - 2 ^ d) (drop (2 ^ d) ls) d"
  have t: "ftree HC ZH k ls (Suc d) = Node (merkle_root HC ZH ls (Suc d)) ?l ?r"
    using Suc.prems by auto
  have l: "length (take (2 ^ d) ls) = 2 ^ d" and r: "length (drop (2 ^ d) ls) = 2 ^ d"
    using Suc.prems(1) by simp_all
  have kr: "k - 2 ^ d < 2 ^ d" using Suc.prems(2) by simp
  show ?case
    using r
  proof (cases rule: full_ftree_cases [where k = "k - 2 ^ d" and HC = HC and ZH = ZH])
    case fin
    then show ?thesis using kr by simp
  next
    case leaf
    show ?thesis unfolding t
      using l leaf by (cases rule: full_ftree_cases [where k = k and HC = HC and ZH = ZH]) auto
  next
    case (node a b)
    have push: "push_leaf HC ZH ?r x d = Inl (MerkleTreeFull, ?r)" using Suc.IH [OF r kr node(2)] .
    show ?thesis unfolding t
      using l node push by (cases rule: full_ftree_cases [where k = k and HC = HC and ZH = ZH]) auto
  qed
qed

lemma push_ftree:
  assumes "length ls < 2 ^ d" and "k \<le> length ls" and "0 < d"
  shows "push_leaf HC ZH (ftree HC ZH k ls d) x d = Inr (ftree HC ZH k (ls @ [x]) d)"
  using assms
proof (induction d arbitrary: ls k)
  case 0
  then show ?case by simp
next
  case (Suc d)
  show ?case
  proof (cases "ls = []")
    case True
    then show ?thesis using Suc.prems create_ftree [of HC ZH "[x]" "Suc d"] by simp
  next
    case ls: False
    let ?l = "ftree HC ZH k (take (2 ^ d) ls) d" and ?r = "ftree HC ZH (k - 2 ^ d) (drop (2 ^ d) ls) d"
    have t: "ftree HC ZH k ls (Suc d) = Node (merkle_root HC ZH ls (Suc d)) ?l ?r"
      using Suc.prems ls by auto
    have t': "ftree HC ZH k (ls @ [x]) (Suc d) = Node
        (HC (merkle_root HC ZH (take (2 ^ d) (ls @ [x])) d) (merkle_root HC ZH (drop (2 ^ d) (ls @ [x])) d))
        (ftree HC ZH k (take (2 ^ d) (ls @ [x])) d) (ftree HC ZH (k - 2 ^ d) (drop (2 ^ d) (ls @ [x])) d)"
      using Suc.prems by auto
    consider (less) "length ls < 2 ^ d" | (full) "length ls = 2 ^ d" | (more) "2 ^ d < length ls" by linarith
    then show ?thesis
    proof cases
      case less
      then have d: "0 < d" using ls by (cases d) simp_all
      obtain a b h where l: "?l = Node h a b"
        using ftree_Node [of "take (2 ^ d) ls" d k HC ZH] ls d less Suc.prems(2) by auto
      have "push_leaf HC ZH ?l x d = Inr (ftree HC ZH k (ls @ [x]) d)"
        using Suc.IH [of ls k] less d Suc.prems(2) by simp
      then show ?thesis unfolding t t' using less l by simp
    next
      case full
      then show ?thesis
      proof (cases rule: full_ftree_cases [where k = k and HC = HC and ZH = ZH])
        case fin
        then show ?thesis unfolding t t' using full Suc.prems(2) by (simp add: create_ftree)
      next
        case leaf
        then show ?thesis unfolding t t' using full by (simp add: create_ftree)
      next
        case (node a b)
        have "push_leaf HC ZH ?l x d = Inl (MerkleTreeFull, ?l)"
          using push_full [OF full node(1,2), of HC ZH x] full by simp
        then show ?thesis unfolding t t' using full node by (simp add: create_ftree)
      qed
    next
      case more
      let ?R = "drop (2 ^ d) ls"
      have R: "length ?R < 2 ^ d" "k - 2 ^ d \<le> length ?R" "?R \<noteq> []" using Suc.prems more by auto
      then have d: "0 < d" by (cases d) simp_all
      obtain a b h where r: "?r = Node h a b"
        using ftree_Node [OF R(3) d, of "k - 2 ^ d" HC ZH] R by auto
      have push: "push_leaf HC ZH ?r x d = Inr (ftree HC ZH (k - 2 ^ d) (?R @ [x]) d)"
        using Suc.IH [OF R(1,2) d] .
      have l: "length (take (2 ^ d) ls) = 2 ^ d" using more by simp
      show ?thesis unfolding t t'
        using l push r more d by (cases rule: full_ftree_cases [where k = k and HC = HC and ZH = ZH]) auto
    qed
  qed
qed

section \<open>Finalizing\<close>

lemma finalize_ftree:
  assumes "j \<le> k" and "0 < k" and "length ls \<le> 2 ^ d" and "k \<le> length ls \<or> length ls = 2 ^ d"
  shows "finalize_deposits (ftree HC ZH j ls d) k d = Inr (ftree HC ZH k ls d)"
  using assms
proof (induction d arbitrary: ls j k)
  case 0
  then show ?case by auto
next
  case (Suc d)
  have ls: "ls \<noteq> []" using Suc.prems by auto
  show ?case
  proof (cases "2 ^ Suc d \<le> k")
    case True
    then show ?thesis using ls Suc.prems(1) by auto
  next
    case False
    have l: "finalize_deposits (ftree HC ZH j (take (2 ^ d) ls) d) k d = Inr (ftree HC ZH k (take (2 ^ d) ls) d)"
      using Suc.prems by (intro Suc.IH) auto
    show ?thesis
    proof (cases "2 ^ d < k")
      case True
      have "finalize_deposits (ftree HC ZH (j - 2 ^ d) (drop (2 ^ d) ls) d) (k - 2 ^ d) d =
          Inr (ftree HC ZH (k - 2 ^ d) (drop (2 ^ d) ls) d)"
        using Suc.prems True by (intro Suc.IH) auto
      then show ?thesis using l ls True False Suc.prems(1) by (simp add: Let_def)
    next
      case le: False
      then have "j - 2 ^ d = 0" "k - 2 ^ d = 0" using Suc.prems(1) by simp_all
      then show ?thesis using l ls le False Suc.prems(1) by (simp add: Let_def)
    qed
  qed
qed

section \<open>Snapshots\<close>

lemma append_finalized_hashes_eq: "append_finalized_hashes t xs = xs @ get_finalized_hashes t"
proof (induction t arbitrary: xs)
  case (Node h l r)
  have "get_finalized_hashes (Node h l r) = get_finalized_hashes l @ get_finalized_hashes r"
    unfolding get_finalized_hashes_def [of "Node h l r"]
    by (simp only: append_finalized_hashes.simps Node.IH append_Nil)
  then show ?case by (simp only: append_finalized_hashes.simps Node.IH append.assoc)
qed (simp_all add: get_finalized_hashes_def)

lemma get_finalized_hashes_simps [simp]:
  "get_finalized_hashes (Zero d) = []"
  "get_finalized_hashes (Leaf h) = []"
  "get_finalized_hashes (Finalized h) = [h]"
  "get_finalized_hashes (Node h l r) = get_finalized_hashes l @ get_finalized_hashes r"
  by (simp_all add: get_finalized_hashes_def)
    (simp only: append_finalized_hashes_eq [of r "append_finalized_hashes l []"] get_finalized_hashes_def)

lemma finalized_hashes_none [simp]: "get_finalized_hashes (ftree HC ZH 0 ls d) = []"
  by (induction d arbitrary: ls) simp_all

lemma finalized_hashes_some: "0 < k \<Longrightarrow> ls \<noteq> [] \<Longrightarrow> get_finalized_hashes (ftree HC ZH k ls d) \<noteq> []"
  by (induction d arbitrary: ls) simp_all

lemma snapshot_ftree:
  assumes "k \<le> length ls" and "length ls \<le> 2 ^ d"
  shows "from_finalized_snapshot HC ZH (get_finalized_hashes (ftree HC ZH k ls d)) k d =
    Inr (ftree HC ZH k (take k ls) d)"
  using assms
proof (induction d arbitrary: ls k)
  case 0
  then have "k = 0 \<or> k = 1 \<and> length ls = 1" by auto
  then show ?case by auto
next
  case (Suc d)
  consider (none) "k = 0" | (all) "k = 2 ^ Suc d" | (left) "0 < k" "k < 2 ^ d" | (both) "2 ^ d \<le> k" "k < 2 ^ Suc d"
    using Suc.prems by fastforce
  then show ?case
  proof cases
    case none
    then show ?thesis by simp
  next
    case all
    then have "ls \<noteq> []" "take k ls = ls" using Suc.prems by auto
    then show ?thesis using all by simp
  next
    case left
    have ls: "ls \<noteq> []" using left Suc.prems by auto
    have IH: "from_finalized_snapshot HC ZH (get_finalized_hashes (ftree HC ZH k (take (2 ^ d) ls) d)) k d =
        Inr (ftree HC ZH k (take k ls) d)"
      using Suc.IH [of k "take (2 ^ d) ls"] left Suc.prems by (simp add: min_def)
    obtain f fs where fs: "get_finalized_hashes (ftree HC ZH k (take (2 ^ d) ls) d) = f # fs"
      using finalized_hashes_some [of k "take (2 ^ d) ls" HC ZH d] left ls
      by (cases "get_finalized_hashes (ftree HC ZH k (take (2 ^ d) ls) d)") auto
    then show ?thesis using IH left ls by (simp add: min_def)
  next
    case both
    have ls: "take (2 ^ d) ls \<noteq> []" using both Suc.prems by auto
    have IH: "from_finalized_snapshot HC ZH
          (get_finalized_hashes (ftree HC ZH (k - 2 ^ d) (drop (2 ^ d) ls) d)) (k - 2 ^ d) d =
        Inr (ftree HC ZH (k - 2 ^ d) (drop (2 ^ d) (take k ls)) d)"
      using Suc.IH [of "k - 2 ^ d" "drop (2 ^ d) ls"] both Suc.prems by (simp add: drop_take)
    have l: "ftree HC ZH k (take (2 ^ d) ls) d = Finalized (merkle_root HC ZH (take (2 ^ d) ls) d)"
      using ftree_finalized [OF both(1) ls] .
    show ?thesis using IH both ls l by (auto simp: min_def)
  qed
qed

section \<open>Inclusion proofs\<close>

text \<open>The hash obtained from \<open>leaf\<close> and a branch whose first entry is at height \<open>n\<close>.\<close>

definition climb :: "hash_concat \<Rightarrow> usize \<Rightarrow> nat \<Rightarrow> bytes32 list \<Rightarrow> bytes32 \<Rightarrow> bytes32" where
  "climb HC index n branch leaf = fold (branch_step HC index) (List.enumerate n branch) leaf"

lemma climb_simps [simp]:
  "climb HC index n [] leaf = leaf"
  "climb HC index n (x # xs) leaf = climb HC index (Suc n) xs (branch_step HC index (n, x) leaf)"
  by (simp_all add: climb_def)

lemma climb_append: "climb HC index n (xs @ ys) leaf = climb HC index (n + length xs) ys (climb HC index n xs leaf)"
  by (simp add: climb_def enumerate_append_eq)

lemma verify_climb:
  "verify_merkle_proof HC leaf branch depth index root \<longleftrightarrow>
     length branch = depth \<and> climb HC index 0 branch leaf = root"
  by (auto simp: verify_merkle_proof_def merkle_root_from_branch_def climb_def)

lemma root_children:
  assumes "zero_hashes HC ZH"
  shows "merkle_root HC ZH ls (Suc d) = HC (merkle_root HC ZH (take (2 ^ d) ls) d) (merkle_root HC ZH (drop (2 ^ d) ls) d)"
  using assms by (simp add: zero_hashes_def)

lemma mod_Suc_power: "i mod 2 ^ Suc d = 2 ^ d * (i div 2 ^ d mod 2) + i mod 2 ^ d" for i :: nat
  by (simp add: mod_mult2_eq [of i "2 ^ d" 2, symmetric] mult.commute)

lemma ftree_branches:
  assumes "k < 2 ^ Suc d" and "d \<le> MAX_TREE_DEPTH"
  shows "left_and_right_branches (ftree HC ZH k ls (Suc d)) =
      Inr (Some (ftree HC ZH k (take (2 ^ d) ls) d, ftree HC ZH (k - 2 ^ d) (drop (2 ^ d) ls) d))"
    "\<not> is_finalized (ftree HC ZH k ls (Suc d))"
  using assms by auto

lemma walk_ok:
  assumes zh: "zero_hashes HC ZH"
    and "length ls \<le> 2 ^ d" and "d \<le> Suc MAX_TREE_DEPTH" and "k \<le> i mod 2 ^ d"
  defines "node \<equiv> \<lambda>ls j. if j < length ls then Leaf (ls ! j) else Zero 0"
  shows "\<exists>sibs. proof_walk ZH i (ftree HC ZH k ls d) d path = Inr (node ls (i mod 2 ^ d), path @ sibs)
    \<and> length sibs = d \<and> climb HC i 0 (rev sibs) (tree_hash ZH (node ls (i mod 2 ^ d))) = merkle_root HC ZH ls d"
  using assms(2-4)
proof (induction d arbitrary: ls k path)
  case 0
  then show ?case by (auto simp: node_def)
next
  case (Suc d)
  let ?l = "take (2 ^ d) ls" and ?r = "drop (2 ^ d) ls" and ?b = "i div 2 ^ d mod 2"
  have k: "k < 2 ^ Suc d" using Suc.prems(3) by (rule le_less_trans) simp
  have d: "d \<le> MAX_TREE_DEPTH" using Suc.prems(2) by simp
  note branches = ftree_branches [OF k d, of HC ZH ls]
  show ?case
  proof (cases "?b = 1")
    case True
    then have j: "i mod 2 ^ Suc d = 2 ^ d + i mod 2 ^ d" using mod_Suc_power [of i d] by simp
    have node: "node ?r (i mod 2 ^ d) = node ls (i mod 2 ^ Suc d)"
      unfolding j by (auto simp: node_def)
    have "length ?r \<le> 2 ^ d" "d \<le> Suc MAX_TREE_DEPTH" "k - 2 ^ d \<le> i mod 2 ^ d"
      using Suc.prems unfolding j by simp_all
    note IH = Suc.IH [OF this]
    obtain sibs where s: "proof_walk ZH i (ftree HC ZH (k - 2 ^ d) ?r d) d (path @ [merkle_root HC ZH ?l d]) =
        Inr (node ?r (i mod 2 ^ d), (path @ [merkle_root HC ZH ?l d]) @ sibs)" "length sibs = d"
      "climb HC i 0 (rev sibs) (tree_hash ZH (node ?r (i mod 2 ^ d))) = merkle_root HC ZH ?r d"
      using IH [of "path @ [merkle_root HC ZH ?l d]"] by blast
    show ?thesis
      using s branches True unfolding root_children [OF zh] node [symmetric]
      by (intro exI [of _ "merkle_root HC ZH ?l d # sibs"])
        (simp add: climb_append branch_step_def Let_def del: ftree.simps merkle_root.simps)
  next
    case False
    then have b: "?b = 0" by simp
    then have j: "i mod 2 ^ Suc d = i mod 2 ^ d" using mod_Suc_power [of i d] by simp
    have "i mod 2 ^ d < 2 ^ d" by simp
    then have node: "node ?l (i mod 2 ^ d) = node ls (i mod 2 ^ Suc d)"
      unfolding j by (auto simp: node_def)
    have "length ?l \<le> 2 ^ d" "d \<le> Suc MAX_TREE_DEPTH" "k \<le> i mod 2 ^ d"
      using Suc.prems unfolding j by simp_all
    note IH = Suc.IH [OF this]
    obtain sibs where s: "proof_walk ZH i (ftree HC ZH k ?l d) d (path @ [merkle_root HC ZH ?r d]) =
        Inr (node ?l (i mod 2 ^ d), (path @ [merkle_root HC ZH ?r d]) @ sibs)" "length sibs = d"
      "climb HC i 0 (rev sibs) (tree_hash ZH (node ?l (i mod 2 ^ d))) = merkle_root HC ZH ?l d"
      using IH [of "path @ [merkle_root HC ZH ?r d]"] by blast
    show ?thesis
      using s branches b unfolding root_children [OF zh] node [symmetric]
      by (intro exI [of _ "merkle_root HC ZH ?r d # sibs"])
        (simp add: climb_append branch_step_def Let_def del: ftree.simps merkle_root.simps)
  qed
qed

lemma walk_finalized:
  assumes "i mod 2 ^ d < k" and "i mod 2 ^ d < length ls"
  shows "proof_walk ZH i (ftree HC ZH k ls d) d path = Inl (Failed ProofEncounteredFinalizedNode)
    \<or> (\<exists>h path'. proof_walk ZH i (ftree HC ZH k ls d) d path = Inr (Finalized h, path') \<and> length path' = length path + d)"
  using assms
proof (induction d arbitrary: ls k path)
  case 0
  then show ?case by auto
next
  case (Suc d)
  have ls: "ls \<noteq> []" using Suc.prems by auto
  have j: "i mod 2 ^ Suc d = 2 ^ d * (i div 2 ^ d mod 2) + i mod 2 ^ d" by (rule mod_Suc_power)
  show ?case
  proof (cases "2 ^ Suc d \<le> k")
    case True
    then show ?thesis using ls by (simp add: Let_def)
  next
    case k: False
    show ?thesis
    proof (cases "i div 2 ^ d mod 2 = 1")
      case True
      then show ?thesis
        using Suc.IH [of "k - 2 ^ d" "drop (2 ^ d) ls" "path @ [merkle_root HC ZH (take (2 ^ d) ls) d]"]
          Suc.prems j ls k by (simp add: Let_def)
    next
      case False
      then show ?thesis
        using Suc.IH [of k "take (2 ^ d) ls" "path @ [merkle_root HC ZH (drop (2 ^ d) ls) d]"] Suc.prems j ls k
        by (simp add: Let_def)
    qed
  qed
qed

section \<open>Hash consistency of any tree\<close>

text \<open>The cached hashes of a tree of depth \<open>d\<close> are the hashes of its subtrees.\<close>

fun hashed :: "hash_concat \<Rightarrow> (nat \<Rightarrow> bytes32) \<Rightarrow> merkle_tree \<Rightarrow> usize \<Rightarrow> bool" where
  "hashed HC ZH (Finalized h) d = True"
| "hashed HC ZH (Leaf h) d = (d = 0)"
| "hashed HC ZH (Zero n) d = (n = d)"
| "hashed HC ZH (Node h l r) d =
     (case d of 0 \<Rightarrow> False
      | Suc e \<Rightarrow> h = HC (tree_hash ZH l) (tree_hash ZH r) \<and> hashed HC ZH l e \<and> hashed HC ZH r e)"

declare hashed.simps(4) [simp del]

lemma hashed_Node [simp]:
  "\<not> hashed HC ZH (Node h l r) 0"
  "hashed HC ZH (Node h l r) (Suc e) \<longleftrightarrow>
     h = HC (tree_hash ZH l) (tree_hash ZH r) \<and> hashed HC ZH l e \<and> hashed HC ZH r e"
  by (simp_all add: hashed.simps(4))

lemma hashed_create: "hashed HC ZH (create HC ZH ls d) d"
  by (induction d arbitrary: ls) (simp_all add: Let_def)

lemma push_leaf_error_unchanged:
  "push_leaf HC ZH t x d = Inl (e, t') \<Longrightarrow> t' = t"
proof (induction d arbitrary: t e t')
  case 0
  then show ?case by simp
next
  case (Suc d)
  show ?case using Suc.prems
    by (auto simp: Let_def bind_r_eq_Inl dest!: Suc.IH
        split: merkle_tree.splits sum.splits merkle_tree_error.splits prod.splits)
qed

lemma push_leaf_hashed:
  assumes "hashed HC ZH t d" and "push_leaf HC ZH t x d = Inr t'"
  shows "hashed HC ZH t' d"
  using assms
proof (induction d arbitrary: t t')
  case 0
  then show ?case by simp
next
  case (Suc d)
  show ?case using Suc.prems
    by (auto simp: Let_def bind_r_eq_Inr hashed_create simp del: create.simps
        dest: Suc.IH push_leaf_error_unchanged
        split: merkle_tree.splits sum.splits merkle_tree_error.splits prod.splits)
qed

lemma finalize_hashed:
  assumes "hashed HC ZH t d"
  shows "(case finalize_deposits t k d of
      Inl (e, t') \<Rightarrow> e = ZeroNodeFinalized \<and> hashed HC ZH t' d \<and> tree_hash ZH t' = tree_hash ZH t
    | Inr t' \<Rightarrow> hashed HC ZH t' d \<and> tree_hash ZH t' = tree_hash ZH t)"
  using assms
proof (induction t arbitrary: k d)
  case (Node h l r)
  then obtain e where d: "d = Suc e" by (cases d) auto
  then show ?case
    using Node.prems Node.IH(1) [of e k] Node.IH(2) [of e "k - 2 ^ d div 2"]
    by (auto simp: Let_def split: sum.splits prod.splits)
qed simp_all

lemma walk_hashed:
  assumes zh: "zero_hashes HC ZH" and "hashed HC ZH t d" and "d \<le> Suc MAX_TREE_DEPTH"
  shows "proof_walk ZH i t d path = Inl (Failed ProofEncounteredFinalizedNode)
    \<or> (\<exists>n sibs. proof_walk ZH i t d path = Inr (n, path @ sibs) \<and> length sibs = d
        \<and> climb HC i 0 (rev sibs) (tree_hash ZH n) = tree_hash ZH t)"
  using assms(2,3)
proof (induction d arbitrary: t path)
  case 0
  then show ?case by simp
next
  case (Suc d)
  show ?case
  proof (cases "is_finalized t")
    case True
    then show ?thesis by simp
  next
    case False
    then obtain l r where lr: "left_and_right_branches t = Inr (Some (l, r))"
      "hashed HC ZH l d" "hashed HC ZH r d" "tree_hash ZH t = HC (tree_hash ZH l) (tree_hash ZH r)"
      using Suc.prems zh by (cases t) (auto simp: zero_hashes_def)
    show ?thesis
    proof (cases "i div 2 ^ d mod 2 = 1")
      case True
      then show ?thesis
        using Suc.IH [OF lr(3), of "path @ [tree_hash ZH l]"] Suc.prems(2) lr False
        by (auto simp: Let_def climb_append branch_step_def intro!: exI [of _ "tree_hash ZH l # _"])
    next
      case b: False
      then show ?thesis
        using Suc.IH [OF lr(2), of "path @ [tree_hash ZH r]"] Suc.prems(2) lr False
        by (auto simp: Let_def climb_append branch_step_def intro!: exI [of _ "tree_hash ZH r # _"])
    qed
  qed
qed

lemma generate_proof_hashed:
  assumes "zero_hashes HC ZH" and "hashed HC ZH t d" and "d \<le> Suc MAX_TREE_DEPTH"
  shows "case generate_proof ZH t i d of
      Inl e \<Rightarrow> e = Failed ProofEncounteredFinalizedNode \<or> e = Failed NonLeafProof
    | Inr (leaf, branch) \<Rightarrow> verify_merkle_proof HC leaf branch d i (tree_hash ZH t)"
  using walk_hashed [OF assms, of i "[]"]
  by (auto simp: generate_proof_def verify_climb)

text \<open>Two accepted branches for one position lead to one leaf, or to a collision of the hash function.\<close>

lemma climb_binding:
  assumes "length xs = length ys" and "climb HC i n xs a = climb HC i n ys b"
    and "\<And>p q p' q'. HC p q = HC p' q' \<Longrightarrow> p = p' \<and> q = q'"
  shows "a = b \<and> xs = ys"
  using assms(1,2)
proof (induction xs ys arbitrary: n a b rule: list_induct2)
  case Nil
  then show ?case by simp
next
  case (Cons x xs y ys)
  have "branch_step HC i (n, x) a = branch_step HC i (n, y) b \<and> xs = ys"
    using Cons.IH Cons.prems by simp
  then show ?case by (cases "i div 2 ^ n mod 2 = 1") (auto simp: branch_step_def dest: assms(3))
qed

end
