(* ===== verification/Deposit_Tree.thy ===== *)
theory Deposit_Tree
  imports Merkle_Proof Core_Types Guarded_Steps
begin

text \<open>
  The deposit contract's tree, \<^verbatim>\<open>consensus/state_processing/src/common/deposit_data_tree.rs\<close>, and its
  finalized snapshot, \<^verbatim>\<open>consensus/types/src/deposit_tree_snapshot.rs\<close>. Besides the parameters of
  \<open>Merkle_Proof\<close>, \<open>HF\<close> is \<^verbatim>\<open>hash_fixed\<close> of the crate \<^verbatim>\<open>ethereum_hashing\<close>; \<open>hash_laws\<close> states the
  documented relation between the three. A \<^verbatim>\<open>usize\<close> that is cast from or to \<^verbatim>\<open>u64\<close> is a \<open>64 word\<close>.
\<close>

section \<open>Data\<close>

record finalized_execution_block =
  feb_deposit_root :: bytes32
  feb_deposit_count :: u64
  feb_block_hash :: bytes32
  feb_block_height :: u64

record deposit_tree_snapshot =
  dts_finalized :: "bytes32 list"
  dts_deposit_root :: bytes32
  dts_deposit_count :: u64
  dts_execution_block_hash :: bytes32
  dts_execution_block_height :: u64

record deposit_data_tree =
  ddt_tree :: merkle_tree
  ddt_mix_in_length :: u64
  ddt_finalized_execution_block :: "finalized_execution_block option"
  ddt_depth :: usize

definition hash_laws :: "(u8 list \<Rightarrow> bytes32) \<Rightarrow> hash_concat \<Rightarrow> (nat \<Rightarrow> bytes32) \<Rightarrow> bool" where
  "hash_laws HF HC ZH \<longleftrightarrow> zero_hashes HC ZH \<and> (\<forall>a b. HC a b = HF (a @ b))"

definition finalized_block_of_snapshot :: "deposit_tree_snapshot \<Rightarrow> finalized_execution_block" where
  "finalized_block_of_snapshot s = \<lparr>feb_deposit_root = dts_deposit_root s,
     feb_deposit_count = dts_deposit_count s, feb_block_hash = dts_execution_block_hash s,
     feb_block_height = dts_execution_block_height s\<rparr>"

section \<open>Snapshots\<close>

definition DEPOSIT_TREE_DEPTH :: usize where
  "DEPOSIT_TREE_DEPTH = 32"

fun calculate_root_loop :: "hash_concat \<Rightarrow> (nat \<Rightarrow> bytes32) \<Rightarrow> bytes32 list \<Rightarrow> nat list
    \<Rightarrow> nat \<times> usize \<times> bytes32 \<Rightarrow> (nat \<times> usize \<times> bytes32) option" where
  "calculate_root_loop HC ZH fin [] s = Some s"
| "calculate_root_loop HC ZH fin (height # hs) (sz, index, root) =
     (if sz mod 2 = 1
      then case usize_checked_sub index 1 of
             None \<Rightarrow> None
           | Some index' \<Rightarrow>
               (case nth_opt fin index' of
                  None \<Rightarrow> None
                | Some h \<Rightarrow> calculate_root_loop HC ZH fin hs (sz div 2, index', HC h root))
      else calculate_root_loop HC ZH fin hs (sz div 2, index, HC root (ZH height)))"

definition calculate_root :: "hash_concat \<Rightarrow> (nat \<Rightarrow> bytes32) \<Rightarrow> deposit_tree_snapshot \<Rightarrow> bytes32 option" where
  "calculate_root HC ZH s =
     (case calculate_root_loop HC ZH (dts_finalized s) [0 ..< DEPOSIT_TREE_DEPTH]
             (unat (dts_deposit_count s), length (dts_finalized s), replicate 32 0) of
        None \<Rightarrow> None
      | Some (_, _, root) \<Rightarrow> Some (HC root (int_to_bytes32 (dts_deposit_count s))))"

definition is_valid_snapshot :: "hash_concat \<Rightarrow> (nat \<Rightarrow> bytes32) \<Rightarrow> deposit_tree_snapshot \<Rightarrow> bool" where
  "is_valid_snapshot HC ZH s = (calculate_root HC ZH s = Some (dts_deposit_root s))"

text \<open>\<^verbatim>\<open>None\<close> is the panic of \<^verbatim>\<open>unwrap\<close>.\<close>

definition default_snapshot :: "hash_concat \<Rightarrow> (nat \<Rightarrow> bytes32) \<Rightarrow> deposit_tree_snapshot option" where
  "default_snapshot HC ZH =
     (let result = \<lparr>dts_finalized = [], dts_deposit_root = replicate 32 0, dts_deposit_count = 0,
                    dts_execution_block_hash = replicate 32 0, dts_execution_block_height = 0\<rparr>
      in map_option (\<lambda>r. result\<lparr>dts_deposit_root := r\<rparr>) (calculate_root HC ZH result))"

section \<open>Operations of the tree\<close>

definition deposit_create :: "hash_concat \<Rightarrow> (nat \<Rightarrow> bytes32) \<Rightarrow> bytes32 list \<Rightarrow> u64 \<Rightarrow> usize \<Rightarrow> deposit_data_tree" where
  "deposit_create HC ZH leaves mix_in_length depth =
     \<lparr>ddt_tree = create HC ZH leaves depth, ddt_mix_in_length = mix_in_length,
      ddt_finalized_execution_block = None, ddt_depth = depth\<rparr>"

definition length_bytes :: "deposit_data_tree \<Rightarrow> bytes32" where
  "length_bytes t = int_to_bytes32 (ddt_mix_in_length t)"

definition deposit_root :: "(u8 list \<Rightarrow> bytes32) \<Rightarrow> (nat \<Rightarrow> bytes32) \<Rightarrow> deposit_data_tree \<Rightarrow> bytes32" where
  "deposit_root HF ZH t = HF (tree_hash ZH (ddt_tree t) @ length_bytes t)"

definition deposit_generate_proof :: "(nat \<Rightarrow> bytes32) \<Rightarrow> deposit_data_tree \<Rightarrow> usize
    \<Rightarrow> merkle_tree_error failure + bytes32 \<times> bytes32 list" where
  "deposit_generate_proof ZH t index =
     bind_r (generate_proof ZH (ddt_tree t) index (ddt_depth t))
       (\<lambda>(root, path). Inr (root, path @ [length_bytes t]))"

definition deposit_push_leaf :: "safe_arith \<Rightarrow> hash_concat \<Rightarrow> (nat \<Rightarrow> bytes32) \<Rightarrow> deposit_data_tree \<Rightarrow> bytes32
    \<Rightarrow> (merkle_tree_error, deposit_data_tree) outcome" where
  "deposit_push_leaf A HC ZH t leaf =
     (case push_leaf HC ZH (ddt_tree t) leaf (ddt_depth t) of
        Inl (e, tree) \<Rightarrow> Inl (e, t\<lparr>ddt_tree := tree\<rparr>)
      | Inr tree \<Rightarrow>
          (case sa_add A (ddt_mix_in_length t) 1 of
             Inl _ \<Rightarrow> Inl (ArithError, t\<lparr>ddt_tree := tree\<rparr>)
           | Inr n \<Rightarrow> Inr (t\<lparr>ddt_tree := tree, ddt_mix_in_length := n\<rparr>)))"

definition deposit_finalize :: "deposit_data_tree \<Rightarrow> finalized_execution_block
    \<Rightarrow> (merkle_tree_error, deposit_data_tree) outcome" where
  "deposit_finalize t b =
     (case finalize_deposits (ddt_tree t) (unat (feb_deposit_count b)) (ddt_depth t) of
        Inl (e, tree) \<Rightarrow> Inl (e, t\<lparr>ddt_tree := tree\<rparr>)
      | Inr tree \<Rightarrow> Inr (t\<lparr>ddt_tree := tree, ddt_finalized_execution_block := Some b\<rparr>))"

definition get_snapshot :: "deposit_data_tree \<Rightarrow> deposit_tree_snapshot option" where
  "get_snapshot t =
     (case ddt_finalized_execution_block t of
        None \<Rightarrow> None
      | Some b \<Rightarrow> Some \<lparr>dts_finalized = get_finalized_hashes (ddt_tree t),
          dts_deposit_root = feb_deposit_root b, dts_deposit_count = feb_deposit_count b,
          dts_execution_block_hash = feb_block_hash b, dts_execution_block_height = feb_block_height b\<rparr>)"

definition from_snapshot :: "hash_concat \<Rightarrow> (nat \<Rightarrow> bytes32) \<Rightarrow> deposit_tree_snapshot \<Rightarrow> usize
    \<Rightarrow> merkle_tree_error + deposit_data_tree" where
  "from_snapshot HC ZH s depth =
     bind_r (from_finalized_snapshot HC ZH (dts_finalized s) (unat (dts_deposit_count s)) depth)
       (\<lambda>tree. Inr \<lparr>ddt_tree = tree, ddt_mix_in_length = dts_deposit_count s,
          ddt_finalized_execution_block = Some (finalized_block_of_snapshot s), ddt_depth = depth\<rparr>)"

section \<open>Reachable trees\<close>

datatype deposit_op = PushLeaf bytes32 | Finalize finalized_execution_block

fun deposit_apply :: "safe_arith \<Rightarrow> hash_concat \<Rightarrow> (nat \<Rightarrow> bytes32) \<Rightarrow> deposit_op \<Rightarrow> deposit_data_tree
    \<Rightarrow> (merkle_tree_error, deposit_data_tree) outcome" where
  "deposit_apply A HC ZH (PushLeaf leaf) t = deposit_push_leaf A HC ZH t leaf"
| "deposit_apply A HC ZH (Finalize b) t = deposit_finalize t b"

definition deposit_init :: "hash_concat \<Rightarrow> (nat \<Rightarrow> bytes32) \<Rightarrow> deposit_data_tree \<Rightarrow> bool" where
  "deposit_init HC ZH t \<longleftrightarrow> ddt_depth t \<le> MAX_TREE_DEPTH
     \<and> ((\<exists>leaves n. t = deposit_create HC ZH leaves n (ddt_depth t))
       \<or> (\<exists>s. from_snapshot HC ZH s (ddt_depth t) = Inr t))"

definition deposit_good :: "hash_concat \<Rightarrow> (nat \<Rightarrow> bytes32) \<Rightarrow> deposit_data_tree \<Rightarrow> bool" where
  "deposit_good HC ZH t \<longleftrightarrow> ddt_depth t \<le> MAX_TREE_DEPTH \<and> hashed HC ZH (ddt_tree t) (ddt_depth t)"

lemma from_finalized_snapshot_hashed:
  "from_finalized_snapshot HC ZH fs n d = Inr t \<Longrightarrow> hashed HC ZH t d"
proof (induction d arbitrary: fs n t)
  case 0
  then show ?case by (cases fs) (auto split: if_splits)
next
  case (Suc d)
  show ?case
  proof (cases fs)
    case Nil
    then show ?thesis using Suc.prems by (auto split: if_splits)
  next
    case (Cons f gs)
    then show ?thesis using Suc.prems by (auto simp: bind_r_eq_Inr dest: Suc.IH split: if_splits)
  qed
qed

lemma from_snapshot_fields:
  assumes "from_snapshot HC ZH s d = Inr t"
  shows "from_finalized_snapshot HC ZH (dts_finalized s) (unat (dts_deposit_count s)) d = Inr (ddt_tree t)"
    "ddt_depth t = d" "ddt_mix_in_length t = dts_deposit_count s"
    "ddt_finalized_execution_block t = Some (finalized_block_of_snapshot s)"
  using assms by (auto simp: from_snapshot_def bind_r_eq_Inr)

lemma deposit_init_good:
  assumes "deposit_init HC ZH t"
  shows "deposit_good HC ZH t"
proof -
  have "hashed HC ZH (ddt_tree (deposit_create HC ZH leaves n d)) d" for leaves n d
    by (simp add: deposit_create_def hashed_create)
  then have "hashed HC ZH (ddt_tree t) (ddt_depth t)"
    using assms unfolding deposit_init_def
    by (metis from_finalized_snapshot_hashed from_snapshot_fields(1))
  then show ?thesis using assms by (simp add: deposit_init_def deposit_good_def)
qed

lemma deposit_apply_good:
  assumes "deposit_good HC ZH t"
  shows "after (deposit_good HC ZH) (deposit_apply A HC ZH a t)"
proof (cases a)
  case (PushLeaf x)
  show ?thesis
  proof (cases "push_leaf HC ZH (ddt_tree t) x (ddt_depth t)")
    case (Inl e)
    then show ?thesis using assms push_leaf_error_unchanged [of HC ZH "ddt_tree t" x "ddt_depth t"] PushLeaf
      by (cases e) (auto simp: deposit_push_leaf_def deposit_good_def)
  next
    case (Inr t')
    then show ?thesis using assms push_leaf_hashed [of HC ZH "ddt_tree t" "ddt_depth t" x t'] PushLeaf
      by (auto simp: deposit_push_leaf_def deposit_good_def split: sum.splits)
  qed
next
  case (Finalize b)
  then show ?thesis
    using assms finalize_hashed [of HC ZH "ddt_tree t" "ddt_depth t" "unat (feb_deposit_count b)"]
    by (auto simp: deposit_finalize_def deposit_good_def split: sum.splits)
qed

interpretation deposit_system: guarded_system "deposit_init HC ZH" "deposit_apply A HC ZH" "deposit_good HC ZH"
  for A HC ZH
  by unfold_locales (simp_all add: deposit_init_good deposit_apply_good)

abbreviation deposit_reachable :: "safe_arith \<Rightarrow> hash_concat \<Rightarrow> (nat \<Rightarrow> bytes32) \<Rightarrow> deposit_data_tree \<Rightarrow> bool" where
  "deposit_reachable A HC ZH \<equiv> deposit_system.reachable HC ZH A"

section \<open>The leaves and the finalized count\<close>

text \<open>
  \<open>deposit_rep HC ZH t ls k\<close>: \<open>t\<close> holds the deposits \<open>ls\<close>, of which the first \<open>k\<close> are finalized by
  its finalized block.
\<close>

definition deposit_rep :: "hash_concat \<Rightarrow> (nat \<Rightarrow> bytes32) \<Rightarrow> deposit_data_tree \<Rightarrow> bytes32 list \<Rightarrow> nat \<Rightarrow> bool" where
  "deposit_rep HC ZH t ls k \<longleftrightarrow>
     0 < ddt_depth t \<and> ddt_depth t \<le> MAX_TREE_DEPTH \<and> k \<le> length ls \<and> length ls \<le> 2 ^ ddt_depth t
     \<and> ddt_tree t = ftree HC ZH k ls (ddt_depth t) \<and> ddt_mix_in_length t = of_nat (length ls)
     \<and> (case ddt_finalized_execution_block t of None \<Rightarrow> k = 0 | Some b \<Rightarrow> unat (feb_deposit_count b) = k)"

lemma capacity_less: "d \<le> MAX_TREE_DEPTH \<Longrightarrow> n \<le> 2 ^ d \<Longrightarrow> n < 2 ^ 63" for n :: nat
proof -
  assume "d \<le> MAX_TREE_DEPTH" "n \<le> 2 ^ d"
  moreover from this have "(2 :: nat) ^ d \<le> 2 ^ 32" by (intro power_increasing) (simp_all add: MAX_TREE_DEPTH_def)
  ultimately show ?thesis by simp
qed

lemma rep_create:
  assumes "0 < d" and "d \<le> MAX_TREE_DEPTH" and "length ls \<le> 2 ^ d"
  shows "deposit_rep HC ZH (deposit_create HC ZH ls (of_nat (length ls)) d) ls 0"
  using assms by (simp add: deposit_rep_def deposit_create_def create_ftree)

lemma rep_length:
  assumes "deposit_rep HC ZH t ls k"
  shows "unat (ddt_mix_in_length t) = length ls" "ddt_mix_in_length t = of_nat (length ls)"
  using assms capacity_less [of "ddt_depth t" "length ls"]
  by (simp_all add: deposit_rep_def unat_of_nat)

lemma rep_unique:
  assumes "deposit_rep HC ZH t ls k" and "deposit_rep HC ZH t' ls k" and "ddt_depth t = ddt_depth t'"
    and "ddt_finalized_execution_block t = ddt_finalized_execution_block t'"
  shows "t = t'"
  using assms by (intro deposit_data_tree.equality) (simp_all add: deposit_rep_def)

lemma rep_push:
  assumes A: "safe_arith_laws A" and rep: "deposit_rep HC ZH t ls k" and less: "length ls < 2 ^ ddt_depth t"
  shows "\<exists>t'. deposit_push_leaf A HC ZH t x = Inr t' \<and> deposit_rep HC ZH t' (ls @ [x]) k
    \<and> ddt_depth t' = ddt_depth t \<and> ddt_finalized_execution_block t' = ddt_finalized_execution_block t"
proof -
  have push: "push_leaf HC ZH (ddt_tree t) x (ddt_depth t) = Inr (ftree HC ZH k (ls @ [x]) (ddt_depth t))"
    using push_ftree [OF less, of k HC ZH x] rep by (simp add: deposit_rep_def)
  have "unat (ddt_mix_in_length t) < 2 ^ 63"
    using rep_length(1) [OF rep] rep capacity_less [of "ddt_depth t" "length ls"]
    by (simp add: deposit_rep_def)
  then have "sa_add A (ddt_mix_in_length t) 1 = Inr (ddt_mix_in_length t + 1)"
    by (simp add: safe_arith_eqs [OF A] checked_add_unat)
  then show ?thesis
    using push rep less by (simp add: deposit_push_leaf_def deposit_rep_def add.commute)
qed

lemma rep_push_full:
  assumes rep: "deposit_rep HC ZH t ls k" and full: "length ls = 2 ^ ddt_depth t"
  shows "deposit_push_leaf A HC ZH t x =
    Inl (if k = length ls then FinalizedNodePushed else MerkleTreeFull, t)"
proof (cases "k = length ls")
  case True
  then have "ls \<noteq> []" using full by auto
  then obtain d where d: "ddt_depth t = Suc d" "ddt_tree t = Finalized (merkle_root HC ZH ls (ddt_depth t))"
    using True rep full ftree_finalized [of "ddt_depth t" k ls HC ZH]
    by (cases "ddt_depth t") (auto simp: deposit_rep_def)
  have "t\<lparr>ddt_tree := Finalized (merkle_root HC ZH ls (ddt_depth t))\<rparr> = t" using d(2) by simp
  then show ?thesis using d True by (simp add: deposit_push_leaf_def)
next
  case False
  then have "push_leaf HC ZH (ddt_tree t) x (ddt_depth t) = Inl (MerkleTreeFull, ddt_tree t)"
    using push_full [OF full, of k HC ZH x] rep full by (simp add: deposit_rep_def)
  then show ?thesis using False by (simp add: deposit_push_leaf_def)
qed

lemma rep_finalize:
  assumes rep: "deposit_rep HC ZH t ls k" and "k \<le> unat (feb_deposit_count b)" and "0 < feb_deposit_count b"
    and "unat (feb_deposit_count b) \<le> length ls"
  shows "\<exists>t'. deposit_finalize t b = Inr t' \<and> deposit_rep HC ZH t' ls (unat (feb_deposit_count b))
    \<and> ddt_depth t' = ddt_depth t \<and> ddt_finalized_execution_block t' = Some b"
proof -
  have "0 < unat (feb_deposit_count b)" using assms(3) by (simp add: unat_gt_0)
  then have "finalize_deposits (ddt_tree t) (unat (feb_deposit_count b)) (ddt_depth t) =
      Inr (ftree HC ZH (unat (feb_deposit_count b)) ls (ddt_depth t))"
    using assms finalize_ftree [of k "unat (feb_deposit_count b)" ls "ddt_depth t" HC ZH]
    by (simp add: deposit_rep_def)
  then show ?thesis using assms by (simp add: deposit_finalize_def deposit_rep_def)
qed

lemma rep_root:
  assumes "deposit_rep HC ZH t ls k" and "hash_laws HF HC ZH"
  shows "deposit_root HF ZH t = HC (merkle_root HC ZH ls (ddt_depth t)) (int_to_bytes32 (of_nat (length ls)))"
  using assms by (simp add: deposit_root_def deposit_rep_def hash_laws_def length_bytes_def)

section \<open>Proofs of inclusion\<close>

lemma length_generate_proof:
  "generate_proof ZH t i d = Inr (leaf, branch) \<Longrightarrow> length branch = d"
  by (auto simp: generate_proof_def bind_r_eq_Inr split: if_splits)

lemma verify_deposit_branch:
  assumes "hash_laws HF HC ZH" and "i < 2 ^ ddt_depth t"
    and "verify_merkle_proof HC leaf branch (ddt_depth t) i (tree_hash ZH (ddt_tree t))"
  shows "verify_merkle_proof HC leaf (branch @ [length_bytes t]) (Suc (ddt_depth t)) i (deposit_root HF ZH t)"
  using assms by (simp add: verify_climb climb_append branch_step_def deposit_root_def hash_laws_def)

lemma good_generate_proof:
  assumes "deposit_good HC ZH t" and "hash_laws HF HC ZH" and "i < 2 ^ ddt_depth t"
  shows "case deposit_generate_proof ZH t i of
      Inl e \<Rightarrow> e = Failed ProofEncounteredFinalizedNode \<or> e = Failed NonLeafProof
    | Inr (leaf, branch) \<Rightarrow> verify_merkle_proof HC leaf branch (Suc (ddt_depth t)) i (deposit_root HF ZH t)"
proof -
  have "zero_hashes HC ZH" "hashed HC ZH (ddt_tree t) (ddt_depth t)" "ddt_depth t \<le> Suc MAX_TREE_DEPTH"
    using assms(1,2) by (simp_all add: hash_laws_def deposit_good_def)
  note gp = generate_proof_hashed [OF this, of i]
  show ?thesis
  proof (cases "generate_proof ZH (ddt_tree t) i (ddt_depth t)")
    case (Inl e)
    then show ?thesis using gp by (simp add: deposit_generate_proof_def)
  next
    case (Inr p)
    then show ?thesis using gp verify_deposit_branch [OF assms(2,3)]
      by (cases p) (simp add: deposit_generate_proof_def)
  qed
qed

lemma rep_good: "deposit_rep HC ZH t ls k \<Longrightarrow> zero_hashes HC ZH \<Longrightarrow> deposit_good HC ZH t"
proof -
  have "hashed HC ZH (ftree HC ZH k ls d) d" if "zero_hashes HC ZH" for k ls d
  proof (induction d arbitrary: k ls)
    case (Suc d)
    then show ?case by (auto simp: root_children [OF that])
  qed auto
  then show "deposit_rep HC ZH t ls k \<Longrightarrow> zero_hashes HC ZH \<Longrightarrow> deposit_good HC ZH t"
    by (simp add: deposit_rep_def deposit_good_def)
qed

lemma rep_generate_proof:
  assumes rep: "deposit_rep HC ZH t ls k" and hl: "hash_laws HF HC ZH" and i: "i < 2 ^ ddt_depth t"
  shows "k \<le> i \<Longrightarrow> i < length ls \<Longrightarrow> \<exists>branch. deposit_generate_proof ZH t i = Inr (ls ! i, branch)"
    "length ls \<le> i \<Longrightarrow> deposit_generate_proof ZH t i = Inl (Failed NonLeafProof)"
    "i < k \<Longrightarrow> \<exists>e. deposit_generate_proof ZH t i = Inl (Failed e)"
proof -
  let ?d = "ddt_depth t"
  have zh: "zero_hashes HC ZH" using hl by (simp add: hash_laws_def)
  have t: "ddt_tree t = ftree HC ZH k ls ?d" "length ls \<le> 2 ^ ?d" "?d \<le> Suc MAX_TREE_DEPTH" "k \<le> length ls"
    using rep by (simp_all add: deposit_rep_def)
  have im: "i mod 2 ^ ?d = i" using i by simp
  have walk: "\<exists>sibs. proof_walk ZH i (ddt_tree t) ?d [] =
      Inr (if i < length ls then Leaf (ls ! i) else Zero 0, sibs) \<and> length sibs = ?d" if "k \<le> i"
    using walk_ok [OF zh t(2,3), of k i "[]"] that unfolding im t(1) by auto
  show "\<exists>branch. deposit_generate_proof ZH t i = Inr (ls ! i, branch)" if "k \<le> i" "i < length ls"
    using walk [OF that(1)] that(2) by (auto simp: deposit_generate_proof_def generate_proof_def)
  show "deposit_generate_proof ZH t i = Inl (Failed NonLeafProof)" if "length ls \<le> i"
    using walk that t(4) by (auto simp: deposit_generate_proof_def generate_proof_def)
  show "\<exists>e. deposit_generate_proof ZH t i = Inl (Failed e)" if "i < k"
    using walk_finalized [of i ?d k ls ZH HC "[]"] that t(4) unfolding im t(1) [symmetric]
    by (auto simp: deposit_generate_proof_def generate_proof_def)
qed

section \<open>Snapshots of the finalized part\<close>

lemma finalized_hashes_left:
  assumes "k < 2 ^ d"
  shows "get_finalized_hashes (ftree HC ZH k ls (Suc d)) = get_finalized_hashes (ftree HC ZH k (take (2 ^ d) ls) d)"
  using assms by simp

lemma finalized_hashes_both:
  assumes "2 ^ d \<le> k" and "k < 2 ^ Suc d" and "k \<le> length ls"
  shows "get_finalized_hashes (ftree HC ZH k ls (Suc d)) =
    merkle_root HC ZH (take (2 ^ d) ls) d # get_finalized_hashes (ftree HC ZH (k - 2 ^ d) (drop (2 ^ d) ls) d)"
proof -
  have "ls \<noteq> []" using assms by auto
  then show ?thesis using assms ftree_finalized [of d k "take (2 ^ d) ls" HC ZH] by simp
qed

lemma mod_Suc_power_cases:
  fixes n :: nat
  shows "n mod 2 ^ Suc d < 2 ^ d \<Longrightarrow> n div 2 ^ d mod 2 = 0 \<and> n mod 2 ^ d = n mod 2 ^ Suc d"
    "2 ^ d \<le> n mod 2 ^ Suc d \<Longrightarrow> n div 2 ^ d mod 2 = 1 \<and> n mod 2 ^ d = n mod 2 ^ Suc d - 2 ^ d"
proof -
  have b: "n div 2 ^ d mod 2 = 0 \<or> n div 2 ^ d mod 2 = 1" by auto
  define m where "m = n mod 2 ^ d"
  have m: "m < 2 ^ d" by (simp add: m_def)
  show "n mod 2 ^ Suc d < 2 ^ d \<Longrightarrow> n div 2 ^ d mod 2 = 0 \<and> n mod 2 ^ d = n mod 2 ^ Suc d"
    using b m unfolding mod_Suc_power m_def [symmetric] by auto
  show "2 ^ d \<le> n mod 2 ^ Suc d \<Longrightarrow> n div 2 ^ d mod 2 = 1 \<and> n mod 2 ^ d = n mod 2 ^ Suc d - 2 ^ d"
    using b m unfolding mod_Suc_power m_def [symmetric] by auto
qed

lemma calculate_root_append:
  "calculate_root_loop HC ZH fs (hs @ hs') s =
     (case calculate_root_loop HC ZH fs hs s of None \<Rightarrow> None | Some s' \<Rightarrow> calculate_root_loop HC ZH fs hs' s')"
proof (induction hs arbitrary: s)
  case (Cons h hs)
  obtain n i r where "s = (n, i, r)" by (cases s)
  then show ?case using Cons by (simp split: option.splits)
qed simp

text \<open>The loop consumes the finalized hashes of a subtree from the right while it climbs it.\<close>

lemma calculate_root_climb:
  assumes zh: "zero_hashes HC ZH"
    and "n mod 2 ^ d \<le> length ls"
    and "take i fs = pre @ get_finalized_hashes (ftree HC ZH (n mod 2 ^ d) ls d)" and "i \<le> length fs"
  shows "calculate_root_loop HC ZH fs [0 ..< d] (n, i, ZH 0) =
    Some (n div 2 ^ d, length pre, merkle_root HC ZH (take (n mod 2 ^ d) ls) d)"
  using assms(2-4)
proof (induction d arbitrary: ls pre)
  case 0
  then have "take i fs = pre" by simp
  then have "i = length pre" using 0 by auto
  then show ?case by simp
next
  case (Suc d)
  let ?k = "n mod 2 ^ Suc d"
  have halve: "n div 2 ^ d div 2 = n div 2 ^ Suc d" by (simp add: div_mult2_eq [symmetric] mult.commute)
  show ?case
  proof (cases "?k < 2 ^ d")
    case True
    note bits = mod_Suc_power_cases(1) [OF True]
    have "calculate_root_loop HC ZH fs [0 ..< d] (n, i, ZH 0) =
        Some (n div 2 ^ d, length pre, merkle_root HC ZH (take ?k (take (2 ^ d) ls)) d)"
      using Suc.IH [of "take (2 ^ d) ls" pre] Suc.prems bits finalized_hashes_left [OF True, of HC ZH ls] True
      by (simp add: min_def)
    moreover have "take (2 ^ d) (take ?k ls) = take ?k ls" "drop (2 ^ d) (take ?k ls) = []"
      using True by (simp_all add: min_def)
    ultimately show ?thesis using bits True
      unfolding root_children [OF zh] halve [symmetric] by (simp add: calculate_root_append min_def)
  next
    case False
    then have ge: "2 ^ d \<le> ?k" and lt: "?k < 2 ^ Suc d" by simp_all
    note bits = mod_Suc_power_cases(2) [OF ge]
    let ?h = "merkle_root HC ZH (take (2 ^ d) ls) d"
    note both = finalized_hashes_both [OF ge lt Suc.prems(1), of HC ZH]
    have fs: "take i fs = (pre @ [?h]) @ get_finalized_hashes (ftree HC ZH (n mod 2 ^ d) (drop (2 ^ d) ls) d)"
      using Suc.prems(2) bits unfolding both by simp
    have loop: "calculate_root_loop HC ZH fs [0 ..< d] (n, i, ZH 0) =
        Some (n div 2 ^ d, Suc (length pre), merkle_root HC ZH (take (n mod 2 ^ d) (drop (2 ^ d) ls)) d)"
      using Suc.IH [OF _ fs Suc.prems(3)] Suc.prems(1) bits by simp
    have "length pre < length (take i fs)" unfolding fs by simp
    moreover have "take i fs ! length pre = ?h" unfolding fs by (simp add: nth_append)
    ultimately have "length pre < length fs" "fs ! length pre = ?h" by simp_all
    then show ?thesis using bits loop ge
      unfolding root_children [OF zh] halve [symmetric]
      by (simp add: calculate_root_append usize_checked_sub_def nth_opt_def drop_take min_def)
  qed
qed

lemma rep_snapshot:
  assumes rep: "deposit_rep HC ZH t ls k" and b: "ddt_finalized_execution_block t = Some b"
  shows "\<exists>s t'. get_snapshot t = Some s \<and> dts_deposit_count s = of_nat k \<and> dts_deposit_root s = feb_deposit_root b
    \<and> dts_finalized s = get_finalized_hashes (ftree HC ZH k ls (ddt_depth t))
    \<and> from_snapshot HC ZH s (ddt_depth t) = Inr t' \<and> deposit_rep HC ZH t' (take k ls) k
    \<and> ddt_depth t' = ddt_depth t \<and> ddt_finalized_execution_block t' = Some b"
proof -
  have k: "unat (feb_deposit_count b) = k" "feb_deposit_count b = of_nat k"
    using rep b by (auto simp: deposit_rep_def)
  obtain s where s: "get_snapshot t = Some s" "dts_deposit_count s = feb_deposit_count b"
    "dts_finalized s = get_finalized_hashes (ftree HC ZH k ls (ddt_depth t))"
    "finalized_block_of_snapshot s = b" "dts_deposit_root s = feb_deposit_root b"
    using rep b by (simp add: get_snapshot_def finalized_block_of_snapshot_def deposit_rep_def)
  have "from_finalized_snapshot HC ZH (dts_finalized s) k (ddt_depth t) = Inr (ftree HC ZH k (take k ls) (ddt_depth t))"
    using snapshot_ftree [of k ls "ddt_depth t" HC ZH] rep s(3) by (simp add: deposit_rep_def)
  then have "from_snapshot HC ZH s (ddt_depth t) = Inr \<lparr>ddt_tree = ftree HC ZH k (take k ls) (ddt_depth t),
      ddt_mix_in_length = of_nat k, ddt_finalized_execution_block = Some b, ddt_depth = ddt_depth t\<rparr>"
    using s k by (simp add: from_snapshot_def)
  moreover have "length (take k ls) = k" using rep by (simp add: deposit_rep_def)
  ultimately show ?thesis using s k rep by (simp add: deposit_rep_def)
qed

fun push_all :: "safe_arith \<Rightarrow> hash_concat \<Rightarrow> (nat \<Rightarrow> bytes32) \<Rightarrow> deposit_data_tree \<Rightarrow> bytes32 list
    \<Rightarrow> (merkle_tree_error, deposit_data_tree) outcome" where
  "push_all A HC ZH t [] = Inr t"
| "push_all A HC ZH t (x # xs) = bind_r (deposit_push_leaf A HC ZH t x) (\<lambda>t'. push_all A HC ZH t' xs)"

lemma rep_push_all:
  assumes "safe_arith_laws A" and "deposit_rep HC ZH t ls k" and "length ls + length xs \<le> 2 ^ ddt_depth t"
  shows "\<exists>t'. push_all A HC ZH t xs = Inr t' \<and> deposit_rep HC ZH t' (ls @ xs) k
    \<and> ddt_depth t' = ddt_depth t \<and> ddt_finalized_execution_block t' = ddt_finalized_execution_block t"
  using assms(2,3)
proof (induction xs arbitrary: t ls)
  case Nil
  then show ?case by simp
next
  case (Cons x xs)
  obtain t1 where t1: "deposit_push_leaf A HC ZH t x = Inr t1" "deposit_rep HC ZH t1 (ls @ [x]) k"
    "ddt_depth t1 = ddt_depth t" "ddt_finalized_execution_block t1 = ddt_finalized_execution_block t"
    using rep_push [OF assms(1) Cons.prems(1), of x] Cons.prems(2) by auto
  then show ?case using Cons.IH [OF t1(2)] Cons.prems(2) by auto
qed

end
