(* ===== verification/Deposit_Properties.thy ===== *)
theory Deposit_Properties
  imports Deposit_Tree
begin

text \<open>
  What the deposit tree promises: it is the Merkle tree of the pushed leaves whatever was finalized,
  its proofs verify, and its snapshots restore it.
\<close>

section \<open>A sample tree\<close>

definition toy_concat :: hash_concat where
  "toy_concat a b = a @ b"

definition toy_zero :: "nat \<Rightarrow> bytes32" where
  "toy_zero d = replicate (32 * 2 ^ d) 0"

lemma toy_hash_laws: "hash_laws (\<lambda>bs. bs) toy_concat toy_zero"
  by (simp add: hash_laws_def zero_hashes_def toy_concat_def toy_zero_def replicate_add [symmetric] mult_2)

definition toy_deposits :: "bytes32 list" where
  "toy_deposits = [[1], [2], [3]]"

definition toy_tree :: deposit_data_tree where
  "toy_tree = deposit_create toy_concat toy_zero toy_deposits 3 2"

lemma toy_tree_rep: "deposit_rep toy_concat toy_zero toy_tree toy_deposits 0"
  using rep_create [of 2 toy_deposits toy_concat toy_zero]
  by (simp add: toy_tree_def MAX_TREE_DEPTH_def toy_deposits_def)

definition toy_block :: finalized_execution_block where
  "toy_block = \<lparr>feb_deposit_root = [7], feb_deposit_count = 1, feb_block_hash = [8], feb_block_height = 9\<rparr>"

definition toy_finalized :: deposit_data_tree where
  "toy_finalized = toy_tree\<lparr>ddt_tree := ftree toy_concat toy_zero 1 toy_deposits 2,
     ddt_finalized_execution_block := Some toy_block\<rparr>"

lemma toy_finalized_rep: "deposit_rep toy_concat toy_zero toy_finalized toy_deposits 1"
  using toy_tree_rep
  by (simp add: deposit_rep_def toy_finalized_def toy_block_def toy_tree_def deposit_create_def
      toy_deposits_def)

lemma toy_fields:
  "ddt_depth toy_tree = 2" "ddt_depth toy_finalized = 2" "length toy_deposits = 3"
  "ddt_finalized_execution_block toy_finalized = Some toy_block" "feb_deposit_count toy_block = 1"
  by (simp_all add: toy_tree_def toy_finalized_def deposit_create_def toy_deposits_def toy_block_def)

section \<open>Pushing, finalizing, proving\<close>

text \<open>C23. The deposit tree refines the list of its deposits: while there is room a push appends the deposit, a
  push to a full tree fails and changes nothing, and the root is the root of the deposits and their
  number, whatever part of them is finalized.\<close>

theorem deposit_push_appends:
  assumes "safe_arith_laws A" and "hash_laws HF HC ZH" and "deposit_rep HC ZH t ls k"
  shows "(if length ls < 2 ^ ddt_depth t
      then \<exists>t'. deposit_push_leaf A HC ZH t x = Inr t' \<and> deposit_rep HC ZH t' (ls @ [x]) k
             \<and> deposit_root HF ZH t' =
                 HC (merkle_root HC ZH (ls @ [x]) (ddt_depth t)) (int_to_bytes32 (of_nat (Suc (length ls))))
      else deposit_push_leaf A HC ZH t x =
             Inl (if k = length ls then FinalizedNodePushed else MerkleTreeFull, t))"
proof (cases "length ls < 2 ^ ddt_depth t")
  case True
  then obtain t' where t': "deposit_push_leaf A HC ZH t x = Inr t'" "deposit_rep HC ZH t' (ls @ [x]) k"
    "ddt_depth t' = ddt_depth t" using rep_push [OF assms(1,3)] by blast
  then show ?thesis using True rep_root [OF t'(2) assms(2)] by simp
next
  case False
  then have "length ls = 2 ^ ddt_depth t" using assms(3) by (simp add: deposit_rep_def)
  then show ?thesis using rep_push_full [OF assms(3)] by simp
qed

theorem deposit_push_appends_witness:
  "\<exists>t'. deposit_push_leaf checked_arith toy_concat toy_zero toy_finalized [4] = Inr t'
     \<and> deposit_rep toy_concat toy_zero t' (toy_deposits @ [[4]]) 1"
  using deposit_push_appends [OF checked_arith_laws toy_hash_laws toy_finalized_rep, of "[4]"]
  by (auto simp: toy_fields)

text \<open>C28. Finalizing up to a count that lies between the finalized count of the tree and the number of its
  deposits succeeds, records the block and leaves the deposits and the root as they are.\<close>

theorem deposit_finalize_keeps_root:
  assumes "hash_laws HF HC ZH" and "deposit_rep HC ZH t ls k"
    and "k \<le> unat (feb_deposit_count b)" and "0 < feb_deposit_count b" and "unat (feb_deposit_count b) \<le> length ls"
  shows "\<exists>t'. deposit_finalize t b = Inr t' \<and> deposit_rep HC ZH t' ls (unat (feb_deposit_count b))
    \<and> deposit_root HF ZH t' = deposit_root HF ZH t"
proof -
  obtain t' where t': "deposit_finalize t b = Inr t'" "deposit_rep HC ZH t' ls (unat (feb_deposit_count b))"
    "ddt_depth t' = ddt_depth t" using rep_finalize [OF assms(2-5)] by blast
  then show ?thesis using rep_root [OF t'(2) assms(1)] rep_root [OF assms(2,1)] by simp
qed

theorem deposit_finalize_keeps_root_witness:
  "\<exists>t'. deposit_finalize toy_tree toy_block = Inr t' \<and> deposit_rep toy_concat toy_zero t' toy_deposits 1
     \<and> deposit_root (\<lambda>bs. bs) toy_zero t' = deposit_root (\<lambda>bs. bs) toy_zero toy_tree"
  using deposit_finalize_keeps_root [OF toy_hash_laws toy_tree_rep, of toy_block] by (simp add: toy_fields)

text \<open>C24. Every deposit that is not finalized has a proof: it names the deposit and verifies against the root
  with the length mixed in. A finalized deposit has none, and neither has a position without a deposit.\<close>

theorem deposit_proof_verifies:
  assumes "hash_laws HF HC ZH" and "deposit_rep HC ZH t ls k" and "i < 2 ^ ddt_depth t"
  shows "if k \<le> i \<and> i < length ls
    then \<exists>branch. deposit_generate_proof ZH t i = Inr (ls ! i, branch)
           \<and> verify_merkle_proof HC (ls ! i) branch (Suc (ddt_depth t)) i (deposit_root HF ZH t)
    else if i < k then \<exists>e. deposit_generate_proof ZH t i = Inl (Failed e)
    else deposit_generate_proof ZH t i = Inl (Failed NonLeafProof)"
proof -
  have "deposit_good HC ZH t" using rep_good [OF assms(2)] assms(1) by (simp add: hash_laws_def)
  note verifies = good_generate_proof [OF this assms(1,3)]
  note gp = rep_generate_proof [OF assms(2,1,3)]
  show ?thesis
  proof (cases "k \<le> i \<and> i < length ls")
    case True
    then show ?thesis using gp(1) verifies by auto
  next
    case False
    then show ?thesis using gp(2,3) by auto
  qed
qed

theorem deposit_proof_verifies_witness:
  "\<exists>branch. deposit_generate_proof toy_zero toy_finalized 2 = Inr ([3], branch)
     \<and> verify_merkle_proof toy_concat [3] branch 3 2 (deposit_root (\<lambda>bs. bs) toy_zero toy_finalized)"
  using deposit_proof_verifies [OF toy_hash_laws toy_finalized_rep, of 2]
  by (simp add: toy_fields) (simp add: toy_deposits_def)

text \<open>C27. On every tree that pushes and finalizations reach from a list of leaves or from a snapshot, also
  past failed calls, a proof request for a position of the tree neither panics nor reports an internal
  error, and every proof it returns verifies against the root of that tree.\<close>

theorem reachable_deposit_proofs_verify:
  assumes "hash_laws HF HC ZH" and "deposit_reachable A HC ZH t" and "i < 2 ^ ddt_depth t"
  shows "case deposit_generate_proof ZH t i of
      Inl e \<Rightarrow> e = Failed ProofEncounteredFinalizedNode \<or> e = Failed NonLeafProof
    | Inr (leaf, branch) \<Rightarrow> verify_merkle_proof HC leaf branch (Suc (ddt_depth t)) i (deposit_root HF ZH t)"
  using good_generate_proof [OF deposit_system.reachable_good [OF assms(2)] assms(1,3)] .

lemma toy_reachable: "deposit_reachable checked_arith toy_concat toy_zero toy_finalized"
proof (rule deposit_system.reachable.ok [of _ _ _ toy_tree "Finalize toy_block"])
  have "deposit_init toy_concat toy_zero toy_tree"
    unfolding deposit_init_def toy_fields by (auto simp: toy_tree_def MAX_TREE_DEPTH_def)
  then show "deposit_reachable checked_arith toy_concat toy_zero toy_tree"
    by (rule deposit_system.reachable.start)
  have "finalize_deposits (ddt_tree toy_tree) 1 2 = Inr (ftree toy_concat toy_zero 1 toy_deposits 2)"
    using finalize_ftree [of 0 1 toy_deposits 2 toy_concat toy_zero] toy_tree_rep
    by (simp add: deposit_rep_def toy_fields)
  then show "deposit_apply checked_arith toy_concat toy_zero (Finalize toy_block) toy_tree = Inr toy_finalized"
    by (simp add: deposit_finalize_def toy_fields toy_finalized_def)
qed

theorem reachable_deposit_proofs_verify_witness:
  "case deposit_generate_proof toy_zero toy_finalized 1 of
      Inl e \<Rightarrow> e = Failed ProofEncounteredFinalizedNode \<or> e = Failed NonLeafProof
    | Inr (leaf, branch) \<Rightarrow>
        verify_merkle_proof toy_concat leaf branch (Suc (ddt_depth toy_finalized)) 1
          (deposit_root (\<lambda>bs. bs) toy_zero toy_finalized)"
  using reachable_deposit_proofs_verify [OF toy_hash_laws toy_reachable, of 1] toy_fields(2) by simp



section \<open>Snapshots\<close>

text \<open>C25. The snapshot of a finalized tree restores it: the restored tree holds the finalized deposits, and
  pushing the later deposits to it gives the tree that the snapshot was taken of.\<close>

theorem snapshot_restores_tree:
  assumes "safe_arith_laws A" and "deposit_rep HC ZH t ls k" and "ddt_finalized_execution_block t = Some b"
  shows "\<exists>s t'. get_snapshot t = Some s \<and> from_snapshot HC ZH s (ddt_depth t) = Inr t'
    \<and> deposit_rep HC ZH t' (take k ls) k \<and> push_all A HC ZH t' (drop k ls) = Inr t"
proof -
  obtain s t' where s: "get_snapshot t = Some s" "from_snapshot HC ZH s (ddt_depth t) = Inr t'"
    "deposit_rep HC ZH t' (take k ls) k" "ddt_depth t' = ddt_depth t"
    "ddt_finalized_execution_block t' = Some b"
    using rep_snapshot [OF assms(2,3)] by blast
  have "length (take k ls) + length (drop k ls) \<le> 2 ^ ddt_depth t'"
    using assms(2) s(4) by (simp add: deposit_rep_def)
  then obtain u where u: "push_all A HC ZH t' (drop k ls) = Inr u" "deposit_rep HC ZH u ls k"
    "ddt_depth u = ddt_depth t'" "ddt_finalized_execution_block u = ddt_finalized_execution_block t'"
    using rep_push_all [OF assms(1) s(3), of "drop k ls"] by auto
  then have "u = t" using rep_unique [OF u(2) assms(2)] s assms(3) by simp
  then show ?thesis using s u by blast
qed

theorem snapshot_restores_tree_witness:
  "\<exists>s t'. get_snapshot toy_finalized = Some s \<and> from_snapshot toy_concat toy_zero s 2 = Inr t'
     \<and> push_all checked_arith toy_concat toy_zero t' [[2], [3]] = Inr toy_finalized"
  using snapshot_restores_tree [OF checked_arith_laws toy_finalized_rep toy_fields(4)]
  by (auto simp: toy_fields) (auto simp: toy_deposits_def)

text \<open>C26. The root that a snapshot of a tree of the contract's depth computes from the finalized hashes alone is
  the root of the contract's tree when it held the finalized deposits and no other; so the snapshot is
  valid exactly if the finalized block carries that root. The default snapshot is the empty tree's.\<close>

theorem snapshot_root_is_contract_root:
  assumes "hash_laws HF HC ZH" and "deposit_rep HC ZH t ls k" and "ddt_finalized_execution_block t = Some b"
    and "ddt_depth t = DEPOSIT_TREE_DEPTH" and "k < 2 ^ DEPOSIT_TREE_DEPTH"
  shows "\<exists>s. get_snapshot t = Some s
    \<and> calculate_root HC ZH s =
        Some (deposit_root HF ZH (deposit_create HC ZH (take k ls) (of_nat k) DEPOSIT_TREE_DEPTH))
    \<and> (is_valid_snapshot HC ZH s \<longleftrightarrow> feb_deposit_root b =
        deposit_root HF ZH (deposit_create HC ZH (take k ls) (of_nat k) DEPOSIT_TREE_DEPTH))"
proof -
  let ?d = DEPOSIT_TREE_DEPTH
  have zh: "zero_hashes HC ZH" "\<And>a c. HF (a @ c) = HC a c" using assms(1) by (simp_all add: hash_laws_def)
  obtain s where s: "get_snapshot t = Some s" "dts_deposit_count s = of_nat k" "dts_deposit_root s = feb_deposit_root b"
    "dts_finalized s = get_finalized_hashes (ftree HC ZH k ls ?d)"
    using rep_snapshot [OF assms(2,3)] assms(4) by auto
  have k: "k mod 2 ^ ?d = k" "unat (of_nat k :: u64) = k"
    using assms(5) by (simp_all add: DEPOSIT_TREE_DEPTH_def unat_of_nat)
  have "calculate_root_loop HC ZH (dts_finalized s) [0 ..< ?d] (k, length (dts_finalized s), ZH 0) =
      Some (k div 2 ^ ?d, length ([] :: bytes32 list), merkle_root HC ZH (take k ls) ?d)"
    using calculate_root_climb [OF zh(1), of k ?d ls "length (dts_finalized s)" "dts_finalized s" "[]"] s(4) k(1)
      assms(2) by (simp add: deposit_rep_def)
  then have "calculate_root HC ZH s = Some (HC (merkle_root HC ZH (take k ls) ?d) (int_to_bytes32 (of_nat k)))"
    using s(2) k(2) zh(1) by (simp add: calculate_root_def zero_hashes_def)
  moreover have "deposit_root HF ZH (deposit_create HC ZH (take k ls) (of_nat k) ?d) =
      HC (merkle_root HC ZH (take k ls) ?d) (int_to_bytes32 (of_nat k))"
    using zh(2) by (simp add: deposit_root_def deposit_create_def create_ftree length_bytes_def)
  ultimately show ?thesis using s by (auto simp: is_valid_snapshot_def)
qed

definition toy_contract :: deposit_data_tree where
  "toy_contract = \<lparr>ddt_tree = ftree toy_concat toy_zero 1 toy_deposits DEPOSIT_TREE_DEPTH,
     ddt_mix_in_length = 3, ddt_finalized_execution_block = Some toy_block, ddt_depth = DEPOSIT_TREE_DEPTH\<rparr>"

lemma toy_contract_rep: "deposit_rep toy_concat toy_zero toy_contract toy_deposits 1"
  unfolding deposit_rep_def toy_contract_def
  by (simp add: toy_fields DEPOSIT_TREE_DEPTH_def MAX_TREE_DEPTH_def)

theorem snapshot_root_is_contract_root_witness:
  "\<exists>s. get_snapshot toy_contract = Some s
     \<and> calculate_root toy_concat toy_zero s =
        Some (deposit_root (\<lambda>bs. bs) toy_zero (deposit_create toy_concat toy_zero [[1]] 1 DEPOSIT_TREE_DEPTH))"
proof -
  have "ddt_finalized_execution_block toy_contract = Some toy_block" "ddt_depth toy_contract = DEPOSIT_TREE_DEPTH"
    "1 < (2 :: nat) ^ DEPOSIT_TREE_DEPTH" "take 1 toy_deposits = [[1]]"
    by (simp_all add: toy_contract_def DEPOSIT_TREE_DEPTH_def toy_deposits_def)
  then show ?thesis
    using snapshot_root_is_contract_root [OF toy_hash_laws toy_contract_rep] by auto
qed

text \<open>C36. A finalized block with deposit count 0 does not leave the tree alone: the first deposit is
  finalized, so that the tree has no proof for it, and the snapshot that is taken then cannot be restored.\<close>

theorem finalize_zero_finalizes_one:
  assumes "deposit_rep HC ZH t ls 0" and "ls \<noteq> []" and "feb_deposit_count b = 0"
  shows "\<exists>t' s. deposit_finalize t b = Inr t' \<and> ddt_tree t' = ftree HC ZH 1 ls (ddt_depth t)
    \<and> get_snapshot t' = Some s
    \<and> from_snapshot HC ZH s (ddt_depth t) = Inl (InvalidSnapshot EndOfTree)"
proof -
  have fin: "finalize_deposits (ftree HC ZH 0 ls d) 0 d = Inr (ftree HC ZH 1 ls d)" if "ls \<noteq> []" for ls d
    using that
  proof (induction d arbitrary: ls)
    case (Suc d)
    have "1 < (2 :: nat) ^ Suc d" by (rule one_less_power) simp_all
    then show ?case using Suc by (simp add: Let_def)
  qed simp
  have snap: "from_finalized_snapshot HC ZH (h # hs) 0 d = Inl (InvalidSnapshot EndOfTree)" for h hs d
    by (induction d) simp_all
  obtain h hs where "get_finalized_hashes (ftree HC ZH 1 ls (ddt_depth t)) = h # hs"
    using finalized_hashes_some [of 1 ls HC ZH "ddt_depth t"] assms(2)
    by (cases "get_finalized_hashes (ftree HC ZH 1 ls (ddt_depth t))") auto
  then show ?thesis
    using assms fin [OF assms(2), of "ddt_depth t"] snap
    by (simp add: deposit_finalize_def deposit_rep_def get_snapshot_def from_snapshot_def)
qed

theorem finalize_zero_finalizes_one_witness:
  "\<exists>t' s. deposit_finalize toy_tree (toy_block\<lparr>feb_deposit_count := 0\<rparr>) = Inr t'
     \<and> get_snapshot t' = Some s \<and> from_snapshot toy_concat toy_zero s 2 = Inl (InvalidSnapshot EndOfTree)"
proof -
  have "toy_deposits \<noteq> []" by (simp add: toy_deposits_def)
  from finalize_zero_finalizes_one [OF toy_tree_rep this, of "toy_block\<lparr>feb_deposit_count := 0\<rparr>"]
  show ?thesis by (auto simp: toy_fields)
qed

end
