(* ===== verification/Spec2Isabelle.thy ===== *)
theory Spec2Isabelle
  imports Finality_Properties Slot_Properties Fork_Choice_Findings Slashing_Properties Interchange_Minify Head_Properties System_Properties Payload_Propagation Shuffle Deposit_Properties
begin

text \<open>
  Verification of parts of vibehouse, an Ethereum consensus client in Rust (a fork of Lighthouse with the
  Gloas fork). File names below are relative to \<^verbatim>\<open>src/\<close>.

  \<^bold>\<open>The program's parts and how they interact.\<close> A beacon node runs the state transition
  (\<^verbatim>\<open>consensus/state_processing\<close>) on blocks, which at the end of every epoch justifies and finalizes
  checkpoints, and it feeds blocks, attestations, payload verdicts and the justified balances to fork choice
  (\<^verbatim>\<open>consensus/proto_array\<close>, called through \<^verbatim>\<open>consensus/fork_choice\<close>), which selects the head. Committees
  come from the shuffle (\<^verbatim>\<open>consensus/swap_or_not_shuffle\<close>), deposits from the sparse Merkle tree
  (\<^verbatim>\<open>consensus/merkle_proof\<close>). A validator client signs blocks and attestations after asking its slashing
  protection database (\<^verbatim>\<open>validator_client/slashing_protection\<close>).

  \<^bold>\<open>Conventions.\<close> \<^verbatim>\<open>u64\<close> is \<open>64 word\<close>, \<^verbatim>\<open>i64\<close> is \<open>64 word\<close> read with \<open>sint\<close>, \<^verbatim>\<open>usize\<close> is \<open>nat\<close>; slots and
  epochs are \<^verbatim>\<open>u64\<close>. \<^verbatim>\<open>Result\<close> is a sum with the error on the left; an operation that mutates its receiver
  and may fail half way returns the state it leaves behind with the error (\<open>outcome\<close>). Code of other crates is
  a parameter: the hash functions and the table of zero hashes, the checked arithmetic of \<^verbatim>\<open>safe_arith\<close>
  (\<open>safe_arith_laws\<close>, instance \<open>checked_arith\<close>), the bit vector of \<^verbatim>\<open>ssz_types\<close> (\<open>bit_vector_laws\<close>, instance
  \<open>word_bits\<close>). Hash maps are association lists; \<open>Consensus_Prelude\<close> proves their laws once
  (locale \<open>finite_map\<close>), and holds the result type, the machine arithmetic and the list lemmas.
  \<open>Guarded_Steps\<close> holds the interface of systems whose steps may fail half way (\<open>guarded_system\<close>); it is
  interpreted on fork choice, on the deposit tree and on the slashing protection database.

  \<^bold>\<open>Types.\<close> \<open>Core_Types\<close>: the presets, slots and epochs (\<^verbatim>\<open>consensus/types/src/slot_epoch.rs\<close>,
  \<^verbatim>\<open>slot_epoch_macros.rs\<close>), relative epochs, the fork schedule (\<^verbatim>\<open>fork_name.rs\<close>, \<^verbatim>\<open>chain_spec.rs\<close>).
  \<open>Slot_Properties\<close>: the iterator over an epoch ends and yields its slots; the fork at an epoch is the latest
  one reached; relative epochs round-trip. \<open>slot_iter_take\<close> has fuel: one more than the slots of an
  epoch, and \<open>slot_iter_terminates\<close> shows that more changes nothing. \<open>Int_To_Bytes\<close>:
  \<^verbatim>\<open>consensus/int_to_bytes\<close>.

  \<^bold>\<open>Fork choice.\<close> The data is in \<open>Proto_Node\<close>, the operations of \<^verbatim>\<open>ProtoArray\<close> (\<^verbatim>\<open>proto_array.rs\<close>) in
  \<open>Proto_Array\<close>, votes and deltas in \<open>Vote_Tracker\<close>, the Gloas head selection in \<open>Gloas_Fork_Choice\<close>,
  \<^verbatim>\<open>ProtoArrayForkChoice\<close> with its container in \<open>Fork_Choice\<close>. A parent precedes its children in the node list;
  the loops keep the order in which the source mutates it.
  \<open>Proto_Tree\<close> and \<open>Proto_Wf\<close> give the tree of parent links and the invariant \<open>wf_array\<close>, \<open>Proto_Invariant\<close> that
  every operation keeps it, also when it fails, \<open>Index_Safety\<close> that no internal index error can occur.
  \<open>Proto_Ghost\<close>, \<open>Proto_Weights\<close>, \<open>Vote_Deltas\<close> and \<open>Lmd_Ghost\<close> show that the two loops over the array compute
  the weights of the votes and the LMD-GHOST head; the theorem needs \<open>clean_leaves\<close>, since invalidated blocks
  can leave best links that the loops do not repair (\<open>Fork_Choice_Findings\<close>). \<open>Gloas_Head\<close> and \<open>Gloas_Walk\<close> show
  that the cached and indexed Gloas selection is the walk to the best virtual node; its loop has fuel, twice the
  number of nodes and three, which the walk never uses up. \<open>Payload_Status\<close> and
  \<open>Payload_Propagation\<close> are about payload verdicts, \<open>Proto_Prune\<close> about pruning, \<open>Fork_Choice_System\<close> and
  \<open>System_Properties\<close> about all reachable states. The properties are in \<open>Head_Properties\<close>,
  \<open>Gloas_Properties\<close>, \<open>System_Properties\<close> and \<open>Payload_Propagation\<close>; \<open>Sample_Chain\<close> has the block trees
  on which they are exercised.

  \<^bold>\<open>Finality.\<close> \<open>Justification\<close> models \<^verbatim>\<open>weigh_justification_and_finalization.rs\<close>,
  \<^verbatim>\<open>justification_and_finalization_state.rs\<close>, \<^verbatim>\<open>altair/justification_and_finalization.rs\<close> and the block root
  accessors of \<^verbatim>\<open>beacon_state.rs\<close>. \<open>Finality\<close> follows a chain of epochs (\<open>chain\<close>) together with the links that
  had two thirds of the stake; the fields that other code changes between two epochs are arbitrary.
  \<open>Finality_Properties\<close>: only checkpoints that Casper's rule allows become final, checkpoints never go
  back, two supported epochs in a row finalize.

  \<^bold>\<open>Shuffle and deposits.\<close> \<open>Shuffle\<close> models both shuffling functions and shows that the in-place
  list shuffle with its cached digest agrees with the function on single indices. \<open>Merkle_Proof\<close>, \<open>Deposit_Tree\<close>
  and \<open>Deposit_Properties\<close> model the sparse tree, the deposit tree and its snapshots
  (\<^verbatim>\<open>state_processing/src/common/deposit_data_tree.rs\<close>, \<^verbatim>\<open>types/src/deposit_tree_snapshot.rs\<close>) and show that the
  tree refines the list of deposits, that proofs verify and bind, and that snapshots restore the tree.

  \<^bold>\<open>Slashing protection.\<close> \<open>Slashing_Database\<close> models the tables of \<^verbatim>\<open>slashing_database.rs\<close> as lists and each SQL
  statement as the operation on them; a transaction works on a copy. \<open>Slashing_Logs\<close> gives the interface
  \<open>protected_log\<close> of what must be kept to refuse every clash after pruning and import, interpreted for blocks and
  for attestations; \<open>Slashing_Safety\<close> the system of all calls with the history of everything signed,
  \<open>Slashing_Properties\<close> that no approved message is slashable, that failures change nothing and that later
  messages are approved. \<open>Interchange_Minify\<close> is about \<^verbatim>\<open>Interchange::minify\<close> of \<^verbatim>\<open>common/eip_3076\<close>.

  \<^bold>\<open>Not modelled.\<close> The SSZ encoding, tree hashing and BLS signatures (external crates); the remaining steps of
  the state transition and the validation in \<^verbatim>\<open>consensus/fork_choice\<close>, which read the full beacon state and its
  caches; networking, sync, the HTTP interfaces, the execution layer, stores and process start-up, which are
  asynchronous input and output; the schema migration and file handling of the slashing protection
  database; command-line tools and tests.
\<close>

end
